(* ===== verification/Prelude.thy ===== *)
theory Prelude
  imports Main "HOL-Library.Word"
begin

text \<open>
  Shared vocabulary of the development: machine integers, byte memories with
  range reads and writes, little-endian encodings, error results, and the
  sequencing of fallible state-changing calls.

  A persistent region (a memory pool, a BTT namespace) is a total function from
  byte addresses to bytes.  C integers of a fixed width are words; sizes and
  addresses that index a memory are natural numbers obtained with \<open>unat\<close>.
\<close>

unbundle bit_operations_syntax

type_synonym byte = "8 word"
type_synonym u16 = "16 word"
type_synonym u32 = "32 word"
type_synonym u64 = "64 word"
type_synonym mem = "nat \<Rightarrow> byte"

named_theorems mem_simps \<open>reads after writes on byte memories\<close>
named_theorems le_simps \<open>little-endian encodings\<close>

text \<open>
  Error results.  The errno constants are the ones the sources set, \<open>FAIL\<close> is a return
  of \<open>-1\<close> that leaves errno alone.  \<open>POWERLOSS\<close>
  ends a call because the power failed, \<open>HANG\<close> is a call that never returns (a busy
  wait nobody ends) and \<open>ABORT\<close> a call to abort() or undefined behaviour.
\<close>

datatype err = EINVAL | EIO | EROFS | ENOSPC | ENOTSUP | ENOMEM | EEXIST | FAIL | POWERLOSS | HANG | ABORT

text \<open>A fallible call on a state, followed by a continuation on success.\<close>

definition bind_io :: "(err + 'a) \<times> 's \<Rightarrow> ('a \<Rightarrow> 's \<Rightarrow> (err + 'b) \<times> 's) \<Rightarrow> (err + 'b) \<times> 's" where
  "bind_io p k = (case p of (Inl e, s) \<Rightarrow> (Inl e, s) | (Inr x, s) \<Rightarrow> k x s)"

lemma bind_io_Inl [simp]: "bind_io (Inl e, s) k = (Inl e, s)"
  by (simp add: bind_io_def)

lemma bind_io_Inr [simp]: "bind_io (Inr x, s) k = k x s"
  by (simp add: bind_io_def)

lemma bind_io_cases:
  assumes "bind_io p k = (r, t)"
  obtains (fail) e where "p = (Inl e, t)" "r = Inl e"
    | (ok) x s where "p = (Inr x, s)" "k x s = (r, t)"
  using assms by (cases p; cases "fst p") auto

definition succeeds :: "err + 'a \<Rightarrow> bool" where
  "succeeds r \<longleftrightarrow> (case r of Inl _ \<Rightarrow> False | Inr _ \<Rightarrow> True)"

lemma succeeds_simps [simp]: "succeeds (Inr x)" "\<not> succeeds (Inl e)"
  by (simp_all add: succeeds_def)

lemma sum_unit_cases: "r = Inr () \<or> (\<exists>e. r = Inl e)" for r :: "err + unit"
  by (cases r) auto

section \<open>Words\<close>

lemma unat_of_nat_small: "n < 2 ^ LENGTH('a) \<Longrightarrow> unat (of_nat n :: 'a::len word) = n"
  by (simp add: unat_of_nat)

lemma unat_less [simp]:
  "unat (a :: byte) < 256" "unat (b :: u16) < 65536" "unat (c :: u32) < 4294967296"
  "unat (d :: u64) < 18446744073709551616"
  using unsigned_less [of a, where 'a = nat] unsigned_less [of b, where 'a = nat]
    unsigned_less [of c, where 'a = nat] unsigned_less [of d, where 'a = nat]
  by simp_all

lemma unat_add_small:
  "unat a + unat b < 2 ^ LENGTH('a) \<Longrightarrow> unat (a + b) = unat a + unat b" for a b :: "'a::len word"
  by (simp add: unat_word_ariths)

lemma unat_mult_small:
  "unat a * unat b < 2 ^ LENGTH('a) \<Longrightarrow> unat (a * b) = unat a * unat b" for a b :: "'a::len word"
  by (simp add: unat_word_ariths)

lemma unat_sub_small:
  "unat b \<le> unat a \<Longrightarrow> unat (a - b) = unat a - unat b" for a b :: "'a::len word"
  by (simp add: unat_sub word_le_nat_alt)

lemma unat_ucast_32_64 [simp]: "unat (ucast (w :: u32) :: u64) = unat w"
  by transfer (simp add: take_bit_eq_mod)

lemma and_not_mask_conv: "x AND NOT (mask k) = push_bit k (drop_bit k x)" for x :: "'a::len word"
  by (rule bit_word_eqI) (auto simp: bit_simps)

lemma unat_and_not_mask:
  "unat (x AND NOT (mask k)) = 2 ^ k * (unat x div 2 ^ k)" for x :: "'a::len word"
proof -
  have lt: "2 ^ k * (unat x div 2 ^ k) < 2 ^ LENGTH('a)"
    using unsigned_less [of x, where 'a = nat]
    by (meson le_less_trans times_div_less_eq_dividend)
  have d: "drop_bit k x = of_nat (unat x div 2 ^ k)"
    by (simp flip: unat_drop_bit_eq drop_bit_eq_div)
  have "x AND NOT (mask k) = of_nat (2 ^ k * (unat x div 2 ^ k))"
    by (simp only: and_not_mask_conv push_bit_eq_mult d of_nat_mult of_nat_power
        of_nat_numeral mult.commute)
  with lt show ?thesis by (simp only: unat_of_nat_small)
qed

lemma unat_mask_word: "k < LENGTH('a) \<Longrightarrow> unat (mask k :: 'a::len word) = 2 ^ k - 1"
  by (simp add: unat_eq_nat_uint uint_mask_eq mask_int_def nat_diff_distrib nat_power_eq)

lemma unat_add_mask_and_not:
  fixes x :: "'a::len word"
  assumes "k < LENGTH('a)" "unat x + 2 ^ k - 1 < 2 ^ LENGTH('a)"
  shows "unat ((x + mask k) AND NOT (mask k)) = 2 ^ k * ((unat x + 2 ^ k - 1) div 2 ^ k)"
proof -
  have u: "unat (mask k :: 'a word) = 2 ^ k - 1"
    using assms(1) by (rule unat_mask_word)
  then have "unat (x + mask k) = unat x + 2 ^ k - 1"
    using assms(2) by (subst unat_add_small) simp_all
  then show ?thesis by (simp add: unat_and_not_mask)
qed

section \<open>Byte memories\<close>

definition rd :: "mem \<Rightarrow> nat \<Rightarrow> nat \<Rightarrow> byte list" where
  "rd m off n = map (\<lambda>i. m (off + i)) [0..<n]"

definition wr :: "mem \<Rightarrow> nat \<Rightarrow> byte list \<Rightarrow> mem" where
  "wr m off bs = (\<lambda>a. if off \<le> a \<and> a < off + length bs then bs ! (a - off) else m a)"

text \<open>
  A write that power failure interrupts: persistent memory guarantees only that an
  aligned 8-byte word is written as a whole, so an arbitrary selection of the
  words the write touches reaches the medium.
\<close>

definition wr_torn :: "(nat \<Rightarrow> bool) \<Rightarrow> mem \<Rightarrow> nat \<Rightarrow> byte list \<Rightarrow> mem" where
  "wr_torn sel m off bs =
     (\<lambda>a. if off \<le> a \<and> a < off + length bs \<and> sel (a div 8) then bs ! (a - off) else m a)"

definition disjoint_ranges :: "nat \<Rightarrow> nat \<Rightarrow> nat \<Rightarrow> nat \<Rightarrow> bool" where
  "disjoint_ranges a n b k \<longleftrightarrow> a + n \<le> b \<or> b + k \<le> a"

lemma disjoint_ranges_sym: "disjoint_ranges a n b k \<Longrightarrow> disjoint_ranges b k a n"
  by (auto simp: disjoint_ranges_def)

lemma length_rd [simp]: "length (rd m off n) = n"
  by (simp add: rd_def)

lemma nth_rd [simp]: "i < n \<Longrightarrow> rd m off n ! i = m (off + i)"
  by (simp add: rd_def)

lemma rd_0 [simp]: "rd m off 0 = []"
  by (simp add: rd_def)

lemma wr_Nil [simp]: "wr m off [] = m"
  by (rule ext) (auto simp: wr_def)

lemma rd_eqI: "(\<And>i. i < n \<Longrightarrow> m (off + i) = m' (off' + i)) \<Longrightarrow> rd m off n = rd m' off' n"
  by (simp add: rd_def)

lemma rd_wr_same [mem_simps]: "n = length bs \<Longrightarrow> rd (wr m off bs) off n = bs"
  by (rule nth_equalityI) (auto simp: wr_def)

lemma rd_wr_disjoint [mem_simps]:
  "disjoint_ranges off (length bs) off' n \<Longrightarrow> rd (wr m off bs) off' n = rd m off' n"
  by (rule rd_eqI) (auto simp: wr_def disjoint_ranges_def)

lemma rd_wr_torn_disjoint [mem_simps]:
  "disjoint_ranges off (length bs) off' n \<Longrightarrow> rd (wr_torn sel m off bs) off' n = rd m off' n"
  by (rule rd_eqI) (auto simp: wr_torn_def disjoint_ranges_def)

lemma wr_torn_all: "wr_torn (\<lambda>_. True) m off bs = wr m off bs"
  by (rule ext) (simp add: wr_torn_def wr_def)

lemma wr_torn_none [simp]: "wr_torn (\<lambda>_. False) m off bs = m"
  by (rule ext) (simp add: wr_torn_def)

text \<open>A write inside one aligned word is all or nothing.\<close>

lemma wr_torn_atomic:
  assumes "off div 8 = (off + length bs - 1) div 8" "bs \<noteq> []"
  shows "wr_torn sel m off bs = (if sel (off div 8) then wr m off bs else m)"
proof (rule ext)
  fix a
  have "a div 8 = off div 8" if "off \<le> a" "a < off + length bs"
  proof -
    have "off div 8 \<le> a div 8" "a div 8 \<le> (off + length bs - 1) div 8"
      using that by (auto intro!: div_le_mono)
    with assms show ?thesis by simp
  qed
  then show "wr_torn sel m off bs a = (if sel (off div 8) then wr m off bs else m) a"
    by (auto simp: wr_torn_def wr_def)
qed

lemma wr_append: "wr m off (bs @ cs) = wr (wr m off bs) (off + length bs) cs"
  by (rule ext) (auto simp: wr_def nth_append diff_diff_add)

lemma rd_append: "rd m off (n + k) = rd m off n @ rd m (off + n) k"
  by (rule nth_equalityI) (auto simp: nth_append)

lemma take_rd: "k \<le> n \<Longrightarrow> take k (rd m off n) = rd m off k"
  by (rule nth_equalityI) auto

lemma drop_rd: "drop k (rd m off n) = rd m (off + k) (n - k)"
  by (rule nth_equalityI) (auto simp: add.assoc)

lemma wr_outside: "a < off \<or> off + length bs \<le> a \<Longrightarrow> wr m off bs a = m a"
  by (auto simp: wr_def)

lemma wr_torn_outside: "a < off \<or> off + length bs \<le> a \<Longrightarrow> wr_torn sel m off bs a = m a"
  by (auto simp: wr_torn_def)

section \<open>Little-endian integers\<close>

fun le_enc :: "nat \<Rightarrow> nat \<Rightarrow> byte list" where
  "le_enc 0 x = []"
| "le_enc (Suc n) x = of_nat x # le_enc n (x div 256)"

fun le_dec :: "byte list \<Rightarrow> nat" where
  "le_dec [] = 0"
| "le_dec (b # bs) = unat b + 256 * le_dec bs"

definition le16 :: "u16 \<Rightarrow> byte list" where "le16 w = le_enc 2 (unat w)"
definition le32 :: "u32 \<Rightarrow> byte list" where "le32 w = le_enc 4 (unat w)"
definition le64 :: "u64 \<Rightarrow> byte list" where "le64 w = le_enc 8 (unat w)"
definition unle16 :: "byte list \<Rightarrow> u16" where "unle16 bs = of_nat (le_dec bs)"
definition unle32 :: "byte list \<Rightarrow> u32" where "unle32 bs = of_nat (le_dec bs)"
definition unle64 :: "byte list \<Rightarrow> u64" where "unle64 bs = of_nat (le_dec bs)"

lemma length_le_enc [simp]: "length (le_enc n x) = n"
  by (induction n arbitrary: x) auto

lemma unat_of_nat_byte: "unat (of_nat x :: byte) = x mod 256"
  by (simp add: unat_of_nat)

lemma le_dec_enc: "le_dec (le_enc n x) = x mod 256 ^ n"
proof (induction n arbitrary: x)
  case 0
  then show ?case by simp
next
  case (Suc n)
  have "x mod 256 ^ Suc n = x mod 256 + 256 * (x div 256 mod 256 ^ n)"
    by (simp add: mod_mult2_eq)
  with Suc show ?case by (simp add: unat_of_nat_byte)
qed

lemma le_dec_less: "le_dec bs < 256 ^ length bs"
proof (induction bs)
  case Nil
  then show ?case by simp
next
  case (Cons b bs)
  have "unat b < 256" by simp
  with Cons have "unat b + 256 * le_dec bs < 256 * 256 ^ length bs" by linarith
  then show ?case by simp
qed

lemma le_enc_dec: "le_enc (length bs) (le_dec bs) = bs"
proof (induction bs)
  case Nil
  then show ?case by simp
next
  case (Cons b bs)
  have b: "unat b < 256" by simp
  have "(of_nat (unat b + 256 * le_dec bs) :: byte) = b"
  proof -
    have "(256 :: byte) = 0" by simp
    then show ?thesis by (simp only: of_nat_add of_nat_mult of_nat_numeral mult_zero_left) simp
  qed
  with Cons b show ?case by simp
qed

lemma length_le [simp]:
  "length (le16 a) = 2" "length (le32 b) = 4" "length (le64 c) = 8"
  by (simp_all add: le16_def le32_def le64_def)

lemma unle_le [simp, le_simps]:
  "unle16 (le16 a) = a" "unle32 (le32 b) = b" "unle64 (le64 c) = c"
proof -
  have "unat a < 256 ^ 2" by simp
  then show "unle16 (le16 a) = a"
    by (simp add: unle16_def le16_def le_dec_enc)
  have "unat b < 256 ^ 4" by simp
  then show "unle32 (le32 b) = b"
    by (simp add: unle32_def le32_def le_dec_enc)
  have "unat c < 256 ^ 8" by simp
  then show "unle64 (le64 c) = c"
    by (simp add: unle64_def le64_def le_dec_enc)
qed

lemma le_unle [le_simps]:
  "length x = 2 \<Longrightarrow> le16 (unle16 x) = x"
  "length y = 4 \<Longrightarrow> le32 (unle32 y) = y"
  "length z = 8 \<Longrightarrow> le64 (unle64 z) = z"
proof -
  assume x: "length x = 2"
  then have "unat (unle16 x) = le_dec x"
    using le_dec_less [of x] by (simp add: unle16_def unat_of_nat_small)
  with x show "le16 (unle16 x) = x" using le_enc_dec [of x] by (simp add: le16_def)
next
  assume y: "length y = 4"
  then have "unat (unle32 y) = le_dec y"
    using le_dec_less [of y] by (simp add: unle32_def unat_of_nat_small)
  with y show "le32 (unle32 y) = y" using le_enc_dec [of y] by (simp add: le32_def)
next
  assume z: "length z = 8"
  then have "unat (unle64 z) = le_dec z"
    using le_dec_less [of z] by (simp add: unle64_def unat_of_nat_small)
  with z show "le64 (unle64 z) = z" using le_enc_dec [of z] by (simp add: le64_def)
qed

section \<open>Alignment\<close>

text \<open>The \<open>roundup\<close> macro of sys/param.h at a power of two, on 32 and 64 bits.\<close>

definition roundup32 :: "u32 \<Rightarrow> u32 \<Rightarrow> u32" where
  "roundup32 x y = (x + (y - 1)) AND NOT (y - 1)"

definition roundup64 :: "u64 \<Rightarrow> u64 \<Rightarrow> u64" where
  "roundup64 x y = (x + (y - 1)) AND NOT (y - 1)"

lemma unat_roundup32:
  "k < 32 \<Longrightarrow> unat x + 2 ^ k - 1 < 2 ^ 32 \<Longrightarrow>
   unat (roundup32 x (2 ^ k)) = 2 ^ k * ((unat x + 2 ^ k - 1) div 2 ^ k)"
  using unat_add_mask_and_not [of k x] by (simp add: roundup32_def mask_eq_exp_minus_1)

lemma unat_roundup64:
  "k < 64 \<Longrightarrow> unat x + 2 ^ k - 1 < 2 ^ 64 \<Longrightarrow>
   unat (roundup64 x (2 ^ k)) = 2 ^ k * ((unat x + 2 ^ k - 1) div 2 ^ k)"
  using unat_add_mask_and_not [of k x] by (simp add: roundup64_def mask_eq_exp_minus_1)

text \<open>The same rounding on natural numbers.\<close>

definition rup :: "nat \<Rightarrow> nat \<Rightarrow> nat" where
  "rup n k = k * ((n + k - 1) div k)"

lemma rup_ge: "0 < k \<Longrightarrow> n \<le> rup n k"
proof -
  assume k: "0 < k"
  have "n + k - 1 < k + k * ((n + k - 1) div k)"
    using k by (rule dividend_less_times_div)
  then show ?thesis using k by (simp add: rup_def)
qed

lemma rup_le: "0 < k \<Longrightarrow> rup n k \<le> n + k - 1"
  by (simp add: rup_def)

lemma rup_dvd [simp]: "k dvd rup n k"
  by (simp add: rup_def)

lemma rup_id: "k dvd n \<Longrightarrow> 0 < k \<Longrightarrow> rup n k = n"
proof -
  assume "k dvd n" "0 < k"
  then obtain q where q: "n = k * q" by (auto elim: dvdE)
  have "(k * q + k - 1) div k = q"
    by (rule div_nat_eqI) (use \<open>0 < k\<close> in \<open>auto simp: algebra_simps\<close>)
  with q show ?thesis by (simp add: rup_def)
qed

end
