(* ===== verification/Checksum.thy ===== *)
theory Checksum
  imports Prelude
begin

text \<open>
  The Fletcher64 checksum of common/util.c.  A buffer is the list of its bytes;
  the pointer \<open>csump\<close> into it is its byte offset from the start of the buffer.
  The loops keep the running sums \<open>lo32\<close> and \<open>hi32\<close> as wrapping 32-bit words.
\<close>

definition word32_at :: "byte list \<Rightarrow> nat \<Rightarrow> u32" where
  "word32_at bs i = unle32 (take 4 (drop (4 * i) bs))"

definition csum_pack :: "u32 \<times> u32 \<Rightarrow> u64" where
  "csum_pack p = push_bit 32 (ucast (snd p)) OR ucast (fst p)"

definition csum_unpack :: "u64 \<Rightarrow> u32 \<times> u32" where
  "csum_unpack w = (ucast w, ucast (drop_bit 32 w))"

text \<open>
  The while loop of \<open>util_checksum_compute\<close>: at the checksum field, and from
  \<open>skip\<close> on, two words are stepped over as zeros.
\<close>

function csum_loop :: "byte list \<Rightarrow> nat \<Rightarrow> nat \<Rightarrow> nat \<Rightarrow> u32 \<Rightarrow> u32 \<Rightarrow> u32 \<times> u32" where
  "csum_loop bs csump skip i lo hi =
     (if 4 * i < length bs then
        (if 4 * i = csump \<or> skip \<le> 4 * i
         then csum_loop bs csump skip (i + 2) lo (hi + lo + lo)
         else csum_loop bs csump skip (i + 1) (lo + word32_at bs i) (hi + (lo + word32_at bs i)))
      else (lo, hi))"
  by pat_completeness auto
termination
  by (relation "measure (\<lambda>(bs, csump, skip, i, lo, hi). length bs - 4 * i)") auto

declare csum_loop.simps [simp del]

definition util_checksum_compute :: "byte list \<Rightarrow> nat \<Rightarrow> nat \<Rightarrow> err + u64" where
  "util_checksum_compute bs csump skip_off =
     (if length bs mod 4 \<noteq> 0 then Inl ABORT
      else Inr (csum_pack (csum_loop bs csump
             (if skip_off \<noteq> 0 then skip_off else length bs) 0 0 0)))"

definition put_bytes :: "byte list \<Rightarrow> nat \<Rightarrow> byte list \<Rightarrow> byte list" where
  "put_bytes bs off new = take off bs @ new @ drop (off + length new) bs"

definition util_checksum :: "byte list \<Rightarrow> nat \<Rightarrow> bool \<Rightarrow> nat \<Rightarrow> err + (bool \<times> byte list)" where
  "util_checksum bs csump ins skip_off =
     (case util_checksum_compute bs csump skip_off of
        Inl e \<Rightarrow> Inl e
      | Inr csum \<Rightarrow>
          (if ins then Inr (True, put_bytes bs csump (le64 csum))
           else Inr (unle64 (take 8 (drop csump bs)) = csum, bs)))"

fun seq_loop :: "u32 list \<Rightarrow> u32 \<Rightarrow> u32 \<Rightarrow> u32 \<times> u32" where
  "seq_loop [] lo hi = (lo, hi)"
| "seq_loop (w # ws) lo hi = seq_loop ws (lo + w) (hi + (lo + w))"

definition words32 :: "byte list \<Rightarrow> u32 list" where
  "words32 bs = map (word32_at bs) [0..<length bs div 4]"

definition util_checksum_seq :: "byte list \<Rightarrow> u64 \<Rightarrow> err + u64" where
  "util_checksum_seq bs csum =
     (if length bs mod 4 \<noteq> 0 then Inl ABORT
      else Inr (csum_pack (case csum_unpack csum of (lo, hi) \<Rightarrow> seq_loop (words32 bs) lo hi)))"

text \<open>
  \<open>util_is_zeroed\<close>: the first byte is zero and the range equals itself shifted
  by one byte.
\<close>

definition util_is_zeroed :: "byte list \<Rightarrow> bool" where
  "util_is_zeroed a =
     (if a = [] then True
      else a ! 0 = 0 \<and> take (length a - 1) a = take (length a - 1) (drop 1 a))"

section \<open>Lemmas\<close>

lemma csum_unpack_pack [simp]: "csum_unpack (csum_pack p) = p"
proof -
  obtain lo hi where p: "p = (lo, hi)" by (cases p)
  have "(ucast (push_bit 32 (ucast hi :: u64) OR ucast lo) :: u32) = lo"
    by (rule bit_word_eqI) (auto simp: bit_simps)
  moreover have "(ucast (drop_bit 32 (push_bit 32 (ucast hi :: u64) OR ucast lo)) :: u32) = hi"
    by (rule bit_word_eqI) (auto simp: bit_simps dest: bit_imp_le_length)
  ultimately show ?thesis by (simp add: p csum_pack_def csum_unpack_def)
qed

lemma csum_pack_inject: "csum_pack p = csum_pack q \<longleftrightarrow> p = q"
  by (metis csum_unpack_pack)

lemma seq_loop_append: "seq_loop (xs @ ys) lo hi = (case seq_loop xs lo hi of (l, h) \<Rightarrow> seq_loop ys l h)"
  by (induction xs lo hi rule: seq_loop.induct) auto

lemma length_put_bytes [simp]:
  "off + length new \<le> length bs \<Longrightarrow> length (put_bytes bs off new) = length bs"
  by (simp add: put_bytes_def)

lemma nth_put_bytes_outside:
  "off + length new \<le> length bs \<Longrightarrow> i < length bs \<Longrightarrow> i < off \<or> off + length new \<le> i \<Longrightarrow>
   put_bytes bs off new ! i = bs ! i"
  by (auto simp: put_bytes_def nth_append min_def)

lemma take_drop_put_bytes:
  "off + length new \<le> length bs \<Longrightarrow> take (length new) (drop off (put_bytes bs off new)) = new"
  by (simp add: put_bytes_def)

lemma word32_at_cong:
  assumes "length as = length bs" "4 * i + 4 \<le> length bs"
    "\<And>k. k < 4 \<Longrightarrow> as ! (4 * i + k) = bs ! (4 * i + k)"
  shows "word32_at as i = word32_at bs i"
proof -
  have "take 4 (drop (4 * i) as) = take 4 (drop (4 * i) bs)"
    by (rule nth_equalityI) (use assms in auto)
  then show ?thesis by (simp add: word32_at_def)
qed

text \<open>The checksum does not depend on the bytes of the checksum field and of the skipped tail.\<close>

lemma csum_loop_cong:
  assumes len: "length as = length bs" "length bs mod 4 = 0" "csump mod 4 = 0"
    and eq: "\<And>k. k < length bs \<Longrightarrow> k < csump \<or> csump + 8 \<le> k \<Longrightarrow> 4 * (k div 4) < skip \<Longrightarrow> as ! k = bs ! k"
    and at: "4 * i \<le> csump \<or> csump + 8 \<le> 4 * i \<or> skip \<le> 4 * i"
  shows "csum_loop as csump skip i lo hi = csum_loop bs csump skip i lo hi"
  using at
proof (induction "length bs - 4 * i" arbitrary: i lo hi rule: less_induct)
  case less
  note rec = csum_loop.simps [of as csump skip i lo hi] csum_loop.simps [of bs csump skip i lo hi]
  consider "length bs \<le> 4 * i" | "4 * i < length bs" "4 * i = csump \<or> skip \<le> 4 * i"
    | "4 * i < length bs" "4 * i \<noteq> csump" "4 * i < skip"
    by linarith
  then show ?case
  proof cases
    case 1
    then show ?thesis by (simp add: rec len(1))
  next
    case 2
    then have "csum_loop as csump skip (i + 2) lo h = csum_loop bs csump skip (i + 2) lo h" for h
      by (intro less.hyps) auto
    with 2 show ?thesis by (simp add: rec len(1))
  next
    case 3
    from 3 less.prems have side: "4 * i < csump \<or> csump + 8 \<le> 4 * i" by auto
    have "word32_at as i = word32_at bs i"
    proof (rule word32_at_cong [OF len(1)])
      show le: "4 * i + 4 \<le> length bs" using 3(1) len(2) by presburger
      fix k :: nat
      assume "k < 4"
      with side len(3) le 3(3) show "as ! (4 * i + k) = bs ! (4 * i + k)"
        by (intro eq) presburger+
    qed
    moreover have "csum_loop as csump skip (i + 1) l h = csum_loop bs csump skip (i + 1) l h" for l h
      using 3 side len(3) by (intro less.hyps) presburger+
    ultimately show ?thesis using 3 by (simp add: rec len(1))
  qed
qed

lemma util_checksum_compute_put:
  assumes "length bs mod 4 = 0" "csump mod 4 = 0" "csump + 8 \<le> length bs" "length new = 8"
  shows "util_checksum_compute (put_bytes bs csump new) csump skip = util_checksum_compute bs csump skip"
proof -
  have "csum_loop (put_bytes bs csump new) csump sk 0 0 0 = csum_loop bs csump sk 0 0 0" for sk
    by (rule csum_loop_cong) (use assms in \<open>auto simp: nth_put_bytes_outside\<close>)
  with assms show ?thesis by (simp add: util_checksum_compute_def)
qed

lemma word32_at_zeros: "4 * i + 4 \<le> length bs \<Longrightarrow> (\<And>k. k < 4 \<Longrightarrow> bs ! (4 * i + k) = 0) \<Longrightarrow> word32_at bs i = 0"
proof -
  assume len: "4 * i + 4 \<le> length bs" and z: "\<And>k. k < 4 \<Longrightarrow> bs ! (4 * i + k) = 0"
  have "take 4 (drop (4 * i) bs) = [0, 0, 0, 0]"
  proof (rule nth_equalityI)
    fix k
    assume "k < length (take 4 (drop (4 * i) bs))"
    then have "k < 4" by simp
    with len z have "take 4 (drop (4 * i) bs) ! k = 0" by simp
    moreover from \<open>k < 4\<close> have "[0, 0, 0, 0] ! k = (0 :: byte)"
      by (auto simp: less_Suc_eq numeral_eq_Suc)
    ultimately show "take 4 (drop (4 * i) bs) ! k = [0, 0, 0, 0] ! k" by simp
  qed (use len in simp)
  then show ?thesis by (simp add: word32_at_def unle32_def)
qed

lemma drop_words32:
  "4 * i < length bs \<Longrightarrow> length bs mod 4 = 0 \<Longrightarrow>
   drop i (words32 bs) = word32_at bs i # drop (Suc i) (words32 bs)"
  by (subst Cons_nth_drop_Suc [symmetric]) (auto simp: words32_def)

text \<open>
  Without a skipped tail the loop is the sequential sum over the words of the
  buffer with a zeroed checksum field.
\<close>

lemma csum_loop_seq:
  assumes len: "length bs mod 4 = 0" "csump mod 4 = 0" "csump + 8 \<le> length bs"
    and zero: "\<And>k. csump \<le> k \<Longrightarrow> k < csump + 8 \<Longrightarrow> bs ! k = 0"
    and at: "4 * i \<le> csump \<or> csump + 8 \<le> 4 * i"
  shows "csum_loop bs csump (length bs) i lo hi = seq_loop (drop i (words32 bs)) lo hi"
  using at
proof (induction "length bs - 4 * i" arbitrary: i lo hi rule: less_induct)
  case less
  note rec = csum_loop.simps [of bs csump "length bs" i lo hi]
  consider "length bs \<le> 4 * i" | "4 * i < length bs" "4 * i = csump" | "4 * i < length bs" "4 * i \<noteq> csump"
    by linarith
  then show ?case
  proof cases
    case 1
    then show ?thesis by (simp add: rec words32_def)
  next
    case 2
    then have "csum_loop bs csump (length bs) (i + 2) lo h = seq_loop (drop (i + 2) (words32 bs)) lo h" for h
      by (intro less.hyps) auto
    moreover have "word32_at bs i = 0" "word32_at bs (Suc i) = 0"
      using 2 len by (auto intro!: word32_at_zeros zero)
    moreover have "drop i (words32 bs) = word32_at bs i # word32_at bs (Suc i) # drop (i + 2) (words32 bs)"
      using 2 len by (simp add: drop_words32)
    ultimately show ?thesis using 2 by (simp add: rec)
  next
    case 3
    then have "csum_loop bs csump (length bs) (i + 1) l h = seq_loop (drop (Suc i) (words32 bs)) l h" for l h
      using less.prems len(2) by (subst less.hyps) auto
    with 3 show ?thesis using len(1) by (simp add: rec drop_words32)
  qed
qed

lemma words32_append:
  assumes "length as mod 4 = 0"
  shows "words32 (as @ bs) = words32 as @ words32 bs"
proof (rule nth_equalityI)
  show len: "length (words32 (as @ bs)) = length (words32 as @ words32 bs)"
    using assms by (auto simp: words32_def)
  fix i
  assume i: "i < length (words32 (as @ bs))"
  show "words32 (as @ bs) ! i = (words32 as @ words32 bs) ! i"
  proof (cases "i < length as div 4")
    case True
    then have "4 * i + 4 \<le> length as" by linarith
    then have "take 4 (drop (4 * i) (as @ bs)) = take 4 (drop (4 * i) as)" by simp
    with True i show ?thesis by (simp add: words32_def nth_append word32_at_def)
  next
    case False
    with assms have "drop (4 * i) (as @ bs) = drop (4 * (i - length as div 4)) bs"
      by (auto simp: drop_append diff_mult_distrib2)
    with False i len show ?thesis by (simp add: words32_def nth_append word32_at_def)
  qed
qed

section \<open>Inserting and verifying\<close>

lemma checksum_insert_ok:
  assumes "length bs mod 4 = 0" "csump mod 4 = 0" "csump + 8 \<le> length bs"
  obtains csum where "util_checksum bs csump True skip = Inr (True, put_bytes bs csump (le64 csum))"
    "util_checksum (put_bytes bs csump (le64 csum)) csump False skip = Inr (True, put_bytes bs csump (le64 csum))"
proof -
  obtain csum where c: "util_checksum_compute bs csump skip = Inr csum"
    using assms(1) by (simp add: util_checksum_compute_def)
  have "util_checksum_compute (put_bytes bs csump (le64 csum)) csump skip = Inr csum"
    using util_checksum_compute_put [OF assms, of "le64 csum"] c by simp
  moreover have "take 8 (drop csump (put_bytes bs csump (le64 csum))) = le64 csum"
    using take_drop_put_bytes [of csump "le64 csum" bs] assms(3) by simp
  ultimately show ?thesis by (intro that [of csum]) (simp_all add: util_checksum_def c)
qed

text \<open>
  C37: a buffer into which \<open>util_checksum\<close> inserted its checksum keeps its length and
  all bytes outside the checksum field, and verifies.
\<close>

theorem checksum_insert_verify:
  assumes "length bs mod 4 = 0" "csump mod 4 = 0" "csump + 8 \<le> length bs"
  shows "\<exists>bs'. util_checksum bs csump True skip_off = Inr (True, bs') \<and>
    util_checksum bs' csump False skip_off = Inr (True, bs') \<and> length bs' = length bs \<and>
    (\<forall>i. i < length bs \<and> (i < csump \<or> csump + 8 \<le> i) \<longrightarrow> bs' ! i = bs ! i)"
proof -
  obtain csum where c: "util_checksum bs csump True skip_off = Inr (True, put_bytes bs csump (le64 csum))"
    "util_checksum (put_bytes bs csump (le64 csum)) csump False skip_off = Inr (True, put_bytes bs csump (le64 csum))"
    by (rule checksum_insert_ok [OF assms, of skip_off])
  then show ?thesis
    using assms(3) nth_put_bytes_outside [of csump "le64 csum" bs]
    by (intro exI [of _ "put_bytes bs csump (le64 csum)"]) auto
qed

theorem checksum_insert_verify_witness:
  "\<exists>bs'. util_checksum (replicate 16 7) 8 True 0 = Inr (True, bs') \<and>
    util_checksum bs' 8 False 0 = Inr (True, bs') \<and> length bs' = 16"
  using checksum_insert_verify [of "replicate 16 7" 8 0] by auto

section \<open>Sequential checksums\<close>

lemma seq_append:
  assumes "length as mod 4 = 0"
  shows "util_checksum_seq (as @ bs) csum =
    (case util_checksum_seq as csum of Inl e \<Rightarrow> Inl e | Inr c \<Rightarrow> util_checksum_seq bs c)"
proof -
  have "(length as + length bs) mod 4 = length bs mod 4" using assms by presburger
  then show ?thesis
    using assms
    by (auto simp: util_checksum_seq_def words32_append seq_loop_append split: prod.split)
qed

definition zero_field :: "byte list \<Rightarrow> nat \<Rightarrow> byte list" where
  "zero_field bs csump = put_bytes bs csump (replicate 8 0)"

lemma nth_put_bytes_inside:
  "csump + length new \<le> length bs \<Longrightarrow> csump \<le> k \<Longrightarrow> k < csump + length new \<Longrightarrow>
   put_bytes bs csump new ! k = new ! (k - csump)"
  by (auto simp: put_bytes_def nth_append min_def)

lemma compute_seq:
  assumes "length bs mod 4 = 0" "csump mod 4 = 0" "csump + 8 \<le> length bs"
  shows "util_checksum_compute bs csump 0 = util_checksum_seq (zero_field bs csump) 0"
proof -
  have "csum_loop (zero_field bs csump) csump (length (zero_field bs csump)) 0 0 0 =
      seq_loop (drop 0 (words32 (zero_field bs csump))) 0 0"
    using assms by (intro csum_loop_seq) (auto simp: zero_field_def nth_put_bytes_inside)
  moreover have "util_checksum_compute bs csump 0 = util_checksum_compute (zero_field bs csump) csump 0"
    unfolding zero_field_def by (rule util_checksum_compute_put [OF assms, symmetric]) simp
  ultimately show ?thesis
    using assms by (simp add: util_checksum_compute_def util_checksum_seq_def csum_unpack_def zero_field_def)
qed

text \<open>
  C39: without a skipped tail, the checksum with the field treated as zeros is the plain
  sequential checksum of the buffer with the field zeroed.
\<close>

theorem checksum_compute_seq:
  assumes "length bs mod 4 = 0" "csump mod 4 = 0" "csump + 8 \<le> length bs"
  shows "util_checksum_compute bs csump 0 = util_checksum_seq (zero_field bs csump) 0"
  by (rule compute_seq [OF assms])

theorem checksum_compute_seq_witness:
  "util_checksum_compute (replicate 16 3) 8 0 = util_checksum_seq (zero_field (replicate 16 3) 8) 0"
  by (rule checksum_compute_seq) simp_all

text \<open>The low half of the checksum is the sum of the words that are not stepped over.\<close>

definition summed_words :: "byte list \<Rightarrow> nat \<Rightarrow> nat \<Rightarrow> nat \<Rightarrow> nat set" where
  "summed_words bs csump skip i =
     {j. i \<le> j \<and> 4 * j < length bs \<and> 4 * j < skip \<and> 4 * j \<noteq> csump \<and> 4 * j \<noteq> csump + 4}"

lemma finite_summed_words: "finite (summed_words bs csump skip i)"
  by (rule finite_subset [of _ "{..<length bs}"]) (auto simp: summed_words_def)

lemma csum_loop_fst:
  assumes "csump mod 4 = 0" "4 * i \<noteq> csump + 4"
  shows "fst (csum_loop bs csump skip i lo hi) = lo + (\<Sum>j \<in> summed_words bs csump skip i. word32_at bs j)"
  using assms
proof (induction bs csump skip i lo hi rule: csum_loop.induct)
  case (1 bs csump skip i lo hi)
  note rec = csum_loop.simps [of bs csump skip i lo hi]
  consider "length bs \<le> 4 * i" | "4 * i < length bs" "skip \<le> 4 * i" | "4 * i < length bs" "4 * i = csump" "4 * i < skip"
    | "4 * i < length bs" "4 * i \<noteq> csump" "4 * i < skip"
    by linarith
  then show ?case
  proof cases
    case 1
    then have "summed_words bs csump skip i = {}" by (auto simp: summed_words_def)
    with 1 show ?thesis by (simp add: rec)
  next
    case 2
    have e: "summed_words bs csump skip j = {}" if "i \<le> j" for j using 2 that by (auto simp: summed_words_def)
    have "fst (csum_loop bs csump skip j l h) = l" if "i \<le> j" for j l h
      using that
    proof (induction "length bs - 4 * j" arbitrary: j h rule: less_induct)
      case less
      then show ?case using 2(2) by (subst csum_loop.simps) auto
    qed
    then show ?thesis by (simp add: e)
  next
    case 3
    have "summed_words bs csump skip (i + 2) = summed_words bs csump skip i"
      using 3(2) by (auto simp: summed_words_def)
    then show ?thesis using 3 1(1) 1(3) by (simp add: rec)
  next
    case 4
    have "summed_words bs csump skip i = insert i (summed_words bs csump skip (i + 1))"
      using 4 1(4) by (auto simp: summed_words_def Suc_le_eq le_less)
    moreover have "i \<notin> summed_words bs csump skip (i + 1)" by (simp add: summed_words_def)
    ultimately have s: "(\<Sum>j \<in> summed_words bs csump skip i. word32_at bs j) =
        word32_at bs i + (\<Sum>j \<in> summed_words bs csump skip (i + 1). word32_at bs j)"
      by (simp add: finite_summed_words)
    have "4 * (i + 1) \<noteq> csump + 4" using 4(2) by simp
    then show ?thesis using 4 1(2,3) s by (simp add: rec add.assoc)
  qed
qed

text \<open>
  C38: What the checksum detects.  If two buffers differ in a single 32-bit word outside the
  checksum field, their checksums differ if and only if the word is covered: nothing is
  skipped, or the word lies before \<open>skip_off\<close>.  A change in the skipped tail never changes the
  checksum.
\<close>

theorem checksum_detects_word:
  assumes len: "length as = length bs" "length bs mod 4 = 0" "csump mod 4 = 0" "csump + 8 \<le> length bs"
    and i: "4 * i < length bs" "4 * i + 4 \<le> csump \<or> csump + 8 \<le> 4 * i"
    and eq: "\<forall>k. k < length bs \<longrightarrow> k div 4 \<noteq> i \<longrightarrow> as ! k = bs ! k"
    and ne: "word32_at as i \<noteq> word32_at bs i"
  shows "util_checksum_compute as csump skip_off \<noteq> util_checksum_compute bs csump skip_off \<longleftrightarrow>
    skip_off = 0 \<or> 4 * i < skip_off"
proof -
  define skip where "skip = (if skip_off \<noteq> 0 then skip_off else length bs)"
  have c: "util_checksum_compute as csump skip_off = util_checksum_compute bs csump skip_off \<longleftrightarrow>
      csum_loop as csump skip 0 0 0 = csum_loop bs csump skip 0 0 0"
    using len(1,2) by (simp add: util_checksum_compute_def csum_pack_inject skip_def)
  have covered: "skip_off = 0 \<or> 4 * i < skip_off \<longleftrightarrow> 4 * i < skip" using i(1) by (simp add: skip_def)
  show ?thesis
  proof (cases "4 * i < skip")
    case True
    let ?S = "summed_words bs csump skip 0"
    have S: "summed_words as csump skip 0 = ?S" "i \<in> ?S" using len(1) i True by (auto simp: summed_words_def)
    have w: "word32_at as j = word32_at bs j" if "j \<in> ?S - {i}" for j
    proof (rule word32_at_cong [OF len(1)])
      show "4 * j + 4 \<le> length bs" using that len(2) by (auto simp: summed_words_def)
      fix k :: nat
      assume "k < 4"
      then have "4 * j + k < length bs" "(4 * j + k) div 4 = j"
        using that len(2) by (auto simp: summed_words_def)
      then show "as ! (4 * j + k) = bs ! (4 * j + k)" using eq that by simp
    qed
    have "(\<Sum>j \<in> ?S. word32_at as j) \<noteq> (\<Sum>j \<in> ?S. word32_at bs j)"
      using ne w by (simp add: sum.remove [OF finite_summed_words S(2)])
    then have "fst (csum_loop as csump skip 0 0 0) \<noteq> fst (csum_loop bs csump skip 0 0 0)"
      using len(3) S(1) by (simp add: csum_loop_fst)
    then show ?thesis using c covered True by auto
  next
    case False
    have "csum_loop as csump skip 0 0 0 = csum_loop bs csump skip 0 0 0"
      by (rule csum_loop_cong [OF len(1-3)]) (use eq False in auto)
    then show ?thesis using c covered False by simp
  qed
qed

theorem checksum_detects_word_witness:
  "util_checksum_compute ([1, 0, 0, 0] @ replicate 8 0) 4 0 \<noteq> util_checksum_compute ([2, 0, 0, 0] @ replicate 8 0) 4 0 \<and>
   util_checksum_compute (replicate 12 0 @ [1, 0, 0, 0]) 4 12 = util_checksum_compute (replicate 12 0 @ [2, 0, 0, 0]) 4 12"
proof
  have e: "\<forall>k. k < length ([2, 0, 0, 0] @ replicate 8 0 :: byte list) \<longrightarrow> k div 4 \<noteq> 0 \<longrightarrow>
      ([1, 0, 0, 0] @ replicate 8 0 :: byte list) ! k = ([2, 0, 0, 0] @ replicate 8 0) ! k"
    by (auto simp: nth_Cons nth_append split: nat.split)
  have n: "word32_at ([1, 0, 0, 0] @ replicate 8 0) 0 \<noteq> word32_at ([2, 0, 0, 0] @ replicate 8 0) 0"
    by (simp add: word32_at_def unle32_def)
  show "util_checksum_compute ([1, 0, 0, 0] @ replicate 8 0) 4 0 \<noteq> util_checksum_compute ([2, 0, 0, 0] @ replicate 8 0) 4 0"
    using checksum_detects_word [OF _ _ _ _ _ _ e n, of 4 0] by simp
  have e: "\<forall>k. k < length (replicate 12 0 @ [2, 0, 0, 0] :: byte list) \<longrightarrow> k div 4 \<noteq> 3 \<longrightarrow>
      (replicate 12 0 @ [1, 0, 0, 0] :: byte list) ! k = (replicate 12 0 @ [2, 0, 0, 0]) ! k"
    by (auto simp: nth_Cons nth_append split: nat.split)
  have n: "word32_at (replicate 12 0 @ [1, 0, 0, 0]) 3 \<noteq> word32_at (replicate 12 0 @ [2, 0, 0, 0]) 3"
    by (simp add: word32_at_def unle32_def)
  show "util_checksum_compute (replicate 12 0 @ [1, 0, 0, 0]) 4 12 = util_checksum_compute (replicate 12 0 @ [2, 0, 0, 0]) 4 12"
    using checksum_detects_word [OF _ _ _ _ _ _ e n, of 4 12] by simp
qed

end
