(* ===== verification/Btt_Layout.thy ===== *)
theory Btt_Layout
  imports Checksum
begin

text \<open>
  On-media layout of a BTT arena (libpmemblk/btt_layout.h) and the size and
  offset calculations of libpmemblk/btt.c.  All C integers keep their width:
  the 32-bit products of the source wrap in the model exactly where they would
  wrap in the code.  ASSERT is a no-op, as in a release build, and the host is
  little-endian, so an le32toh conversion is the decoding of the bytes read.
\<close>

section \<open>Constants\<close>

definition BTT_ALIGNMENT :: u64 where "BTT_ALIGNMENT = 4096"
definition BTTINFO_SIG_LEN :: nat where "BTTINFO_SIG_LEN = 16"
definition BTTINFO_UUID_LEN :: nat where "BTTINFO_UUID_LEN = 16"
definition BTTINFO_UNUSED_LEN :: nat where "BTTINFO_UNUSED_LEN = 3968"
definition BTTINFO_FLAG_ERROR :: u32 where "BTTINFO_FLAG_ERROR = 1"
definition BTTINFO_FLAG_ERROR_MASK :: u32 where "BTTINFO_FLAG_ERROR_MASK = 1"
definition BTTINFO_MAJOR_VERSION :: u16 where "BTTINFO_MAJOR_VERSION = 1"
definition BTTINFO_MINOR_VERSION :: u16 where "BTTINFO_MINOR_VERSION = 1"
definition BTT_FLOG_PAIR_ALIGN :: u64 where "BTT_FLOG_PAIR_ALIGN = 64"
definition BTT_MAP_ENTRY_SIZE :: u32 where "BTT_MAP_ENTRY_SIZE = 4"
definition BTT_MAP_ENTRY_ERROR :: u32 where "BTT_MAP_ENTRY_ERROR = 0x40000000"
definition BTT_MAP_ENTRY_ZERO :: u32 where "BTT_MAP_ENTRY_ZERO = 0x80000000"
definition BTT_MAP_ENTRY_NORMAL :: u32 where "BTT_MAP_ENTRY_NORMAL = 0xC0000000"
definition BTT_MAP_ENTRY_LBA_MASK :: u32 where "BTT_MAP_ENTRY_LBA_MASK = 0x3fffffff"
definition BTT_MAP_LOCK_ALIGN :: u64 where "BTT_MAP_LOCK_ALIGN = 64"
definition BTT_MIN_SIZE :: u64 where "BTT_MIN_SIZE = 16777216"
definition BTT_MAX_ARENA :: u64 where "BTT_MAX_ARENA = 549755813888"
definition BTT_MIN_LBA_SIZE :: u32 where "BTT_MIN_LBA_SIZE = 512"
definition BTT_INTERNAL_LBA_ALIGNMENT :: u32 where "BTT_INTERNAL_LBA_ALIGNMENT = 256"
definition BTT_DEFAULT_NFREE :: u32 where "BTT_DEFAULT_NFREE = 256"

text \<open>sizeof(struct btt_info) and sizeof(struct btt_flog).\<close>

definition sizeof_btt_info :: u64 where "sizeof_btt_info = 4096"
definition sizeof_btt_flog :: u64 where "sizeof_btt_flog = 16"

text \<open>
  The 16 signature bytes: \<open>BTT_ARENA_INFO\<close> and two zero bytes.
\<close>

definition Sig :: "byte list" where
  "Sig = [0x42, 0x54, 0x54, 0x5F, 0x41, 0x52, 0x45, 0x4E, 0x41, 0x5F, 0x49, 0x4E, 0x46, 0x4F, 0, 0]"

section \<open>The info block\<close>

record btt_info =
  i_sig :: "byte list"
  i_uuid :: "byte list"
  i_parent_uuid :: "byte list"
  i_flags :: u32
  i_major :: u16
  i_minor :: u16
  i_external_lbasize :: u32
  i_external_nlba :: u32
  i_internal_lbasize :: u32
  i_internal_nlba :: u32
  i_nfree :: u32
  i_infosize :: u32
  i_nextoff :: u64
  i_dataoff :: u64
  i_mapoff :: u64
  i_flogoff :: u64
  i_infooff :: u64
  i_unused :: "byte list"
  i_checksum :: u64

text \<open>
  The bytes of an info block: every integer little-endian
  (\<open>btt_info_convert2le\<close> followed by a write of the structure).
\<close>

definition btt_info_convert2le :: "btt_info \<Rightarrow> byte list" where
  "btt_info_convert2le i =
     i_sig i @ i_uuid i @ i_parent_uuid i @ le32 (i_flags i) @ le16 (i_major i) @
     le16 (i_minor i) @ le32 (i_external_lbasize i) @ le32 (i_external_nlba i) @
     le32 (i_internal_lbasize i) @ le32 (i_internal_nlba i) @ le32 (i_nfree i) @
     le32 (i_infosize i) @ le64 (i_nextoff i) @ le64 (i_dataoff i) @ le64 (i_mapoff i) @
     le64 (i_flogoff i) @ le64 (i_infooff i) @ i_unused i @ le64 (i_checksum i)"

definition field :: "byte list \<Rightarrow> nat \<Rightarrow> nat \<Rightarrow> byte list" where
  "field bs off n = take n (drop off bs)"

definition btt_info_convert2h :: "byte list \<Rightarrow> btt_info" where
  "btt_info_convert2h bs =
     \<lparr> i_sig = field bs 0 16, i_uuid = field bs 16 16, i_parent_uuid = field bs 32 16,
       i_flags = unle32 (field bs 48 4), i_major = unle16 (field bs 52 2),
       i_minor = unle16 (field bs 54 2), i_external_lbasize = unle32 (field bs 56 4),
       i_external_nlba = unle32 (field bs 60 4), i_internal_lbasize = unle32 (field bs 64 4),
       i_internal_nlba = unle32 (field bs 68 4), i_nfree = unle32 (field bs 72 4),
       i_infosize = unle32 (field bs 76 4), i_nextoff = unle64 (field bs 80 8),
       i_dataoff = unle64 (field bs 88 8), i_mapoff = unle64 (field bs 96 8),
       i_flogoff = unle64 (field bs 104 8), i_infooff = unle64 (field bs 112 8),
       i_unused = field bs 120 3968, i_checksum = unle64 (field bs 4088 8) \<rparr>"

definition checksum_off :: nat where "checksum_off = 4088"

text \<open>A zeroed info structure (memset).\<close>

definition zero_info :: btt_info where
  "zero_info =
     \<lparr> i_sig = replicate 16 0, i_uuid = replicate 16 0, i_parent_uuid = replicate 16 0,
       i_flags = 0, i_major = 0, i_minor = 0, i_external_lbasize = 0, i_external_nlba = 0,
       i_internal_lbasize = 0, i_internal_nlba = 0, i_nfree = 0, i_infosize = 0,
       i_nextoff = 0, i_dataoff = 0, i_mapoff = 0, i_flogoff = 0, i_infooff = 0,
       i_unused = replicate 3968 0, i_checksum = 0 \<rparr>"

text \<open>
  \<open>read_info\<close>: validate a block just read and convert it to host order.  The
  parent UUID is the one of the BTT handle.
\<close>

definition read_info :: "byte list \<Rightarrow> byte list \<Rightarrow> btt_info option" where
  "read_info parent_uuid bs =
     (if field bs 0 BTTINFO_SIG_LEN \<noteq> Sig then None
      else if field bs 32 BTTINFO_UUID_LEN \<noteq> parent_uuid then None
      else (case util_checksum bs checksum_off False 0 of
              Inl e \<Rightarrow> None
            | Inr (ok, bs') \<Rightarrow>
                (if \<not> ok then None
                 else if unle16 (field bs 52 2) = 0 then None
                 else Some (btt_info_convert2h bs))))"

section \<open>Sizes and offsets\<close>

definition internal_lbasize :: "u32 \<Rightarrow> u32" where
  "internal_lbasize external_lbasize =
     (let l = (if external_lbasize < BTT_MIN_LBA_SIZE then BTT_MIN_LBA_SIZE else external_lbasize);
          r = roundup32 l BTT_INTERNAL_LBA_ALIGNMENT
      in if r < BTT_INTERNAL_LBA_ALIGNMENT then 0 else r)"

definition btt_flog_size :: "u32 \<Rightarrow> u64" where
  "btt_flog_size nfree =
     roundup64 (ucast nfree * roundup64 (2 * sizeof_btt_flog) BTT_FLOG_PAIR_ALIGN) BTT_ALIGNMENT"

definition btt_map_size :: "u32 \<Rightarrow> u64" where
  "btt_map_size external_nlba = roundup64 (ucast (external_nlba * BTT_MAP_ENTRY_SIZE)) BTT_ALIGNMENT"

definition btt_arena_datasize :: "u64 \<Rightarrow> u32 \<Rightarrow> u64" where
  "btt_arena_datasize arena_size nfree = arena_size - 2 * sizeof_btt_info - btt_flog_size nfree"

definition btt_info_set_params ::
  "btt_info \<Rightarrow> u32 \<Rightarrow> u32 \<Rightarrow> u32 \<Rightarrow> u64 \<Rightarrow> err + btt_info" where
  "btt_info_set_params info external_lbasize internal_lbsize nfree arena_size =
     (let info1 = info\<lparr>i_external_lbasize := external_lbasize,
                       i_internal_lbasize := internal_lbsize,
                       i_nfree := nfree, i_infosize := 4096\<rparr>;
          arena_data_size = btt_arena_datasize arena_size nfree;
          internal_nlba = (arena_data_size - BTT_ALIGNMENT) div
                            ucast (i_internal_lbasize info1 + BTT_MAP_ENTRY_SIZE)
      in if internal_nlba < ucast (2 * nfree) then Inl EINVAL
         else (let internal_nlba_u32 = ucast internal_nlba
               in Inr (info1\<lparr>i_internal_nlba := internal_nlba_u32,
                             i_external_nlba := internal_nlba_u32 - i_nfree info1\<rparr>)))"

definition btt_info_set_offs :: "btt_info \<Rightarrow> u64 \<Rightarrow> u64 \<Rightarrow> btt_info" where
  "btt_info_set_offs info arena_size space_left =
     (let infooff = arena_size - sizeof_btt_info;
          flogoff = infooff - btt_flog_size (i_nfree info);
          mapoff = flogoff - btt_map_size (i_external_nlba info)
      in info\<lparr>i_dataoff := ucast (i_infosize info),
              i_nextoff := (if space_left \<ge> BTT_MIN_SIZE then arena_size else 0),
              i_infooff := infooff, i_flogoff := flogoff, i_mapoff := mapoff\<rparr>)"

definition btt_info_set :: "btt_info \<Rightarrow> u32 \<Rightarrow> u32 \<Rightarrow> u64 \<Rightarrow> u64 \<Rightarrow> err + btt_info" where
  "btt_info_set info external_lbasize nfree arena_size space_left =
     (let l = internal_lbasize external_lbasize
      in if l = 0 then Inl EINVAL
         else (case btt_info_set_params info external_lbasize l nfree arena_size of
                 Inl e \<Rightarrow> Inl e
               | Inr info' \<Rightarrow> Inr (btt_info_set_offs info' arena_size space_left)))"

section \<open>Map entries\<close>

definition map_entry_is_zero :: "u32 \<Rightarrow> bool" where
  "map_entry_is_zero e \<longleftrightarrow> (e AND NOT BTT_MAP_ENTRY_LBA_MASK) = BTT_MAP_ENTRY_ZERO"

definition map_entry_is_error :: "u32 \<Rightarrow> bool" where
  "map_entry_is_error e \<longleftrightarrow> (e AND NOT BTT_MAP_ENTRY_LBA_MASK) = BTT_MAP_ENTRY_ERROR"

definition map_entry_is_initial :: "u32 \<Rightarrow> bool" where
  "map_entry_is_initial e \<longleftrightarrow> (e AND NOT BTT_MAP_ENTRY_LBA_MASK) = 0"

definition map_entry_is_zero_or_initial :: "u32 \<Rightarrow> bool" where
  "map_entry_is_zero_or_initial e \<longleftrightarrow>
     (let entry_flags = e AND NOT BTT_MAP_ENTRY_LBA_MASK
      in entry_flags = 0 \<or> entry_flags = BTT_MAP_ENTRY_ZERO)"

section \<open>The flog\<close>

record btt_flog =
  flog_lba :: u32
  flog_old_map :: u32
  flog_new_map :: u32
  flog_seq :: u32

definition btt_flog_convert2le :: "btt_flog \<Rightarrow> byte list" where
  "btt_flog_convert2le f =
     le32 (flog_lba f) @ le32 (flog_old_map f) @ le32 (flog_new_map f) @ le32 (flog_seq f)"

definition btt_flog_convert2h :: "byte list \<Rightarrow> btt_flog" where
  "btt_flog_convert2h bs =
     \<lparr> flog_lba = unle32 (field bs 0 4), flog_old_map = unle32 (field bs 4 4),
       flog_new_map = unle32 (field bs 8 4), flog_seq = unle32 (field bs 12 4) \<rparr>"

definition Zflog :: btt_flog where
  "Zflog = \<lparr> flog_lba = 0, flog_old_map = 0, flog_new_map = 0, flog_seq = 0 \<rparr>"

definition Nseq :: "u32 list" where "Nseq = [0, 2, 3, 1]"

definition NSEQ :: "u32 \<Rightarrow> u32" where
  "NSEQ s = Nseq ! unat (s AND 3)"

text \<open>
  The valid and current entry of a flog pair, with the index \<open>next\<close> of the entry
  to write next.
\<close>

definition btt_flog_get_valid :: "btt_flog \<Rightarrow> btt_flog \<Rightarrow> (btt_flog \<times> nat) option" where
  "btt_flog_get_valid f0 f1 =
     (if flog_seq f0 = flog_seq f1 then None
      else if flog_seq f0 = 0 then Some (f1, 0)
      else if flog_seq f1 = 0 then Some (f0, 1)
      else if NSEQ (flog_seq f0) = flog_seq f1 then Some (f1, 0)
      else Some (f0, 1))"

section \<open>Lemmas on the encodings\<close>

lemmas btt_const_defs = BTT_ALIGNMENT_def BTTINFO_SIG_LEN_def BTTINFO_UUID_LEN_def
  BTTINFO_UNUSED_LEN_def BTTINFO_FLAG_ERROR_def BTTINFO_FLAG_ERROR_MASK_def
  BTTINFO_MAJOR_VERSION_def BTTINFO_MINOR_VERSION_def BTT_FLOG_PAIR_ALIGN_def
  BTT_MAP_ENTRY_SIZE_def BTT_MAP_ENTRY_ERROR_def BTT_MAP_ENTRY_ZERO_def
  BTT_MAP_ENTRY_NORMAL_def BTT_MAP_ENTRY_LBA_MASK_def BTT_MAP_LOCK_ALIGN_def
  BTT_MIN_SIZE_def BTT_MAX_ARENA_def BTT_MIN_LBA_SIZE_def BTT_INTERNAL_LBA_ALIGNMENT_def
  BTT_DEFAULT_NFREE_def sizeof_btt_info_def sizeof_btt_flog_def

definition info_wf :: "btt_info \<Rightarrow> bool" where
  "info_wf i \<longleftrightarrow> length (i_sig i) = 16 \<and> length (i_uuid i) = 16 \<and>
     length (i_parent_uuid i) = 16 \<and> length (i_unused i) = 3968"

lemma length_info_bytes: "info_wf i \<Longrightarrow> length (btt_info_convert2le i) = 4096"
  by (simp add: btt_info_convert2le_def info_wf_def)

lemma length_flog_bytes [simp]: "length (btt_flog_convert2le f) = 16"
  by (simp add: btt_flog_convert2le_def)

lemma field_append_right: "length xs = k \<Longrightarrow> k \<le> off \<Longrightarrow> field (xs @ ys) off n = field ys (off - k) n"
  by (simp add: field_def)

lemma field_append_left: "length xs = n \<Longrightarrow> field (xs @ ys) 0 n = xs"
  by (simp add: field_def)

lemma field_exact: "length xs = n \<Longrightarrow> field xs 0 n = xs"
  by (simp add: field_def)

lemma length_field: "off + n \<le> length bs \<Longrightarrow> length (field bs off n) = n"
  by (simp add: field_def)

lemma flog_h_le [simp]: "btt_flog_convert2h (btt_flog_convert2le f) = f"
  by (simp add: btt_flog_convert2h_def btt_flog_convert2le_def field_append_right
      field_append_left field_exact)

section \<open>Round trips of the info block\<close>

lemma info_h_le:
  assumes "info_wf i"
  shows "btt_info_convert2h (btt_info_convert2le i) = i"
proof -
  have l: "length (i_sig i) = 16" "length (i_uuid i) = 16" "length (i_parent_uuid i) = 16" "length (i_unused i) = 3968"
    using assms by (simp_all add: info_wf_def)
  show ?thesis
    unfolding btt_info_convert2h_def btt_info_convert2le_def
    by (rule btt_info.equality)
      (simp_all add: field_append_right field_append_left field_exact l)
qed

lemma info_put_checksum:
  assumes "info_wf i"
  shows "put_bytes (btt_info_convert2le i) checksum_off (le64 c) = btt_info_convert2le (i\<lparr>i_checksum := c\<rparr>)"
proof -
  define pre where "pre = i_sig i @ i_uuid i @ i_parent_uuid i @ le32 (i_flags i) @ le16 (i_major i) @
     le16 (i_minor i) @ le32 (i_external_lbasize i) @ le32 (i_external_nlba i) @
     le32 (i_internal_lbasize i) @ le32 (i_internal_nlba i) @ le32 (i_nfree i) @
     le32 (i_infosize i) @ le64 (i_nextoff i) @ le64 (i_dataoff i) @ le64 (i_mapoff i) @
     le64 (i_flogoff i) @ le64 (i_infooff i) @ i_unused i"
  have "btt_info_convert2le i = pre @ le64 (i_checksum i)"
    "btt_info_convert2le (i\<lparr>i_checksum := c\<rparr>) = pre @ le64 c"
    by (simp_all add: btt_info_convert2le_def pre_def)
  moreover have "length pre = 4088" using assms by (simp add: pre_def info_wf_def)
  ultimately show ?thesis by (simp add: put_bytes_def checksum_off_def)
qed

text \<open>An info block with its checksum, as \<open>write_layout\<close> and \<open>arena_setf\<close> write it, is valid when read.\<close>

lemma read_info_valid:
  assumes wf: "info_wf i" and sig: "i_sig i = Sig" and puuid: "i_parent_uuid i = puuid" and major: "i_major i \<noteq> 0"
  obtains c where
    "util_checksum (btt_info_convert2le i) checksum_off True 0 = Inr (True, btt_info_convert2le (i\<lparr>i_checksum := c\<rparr>))"
    "read_info puuid (btt_info_convert2le (i\<lparr>i_checksum := c\<rparr>)) = Some (i\<lparr>i_checksum := c\<rparr>)"
proof -
  have len: "length (btt_info_convert2le i) mod 4 = 0" "checksum_off mod 4 = 0" "checksum_off + 8 \<le> length (btt_info_convert2le i)"
    by (simp_all add: length_info_bytes [OF wf] checksum_off_def)
  obtain c where c: "util_checksum (btt_info_convert2le i) checksum_off True 0 =
      Inr (True, put_bytes (btt_info_convert2le i) checksum_off (le64 c))"
    "util_checksum (put_bytes (btt_info_convert2le i) checksum_off (le64 c)) checksum_off False 0 =
      Inr (True, put_bytes (btt_info_convert2le i) checksum_off (le64 c))"
    by (rule checksum_insert_ok [OF len, of 0])
  let ?j = "i\<lparr>i_checksum := c\<rparr>"
  have h: "btt_info_convert2h (btt_info_convert2le ?j) = ?j"
    by (rule info_h_le) (use wf in \<open>simp add: info_wf_def\<close>)
  have "field (btt_info_convert2le ?j) 0 16 = i_sig i" "field (btt_info_convert2le ?j) 32 16 = i_parent_uuid i"
    "unle16 (field (btt_info_convert2le ?j) 52 2) = i_major i"
    using arg_cong [OF h, of i_sig] arg_cong [OF h, of i_parent_uuid] arg_cong [OF h, of i_major]
    by (simp_all add: btt_info_convert2h_def)
  then have "read_info puuid (btt_info_convert2le ?j) = Some ?j"
    using c(2) h sig puuid major
    by (simp add: read_info_def info_put_checksum [OF wf] BTTINFO_SIG_LEN_def BTTINFO_UUID_LEN_def)
  with c(1) show ?thesis by (intro that [of c]) (simp_all add: info_put_checksum [OF wf])
qed

end
