(* ===== verification/Btt.thy ===== *)
theory Btt
  imports Btt_Layout
begin

text \<open>
  The block translation table of libpmemblk/btt.c: run-time state, the
  namespace callbacks, loading of a layout with flog recovery, reads, writes,
  map entry flags and the consistency check.

  An operation takes the BTT handle and the namespace state \<open>'s\<close> and returns
  its result (\<open>Inl\<close> is \<open>-1\<close> with that errno) together with the new handle and
  namespace.  A pointer to an arena is an index into the handle's arena list.
  DRAM allocation is taken to succeed.  Calls run one at a time, so mutexes
  never block: the map locks are kept as flags, which shows that every path
  drops the lock it took.  A read looks at the namespace several times while
  other lanes may write; \<open>btt_read\<close> therefore takes the list of namespace
  states that its successive accesses see.
\<close>

section \<open>Namespace callbacks and run-time state\<close>

record 's ns_callback =
  nsread :: "'s \<Rightarrow> nat \<Rightarrow> nat \<Rightarrow> u64 \<Rightarrow> err + byte list"
  nswrite :: "'s \<Rightarrow> nat \<Rightarrow> byte list \<Rightarrow> u64 \<Rightarrow> (err + unit) \<times> 's"
  nszero :: "'s \<Rightarrow> nat \<Rightarrow> u64 \<Rightarrow> u64 \<Rightarrow> (err + unit) \<times> 's"
  nsmap :: "'s \<Rightarrow> nat \<Rightarrow> nat \<Rightarrow> u64 \<Rightarrow> err + byte list"
  ns_is_zeroed :: bool

record flog_runtime =
  rt_flog :: btt_flog
  rt_entries :: "u64 list"
  rt_next :: nat

record arena =
  a_flags :: u32
  a_external_nlba :: u32
  a_internal_lbasize :: u32
  a_internal_nlba :: u32
  a_startoff :: u64
  a_dataoff :: u64
  a_mapoff :: u64
  a_flogoff :: u64
  a_nextoff :: u64
  a_flogs :: "flog_runtime list"
  a_rtt :: "u32 list"
  a_map_locks :: "bool list"

record btt =
  b_nlane :: u32
  b_laidout :: bool
  b_uuid :: "byte list"
  b_parent_uuid :: "byte list"
  b_rawsize :: u64
  b_lbasize :: u32
  b_nfree :: u32
  b_nlba :: u64
  b_narena :: nat
  b_arenas :: "arena list"

definition zero_runtime :: flog_runtime where
  "zero_runtime = \<lparr> rt_flog = Zflog, rt_entries = [0, 0], rt_next = 0 \<rparr>"

definition zero_arena :: arena where
  "zero_arena = \<lparr> a_flags = 0, a_external_nlba = 0, a_internal_lbasize = 0, a_internal_nlba = 0,
     a_startoff = 0, a_dataoff = 0, a_mapoff = 0, a_flogoff = 0, a_nextoff = 0,
     a_flogs = [], a_rtt = [], a_map_locks = [] \<rparr>"

definition get_map_lock_num :: "u32 \<Rightarrow> u32 \<Rightarrow> nat" where
  "get_map_lock_num premap_lba nfree =
     unat ((ucast ((ucast (premap_lba * BTT_MAP_ENTRY_SIZE) :: u64) div BTT_MAP_LOCK_ALIGN) :: u32) mod nfree)"

definition invalid_lba :: "btt \<Rightarrow> u64 \<Rightarrow> bool" where
  "invalid_lba b lba \<longleftrightarrow> lba \<ge> b_nlba b"

definition map_entry_off :: "arena \<Rightarrow> u32 \<Rightarrow> u64" where
  "map_entry_off a premap_lba = a_mapoff a + ucast (BTT_MAP_ENTRY_SIZE * premap_lba)"

definition data_block_off :: "arena \<Rightarrow> u32 \<Rightarrow> u64" where
  "data_block_off a entry =
     a_dataoff a + ucast (entry AND BTT_MAP_ENTRY_LBA_MASK) * ucast (a_internal_lbasize a)"

section \<open>Loading flogs and recovery\<close>

text \<open>
  \<open>read_flog_pair\<close>: load one flog pair and, if its last operation did not reach
  the map, complete it.
\<close>

definition recover_map_entry ::
  "'s ns_callback \<Rightarrow> nat \<Rightarrow> arena \<Rightarrow> 's \<Rightarrow> btt_flog \<Rightarrow> (err + unit) \<times> 's" where
  "recover_map_entry cb lane a s cur =
     (if flog_old_map cur = flog_new_map cur then (Inr (), s)
      else (case nsread cb s lane 4 (map_entry_off a (flog_lba cur)) of
              Inl e \<Rightarrow> (Inl e, s)
            | Inr bs \<Rightarrow>
                (let entry0 = unle32 bs;
                     entry = (if map_entry_is_initial entry0
                              then flog_lba cur OR BTT_MAP_ENTRY_NORMAL else entry0)
                 in if flog_new_map cur \<noteq> entry \<and> flog_old_map cur = entry
                    then nswrite cb s lane (le32 (flog_new_map cur)) (map_entry_off a (flog_lba cur))
                    else (Inr (), s))))"

definition read_flog_pair ::
  "'s ns_callback \<Rightarrow> btt \<Rightarrow> nat \<Rightarrow> arena \<Rightarrow> 's \<Rightarrow> u64 \<Rightarrow> (err + arena \<times> flog_runtime) \<times> 's" where
  "read_flog_pair cb b lane a s flog_off =
     (let rt = zero_runtime\<lparr>rt_entries := [flog_off, flog_off + sizeof_btt_flog]\<rparr>
      in if lane \<ge> unat (b_nfree b) then (Inl EINVAL, s)
         else if flog_off = 0 then (Inl EINVAL, s)
         else (case nsread cb s lane 32 flog_off of
                 Inl e \<Rightarrow> (Inl e, s)
               | Inr bs \<Rightarrow>
                   (let f0 = btt_flog_convert2h (field bs 0 16);
                        f1 = btt_flog_convert2h (field bs 16 16)
                    in if invalid_lba b (ucast (flog_lba f0)) then (Inl EINVAL, s)
                       else if invalid_lba b (ucast (flog_lba f1)) then (Inl EINVAL, s)
                       else (case btt_flog_get_valid f0 f1 of
                               None \<Rightarrow> (Inr (a\<lparr>a_flags := a_flags a OR BTTINFO_FLAG_ERROR\<rparr>, rt), s)
                             | Some (cur, nxt) \<Rightarrow>
                                 bind_io (recover_map_entry cb lane a s cur)
                                   (\<lambda>_ s'. (Inr (a, rt\<lparr>rt_next := nxt, rt_flog := cur\<rparr>), s'))))))"

text \<open>\<open>arena_setf\<close>: set a flag in the run-time state and in both info blocks.\<close>

definition arena_setf ::
  "'s ns_callback \<Rightarrow> bool \<Rightarrow> nat \<Rightarrow> arena \<Rightarrow> 's \<Rightarrow> u32 \<Rightarrow> (err + unit) \<times> arena \<times> 's" where
  "arena_setf cb laidout lane a s setf =
     (let a' = a\<lparr>a_flags := a_flags a OR setf\<rparr>
      in if \<not> laidout then (Inr (), a', s)
         else (case nsread cb s lane 4096 (a_startoff a) of
                 Inl e \<Rightarrow> (Inl e, a', s)
               | Inr bs \<Rightarrow>
                   (let info = btt_info_convert2h bs;
                        bs1 = btt_info_convert2le (info\<lparr>i_flags := i_flags info OR setf\<rparr>)
                    in case util_checksum bs1 checksum_off True 0 of
                         Inl e \<Rightarrow> (Inl e, a', s)
                       | Inr (_, bs2) \<Rightarrow>
                           (case nswrite cb s lane bs2 (a_startoff a) of
                              (Inl e, s1) \<Rightarrow> (Inl e, a', s1)
                            | (Inr _, s1) \<Rightarrow>
                                (case nswrite cb s1 lane bs2 (a_startoff a + i_infooff info) of
                                   (Inl e, s2) \<Rightarrow> (Inl e, a', s2)
                                 | (Inr _, s2) \<Rightarrow> (Inr (), a', s2))))))"

definition set_arena_error ::
  "'s ns_callback \<Rightarrow> bool \<Rightarrow> nat \<Rightarrow> arena \<Rightarrow> 's \<Rightarrow> (err + unit) \<times> arena \<times> 's" where
  "set_arena_error cb laidout lane a s = arena_setf cb laidout lane a s BTTINFO_FLAG_ERROR"

fun read_flogs_loop ::
  "'s ns_callback \<Rightarrow> btt \<Rightarrow> nat \<Rightarrow> nat \<Rightarrow> nat \<Rightarrow> u64 \<Rightarrow> arena \<Rightarrow> 's \<Rightarrow> (err + arena) \<times> 's" where
  "read_flogs_loop cb b lane 0 i flog_off a s = (Inr a, s)"
| "read_flogs_loop cb b lane (Suc n) i flog_off a s =
     (case read_flog_pair cb b lane a s flog_off of
        (Inl e, s1) \<Rightarrow>
          (case set_arena_error cb (b_laidout b) lane a s1 of
             (Inl e', _, s2) \<Rightarrow> (Inl e', s2)
           | (Inr _, _, s2) \<Rightarrow> (Inl e, s2))
      | (Inr (a1, rt), s1) \<Rightarrow>
          read_flogs_loop cb b lane n (Suc i)
            (flog_off + roundup64 (2 * sizeof_btt_flog) BTT_FLOG_PAIR_ALIGN)
            (a1\<lparr>a_flogs := (a_flogs a1)[i := rt]\<rparr>) s1)"

definition read_flogs :: "'s ns_callback \<Rightarrow> btt \<Rightarrow> nat \<Rightarrow> arena \<Rightarrow> 's \<Rightarrow> (err + arena) \<times> 's" where
  "read_flogs cb b lane a s =
     read_flogs_loop cb b lane (unat (b_nfree b)) 0 (a_flogoff a)
       (a\<lparr>a_flogs := replicate (unat (b_nfree b)) zero_runtime\<rparr>) s"

definition build_rtt :: "btt \<Rightarrow> arena \<Rightarrow> arena" where
  "build_rtt b a = a\<lparr>a_rtt := replicate (unat (b_nfree b)) BTT_MAP_ENTRY_ERROR\<rparr>"

definition build_map_locks :: "btt \<Rightarrow> arena \<Rightarrow> arena" where
  "build_map_locks b a = a\<lparr>a_map_locks := replicate (unat (b_nfree b)) False\<rparr>"

definition arena_of_info :: "u64 \<Rightarrow> btt_info \<Rightarrow> arena" where
  "arena_of_info arena_off info = zero_arena
     \<lparr> a_flags := i_flags info, a_external_nlba := i_external_nlba info,
       a_internal_lbasize := i_internal_lbasize info, a_internal_nlba := i_internal_nlba info,
       a_startoff := arena_off, a_dataoff := arena_off + i_dataoff info,
       a_mapoff := arena_off + i_mapoff info, a_flogoff := arena_off + i_flogoff info,
       a_nextoff := arena_off + i_nextoff info \<rparr>"

definition read_arena :: "'s ns_callback \<Rightarrow> btt \<Rightarrow> nat \<Rightarrow> u64 \<Rightarrow> 's \<Rightarrow> (err + arena) \<times> 's" where
  "read_arena cb b lane arena_off s =
     (case nsread cb s lane 4096 arena_off of
        Inl e \<Rightarrow> (Inl e, s)
      | Inr bs \<Rightarrow>
          bind_io (read_flogs cb b lane (arena_of_info arena_off (btt_info_convert2h bs)) s)
            (\<lambda>a s1. (Inr (build_map_locks b (build_rtt b a)), s1)))"

fun read_arenas_loop ::
  "'s ns_callback \<Rightarrow> btt \<Rightarrow> nat \<Rightarrow> nat \<Rightarrow> u64 \<Rightarrow> 's \<Rightarrow> (err + arena list) \<times> 's" where
  "read_arenas_loop cb b lane 0 arena_off s = (Inr [], s)"
| "read_arenas_loop cb b lane (Suc n) arena_off s =
     bind_io (read_arena cb b lane arena_off s) (\<lambda>a s1.
       bind_io (read_arenas_loop cb b lane n (a_nextoff a) s1) (\<lambda>as s2. (Inr (a # as), s2)))"

definition read_arenas ::
  "'s ns_callback \<Rightarrow> btt \<Rightarrow> nat \<Rightarrow> nat \<Rightarrow> 's \<Rightarrow> (err + unit) \<times> btt \<times> 's" where
  "read_arenas cb b lane narena s =
     (case read_arenas_loop cb b lane narena 0 s of
        (Inl e, s1) \<Rightarrow> (Inl e, b\<lparr>b_arenas := []\<rparr>, s1)
      | (Inr as, s1) \<Rightarrow> (Inr (), b\<lparr>b_arenas := as, b_laidout := True\<rparr>, s1))"

section \<open>Writing and reading a layout\<close>

fun write_flogs ::
  "'s ns_callback \<Rightarrow> nat \<Rightarrow> nat \<Rightarrow> u32 \<Rightarrow> u64 \<Rightarrow> u32 \<Rightarrow> 's \<Rightarrow> (err + unit) \<times> 's" where
  "write_flogs cb lane 0 i flog_entry_off next_free_lba s = (Inr (), s)"
| "write_flogs cb lane (Suc n) i flog_entry_off next_free_lba s =
     (let flog = \<lparr> flog_lba = i, flog_old_map = next_free_lba OR BTT_MAP_ENTRY_ZERO,
                   flog_new_map = next_free_lba OR BTT_MAP_ENTRY_ZERO, flog_seq = 1 \<rparr>
      in bind_io (nswrite cb s lane (btt_flog_convert2le flog) flog_entry_off) (\<lambda>_ s1.
         bind_io (nswrite cb s1 lane (btt_flog_convert2le Zflog) (flog_entry_off + sizeof_btt_flog)) (\<lambda>_ s2.
           write_flogs cb lane n (i + 1)
             (roundup64 (flog_entry_off + sizeof_btt_flog + sizeof_btt_flog) BTT_FLOG_PAIR_ALIGN)
             (next_free_lba + 1) s2)))"

text \<open>One arena of \<open>write_layout\<close>: zero the map, write the flogs, write both info blocks.\<close>

definition write_arena_layout ::
  "'s ns_callback \<Rightarrow> btt \<Rightarrow> nat \<Rightarrow> btt_info \<Rightarrow> u64 \<Rightarrow> 's \<Rightarrow> (err + unit) \<times> 's" where
  "write_arena_layout cb b lane info arena_off s =
     bind_io (if ns_is_zeroed cb then (Inr (), s)
              else nszero cb s lane (btt_map_size (i_external_nlba info)) (i_mapoff info)) (\<lambda>_ s1.
     bind_io (write_flogs cb lane (unat (b_nfree b)) 0 (arena_off + i_flogoff info)
                (i_external_nlba info) s1) (\<lambda>_ s2.
       (let bs = btt_info_convert2le
                   (info\<lparr>i_sig := Sig, i_uuid := b_uuid b, i_parent_uuid := b_parent_uuid b,
                         i_major := BTTINFO_MAJOR_VERSION, i_minor := BTTINFO_MINOR_VERSION\<rparr>)
        in case util_checksum bs checksum_off True 0 of
             Inl e \<Rightarrow> (Inl e, s2)
           | Inr (_, bs') \<Rightarrow>
               bind_io (nswrite cb s2 lane bs' arena_off) (\<lambda>_ s3.
                 nswrite cb s3 lane bs' (arena_off + i_infooff info)))))"

definition layout_arena_rawsize :: "u64 \<Rightarrow> u64" where
  "layout_arena_rawsize rawsize = (if rawsize > BTT_MAX_ARENA then BTT_MAX_ARENA else rawsize)"

lemma layout_rawsize_decreases:
  "rawsize \<ge> BTT_MIN_SIZE \<Longrightarrow> unat (rawsize - layout_arena_rawsize rawsize) < unat rawsize"
  by (auto simp: layout_arena_rawsize_def btt_const_defs word_less_nat_alt word_le_nat_alt unat_sub_small)

function write_layout_loop ::
  "'s ns_callback \<Rightarrow> btt \<Rightarrow> nat \<Rightarrow> bool \<Rightarrow> u32 \<Rightarrow> u64 \<Rightarrow> u64 \<Rightarrow> u64 \<Rightarrow> 's \<Rightarrow> (err + u64) \<times> 's" where
  "write_layout_loop cb b lane wrt ilbs rawsize arena_off total_nlba s =
     (if \<not> rawsize \<ge> BTT_MIN_SIZE then (Inr total_nlba, s)
      else (let arena_rawsize = layout_arena_rawsize rawsize
            in case btt_info_set_params zero_info (b_lbasize b) ilbs (b_nfree b) arena_rawsize of
                 Inl e \<Rightarrow> (Inl e, s)
               | Inr info \<Rightarrow>
                   (if \<not> wrt
                    then write_layout_loop cb b lane wrt ilbs (rawsize - layout_arena_rawsize rawsize)
                           arena_off (total_nlba + ucast (i_external_nlba info)) s
                    else (let info' = btt_info_set_offs info arena_rawsize (rawsize - arena_rawsize)
                          in case write_arena_layout cb b lane info' arena_off s of
                               (Inl e, s1) \<Rightarrow> (Inl e, s1)
                             | (Inr _, s1) \<Rightarrow>
                                 write_layout_loop cb b lane wrt ilbs
                                   (rawsize - layout_arena_rawsize rawsize)
                                   (arena_off + i_nextoff info')
                                   (total_nlba + ucast (i_external_nlba info)) s1))))"
  by pat_completeness auto
termination
  by (relation "measure (\<lambda>(cb, b, lane, wrt, ilbs, rawsize, arena_off, total_nlba, s). unat rawsize)")
    (auto intro: layout_rawsize_decreases)

declare write_layout_loop.simps [simp del]

definition layout_narena :: "u64 \<Rightarrow> nat" where
  "layout_narena rawsize =
     unat (rawsize div BTT_MAX_ARENA) + (if rawsize mod BTT_MAX_ARENA \<ge> BTT_MIN_SIZE then 1 else 0)"

text \<open>
  \<open>write_layout\<close>.  The argument \<open>gen\<close> is what \<open>util_uuid_generate\<close> returns (it
  reads the kernel's random UUID source).
\<close>

definition write_layout ::
  "'s ns_callback \<Rightarrow> err + byte list \<Rightarrow> btt \<Rightarrow> nat \<Rightarrow> bool \<Rightarrow> 's \<Rightarrow> (err + unit) \<times> btt \<times> 's" where
  "write_layout cb gen b lane wrt s =
     (case (if wrt then gen else Inr (b_uuid b)) of
        Inl e \<Rightarrow> (Inl e, b, s)
      | Inr uuid \<Rightarrow>
          (let b1 = b\<lparr>b_uuid := uuid, b_narena := layout_narena (b_rawsize b)\<rparr>;
               ilbs = internal_lbasize (b_lbasize b)
           in if ilbs = 0 then (Inl EINVAL, b1, s)
              else (case write_layout_loop cb b1 lane wrt ilbs (b_rawsize b) 0 0 s of
                      (Inl e, s1) \<Rightarrow> (Inl e, b1, s1)
                    | (Inr total_nlba, s1) \<Rightarrow>
                        (let b2 = b1\<lparr>b_nlba := total_nlba\<rparr>
                         in if wrt then read_arenas cb b2 lane (b_narena b2) s1
                            else (Inr (), b2, s1)))))"

text \<open>
  The scan of \<open>read_layout\<close> over the info blocks: \<open>Inr None\<close> means that some info
  block is not valid, \<open>Inr (Some (narena, smallest_nfree, total_nlba))\<close> that all are.
\<close>

function read_layout_loop ::
  "'s ns_callback \<Rightarrow> btt \<Rightarrow> nat \<Rightarrow> u64 \<Rightarrow> u64 \<Rightarrow> nat \<Rightarrow> u32 \<Rightarrow> u64 \<Rightarrow> 's \<Rightarrow>
     err + (nat \<times> u32 \<times> u64) option" where
  "read_layout_loop cb b lane rawsize arena_off narena smallest total_nlba s =
     (if \<not> rawsize \<ge> BTT_MIN_SIZE then Inr (Some (narena, smallest, total_nlba))
      else (case nsread cb s lane 4096 arena_off of
              Inl e \<Rightarrow> Inl e
            | Inr bs \<Rightarrow>
                (case read_info (b_parent_uuid b) bs of
                   None \<Rightarrow> Inr None
                 | Some info \<Rightarrow>
                     (if i_external_lbasize info \<noteq> b_lbasize b then Inl EINVAL
                      else if i_nfree info = 0 then Inl EINVAL
                      else if i_external_nlba info = 0 then Inl EINVAL
                      else if i_nextoff info \<noteq> 0 \<and> i_nextoff info \<noteq> BTT_MAX_ARENA then Inl EINVAL
                      else (let smallest' = (if i_nfree info < smallest then i_nfree info else smallest);
                                total_nlba' = total_nlba + ucast (i_external_nlba info)
                            in if i_nextoff info = 0 then Inr (Some (narena + 1, smallest', total_nlba'))
                               else if i_nextoff info > rawsize then Inl EINVAL
                               else read_layout_loop cb b lane (rawsize - i_nextoff info)
                                      (arena_off + i_nextoff info) (narena + 1) smallest' total_nlba' s)))))"
  by pat_completeness auto
termination
  by (relation "measure (\<lambda>(cb, b, lane, rawsize, arena_off, narena, smallest, total_nlba, s). unat rawsize)")
    (auto simp: unat_sub_small word_less_nat_alt word_le_nat_alt BTT_MAX_ARENA_def)

declare read_layout_loop.simps [simp del]

definition read_layout ::
  "'s ns_callback \<Rightarrow> btt \<Rightarrow> nat \<Rightarrow> 's \<Rightarrow> (err + unit) \<times> btt \<times> 's" where
  "read_layout cb b lane s =
     (let b1 = b\<lparr>b_nfree := BTT_DEFAULT_NFREE\<rparr>
      in case read_layout_loop cb b1 lane (b_rawsize b) 0 0 (- 1) 0 s of
           Inl e \<Rightarrow> (Inl e, b1, s)
         | Inr None \<Rightarrow> write_layout cb (Inr (b_uuid b1)) b1 lane False s
         | Inr (Some (narena, smallest, total_nlba)) \<Rightarrow>
             (let b2 = b1\<lparr>b_narena := narena, b_nlba := total_nlba,
                          b_nfree := (if smallest < b_nfree b1 then smallest else b_nfree b1)\<rparr>
              in read_arenas cb b2 lane narena s))"

definition btt_init ::
  "'s ns_callback \<Rightarrow> u64 \<Rightarrow> u32 \<Rightarrow> byte list \<Rightarrow> u32 \<Rightarrow> 's \<Rightarrow> (err + btt) \<times> 's" where
  "btt_init cb rawsize lbasize parent_uuid maxlane s =
     (if rawsize < BTT_MIN_SIZE then (Inl EINVAL, s)
      else (let b = \<lparr> b_nlane = 0, b_laidout = False, b_uuid = replicate 16 0,
                      b_parent_uuid = parent_uuid, b_rawsize = rawsize, b_lbasize = lbasize,
                      b_nfree = 0, b_nlba = 0, b_narena = 0, b_arenas = [] \<rparr>
            in case read_layout cb b 0 s of
                 (Inl e, b1, s1) \<Rightarrow> (Inl e, s1)
               | (Inr _, b1, s1) \<Rightarrow>
                   (Inr (b1\<lparr>b_nlane := (if maxlane \<noteq> 0 \<and> b_nfree b1 > maxlane
                                        then maxlane else b_nfree b1)\<rparr>), s1)))"

definition btt_nlane :: "btt \<Rightarrow> u32" where "btt_nlane b = b_nlane b"
definition btt_nlba :: "btt \<Rightarrow> u64" where "btt_nlba b = b_nlba b"


section \<open>Reading a block\<close>

definition zero_block :: "u32 \<Rightarrow> byte list" where
  "zero_block lbasize = replicate (unat lbasize) 0"

text \<open>The arena an external LBA lives in, and the LBA inside it (the pre-map LBA).\<close>

fun lba_to_arena_loop :: "arena list \<Rightarrow> u64 \<Rightarrow> nat \<Rightarrow> err + nat \<times> u32" where
  "lba_to_arena_loop [] lba arena = Inl ABORT"
| "lba_to_arena_loop (a # as) lba arena =
     (if lba < ucast (a_external_nlba a) then Inr (arena, ucast lba)
      else lba_to_arena_loop as (lba - ucast (a_external_nlba a)) (Suc arena))"

definition lba_to_arena_lba :: "btt \<Rightarrow> u64 \<Rightarrow> err + nat \<times> u32" where
  "lba_to_arena_lba b lba = lba_to_arena_loop (b_arenas b) lba 0"

definition set_rtt :: "arena \<Rightarrow> nat \<Rightarrow> u32 \<Rightarrow> arena" where
  "set_rtt a lane e = a\<lparr>a_rtt := (a_rtt a)[lane := e]\<rparr>"

text \<open>
  The retry loop of \<open>btt_read\<close>.  Each namespace access takes the next element of
  the list of namespace states; a read that is still retrying when the list ends
  has not returned.
\<close>

fun btt_read_loop ::
  "'s ns_callback \<Rightarrow> u32 \<Rightarrow> nat \<Rightarrow> arena \<Rightarrow> u64 \<Rightarrow> u32 \<Rightarrow> 's list \<Rightarrow> (err + byte list) \<times> arena" where
  "btt_read_loop cb lbasize lane a map_off entry ss =
     (if map_entry_is_error entry then (Inl EIO, a)
      else if map_entry_is_zero_or_initial entry then (Inr (zero_block lbasize), a)
      else (let a1 = set_rtt a lane entry
            in case ss of
                 [] \<Rightarrow> (Inl HANG, a1)
               | s # ss' \<Rightarrow>
                   (case nsread cb s lane 4 map_off of
                      Inl e \<Rightarrow> (Inl e, set_rtt a1 lane BTT_MAP_ENTRY_ERROR)
                    | Inr bs \<Rightarrow>
                        (if entry = unle32 bs
                         then (case ss' of
                                 [] \<Rightarrow> (Inl HANG, a1)
                               | s' # _ \<Rightarrow>
                                   (nsread cb s' lane (unat lbasize) (data_block_off a entry),
                                    set_rtt a1 lane BTT_MAP_ENTRY_ERROR))
                         else btt_read_loop cb lbasize lane a1 map_off (unle32 bs) ss'))))"

declare btt_read_loop.simps [simp del]

definition btt_read ::
  "'s ns_callback \<Rightarrow> btt \<Rightarrow> nat \<Rightarrow> u64 \<Rightarrow> 's list \<Rightarrow> (err + byte list) \<times> btt" where
  "btt_read cb b lane lba ss =
     (if invalid_lba b lba then (Inl EINVAL, b)
      else if \<not> b_laidout b then (Inr (zero_block (b_lbasize b)), b)
      else (case lba_to_arena_lba b lba of
              Inl e \<Rightarrow> (Inl e, b)
            | Inr (k, premap_lba) \<Rightarrow>
                (let a = b_arenas b ! k; map_off = map_entry_off a premap_lba
                 in case ss of
                      [] \<Rightarrow> (Inl HANG, b)
                    | s # ss' \<Rightarrow>
                        (case nsread cb s lane 4 map_off of
                           Inl e \<Rightarrow> (Inl e, b)
                         | Inr bs \<Rightarrow>
                             (case btt_read_loop cb (b_lbasize b) lane a map_off (unle32 bs) ss' of
                                (r, a') \<Rightarrow> (r, b\<lparr>b_arenas := (b_arenas b)[k := a']\<rparr>))))))"

text \<open>
  A read while no other lane is active: every access sees the same namespace.
  Three accesses are enough.
\<close>

definition btt_read_seq ::
  "'s ns_callback \<Rightarrow> btt \<Rightarrow> nat \<Rightarrow> u64 \<Rightarrow> 's \<Rightarrow> (err + byte list) \<times> btt" where
  "btt_read_seq cb b lane lba s = btt_read cb b lane lba [s, s, s]"

section \<open>Writing a block\<close>

definition lock_map :: "arena \<Rightarrow> nat \<Rightarrow> bool \<Rightarrow> arena" where
  "lock_map a n v = a\<lparr>a_map_locks := (a_map_locks a)[n := v]\<rparr>"

definition map_lock ::
  "'s ns_callback \<Rightarrow> u32 \<Rightarrow> nat \<Rightarrow> arena \<Rightarrow> 's \<Rightarrow> u32 \<Rightarrow> (err + u32) \<times> arena" where
  "map_lock cb nfree lane a s premap_lba =
     (let n = get_map_lock_num premap_lba nfree; a1 = lock_map a n True
      in case nsread cb s lane 4 (map_entry_off a premap_lba) of
           Inl e \<Rightarrow> (Inl e, lock_map a1 n False)
         | Inr bs \<Rightarrow>
             (Inr (if map_entry_is_initial (unle32 bs)
                   then premap_lba OR BTT_MAP_ENTRY_NORMAL else unle32 bs), a1))"

definition map_abort :: "u32 \<Rightarrow> arena \<Rightarrow> u32 \<Rightarrow> arena" where
  "map_abort nfree a premap_lba = lock_map a (get_map_lock_num premap_lba nfree) False"

definition map_unlock ::
  "'s ns_callback \<Rightarrow> u32 \<Rightarrow> nat \<Rightarrow> arena \<Rightarrow> 's \<Rightarrow> u32 \<Rightarrow> u32 \<Rightarrow> (err + unit) \<times> arena \<times> 's" where
  "map_unlock cb nfree lane a s entry premap_lba =
     (case nswrite cb s lane (le32 entry) (map_entry_off a premap_lba) of
        (r, s1) \<Rightarrow> (r, lock_map a (get_map_lock_num premap_lba nfree) False, s1))"

text \<open>
  \<open>flog_update\<close>: two writes into the entry that is not current, first
  (lba, old_map), then (new_map, seq); the run-time state follows on success.
\<close>

definition flog_update ::
  "'s ns_callback \<Rightarrow> nat \<Rightarrow> arena \<Rightarrow> 's \<Rightarrow> u32 \<Rightarrow> u32 \<Rightarrow> u32 \<Rightarrow> (err + arena) \<times> 's" where
  "flog_update cb lane a s lba old_map new_map =
     (let rt = a_flogs a ! lane;
          new_seq = NSEQ (flog_seq (rt_flog rt));
          new_flog_off = rt_entries rt ! rt_next rt
      in bind_io (nswrite cb s lane (le32 lba @ le32 old_map) new_flog_off) (\<lambda>_ s1.
         bind_io (nswrite cb s1 lane (le32 new_map @ le32 new_seq) (new_flog_off + 8)) (\<lambda>_ s2.
           (Inr (a\<lparr>a_flogs := (a_flogs a)[lane :=
                     rt\<lparr>rt_next := 1 - rt_next rt,
                        rt_flog := \<lparr> flog_lba = lba, flog_old_map = old_map,
                                     flog_new_map = new_map, flog_seq = new_seq \<rparr>\<rparr>]\<rparr>), s2))))"

text \<open>
  The part of \<open>btt_write\<close> that works on one arena: after the data, the flog and
  the map publish the write.  The busy wait on the read tracking table never ends
  while a lane keeps the free block in its slot.
\<close>

definition btt_write_publish ::
  "'s ns_callback \<Rightarrow> btt \<Rightarrow> nat \<Rightarrow> arena \<Rightarrow> 's \<Rightarrow> u32 \<Rightarrow> u32 \<Rightarrow> (err + unit) \<times> arena \<times> 's" where
  "btt_write_publish cb b lane a s premap_lba free_entry =
     (case map_lock cb (b_nfree b) lane a s premap_lba of
        (Inl e, a1) \<Rightarrow> (Inl e, a1, s)
      | (Inr old_entry, a1) \<Rightarrow>
          (case flog_update cb lane a1 s premap_lba old_entry free_entry of
             (Inl e, s2) \<Rightarrow> (Inl e, map_abort (b_nfree b) a1 premap_lba, s2)
           | (Inr a2, s2) \<Rightarrow>
               (case map_unlock cb (b_nfree b) lane a2 s2 free_entry premap_lba of
                  (Inl e, a3, s3) \<Rightarrow>
                    (case set_arena_error cb (b_laidout b) lane a3 s3 of
                       (_, a4, s4) \<Rightarrow> (Inl EIO, a4, s4))
                | (Inr _, a3, s3) \<Rightarrow> (Inr (), a3, s3))))"

text \<open>
  The part of \<open>btt_write\<close> up to the data.  It waits until no slot of the read tracking table
  holds the free block.  Nobody else runs during the call in this model, so a slot that
  holds the block keeps it and the call is \<open>HANG\<close>; in the program a reader in that slot's lane
  can still end the wait by finishing its read or by starting another one.
\<close>

definition btt_write_arena ::
  "'s ns_callback \<Rightarrow> btt \<Rightarrow> nat \<Rightarrow> arena \<Rightarrow> 's \<Rightarrow> u32 \<Rightarrow> byte list \<Rightarrow> (err + unit) \<times> arena \<times> 's" where
  "btt_write_arena cb b lane a s premap_lba buf =
     (if a_flags a AND BTTINFO_FLAG_ERROR_MASK \<noteq> 0 then (Inl EIO, a, s)
      else (let free_entry = (flog_old_map (rt_flog (a_flogs a ! lane)) AND BTT_MAP_ENTRY_LBA_MASK)
                               OR BTT_MAP_ENTRY_NORMAL
            in if free_entry \<in> set (take (unat (b_nlane b)) (a_rtt a)) then (Inl HANG, a, s)
               else (case nswrite cb s lane (take (unat (b_lbasize b)) buf) (data_block_off a free_entry) of
                       (Inl e, s1) \<Rightarrow> (Inl e, a, s1)
                     | (Inr _, s1) \<Rightarrow> btt_write_publish cb b lane a s1 premap_lba free_entry)))"

text \<open>Lay the namespace out on the first write.\<close>

definition ensure_layout ::
  "'s ns_callback \<Rightarrow> err + byte list \<Rightarrow> btt \<Rightarrow> nat \<Rightarrow> 's \<Rightarrow> (err + unit) \<times> btt \<times> 's" where
  "ensure_layout cb gen b lane s =
     (if b_laidout b then (Inr (), b, s) else write_layout cb gen b lane True s)"

definition btt_write ::
  "'s ns_callback \<Rightarrow> err + byte list \<Rightarrow> btt \<Rightarrow> nat \<Rightarrow> u64 \<Rightarrow> byte list \<Rightarrow> 's \<Rightarrow> (err + unit) \<times> btt \<times> 's" where
  "btt_write cb gen b lane lba buf s =
     (if invalid_lba b lba then (Inl EINVAL, b, s)
      else (case ensure_layout cb gen b lane s of
              (Inl e, b1, s1) \<Rightarrow> (Inl e, b1, s1)
            | (Inr _, b1, s1) \<Rightarrow>
                (case lba_to_arena_lba b1 lba of
                   Inl e \<Rightarrow> (Inl e, b1, s1)
                 | Inr (k, premap_lba) \<Rightarrow>
                     (case btt_write_arena cb b1 lane (b_arenas b1 ! k) s1 premap_lba buf of
                        (r, a, s2) \<Rightarrow> (r, b1\<lparr>b_arenas := (b_arenas b1)[k := a]\<rparr>, s2)))))"

section \<open>Zero and error states\<close>

definition map_entry_setf_arena ::
  "'s ns_callback \<Rightarrow> btt \<Rightarrow> nat \<Rightarrow> arena \<Rightarrow> 's \<Rightarrow> u32 \<Rightarrow> u32 \<Rightarrow> (err + unit) \<times> arena \<times> 's" where
  "map_entry_setf_arena cb b lane a s premap_lba setf =
     (if a_flags a AND BTTINFO_FLAG_ERROR_MASK \<noteq> 0 then (Inl EIO, a, s)
      else (case map_lock cb (b_nfree b) lane a s premap_lba of
              (Inl e, a1) \<Rightarrow> (Inl e, a1, s)
            | (Inr old_entry, a1) \<Rightarrow>
                (if setf = BTT_MAP_ENTRY_ZERO \<and> map_entry_is_zero_or_initial old_entry
                 then (Inr (), map_abort (b_nfree b) a1 premap_lba, s)
                 else map_unlock cb (b_nfree b) lane a1 s
                        ((old_entry AND BTT_MAP_ENTRY_LBA_MASK) OR setf) premap_lba)))"

definition map_entry_setf ::
  "'s ns_callback \<Rightarrow> err + byte list \<Rightarrow> btt \<Rightarrow> nat \<Rightarrow> u64 \<Rightarrow> u32 \<Rightarrow> 's \<Rightarrow> (err + unit) \<times> btt \<times> 's" where
  "map_entry_setf cb gen b lane lba setf s =
     (if invalid_lba b lba then (Inl EINVAL, b, s)
      else if \<not> b_laidout b \<and> setf = BTT_MAP_ENTRY_ZERO then (Inr (), b, s)
      else (case ensure_layout cb gen b lane s of
              (Inl e, b1, s1) \<Rightarrow> (Inl e, b1, s1)
            | (Inr _, b1, s1) \<Rightarrow>
                (case lba_to_arena_lba b1 lba of
                   Inl e \<Rightarrow> (Inl e, b1, s1)
                 | Inr (k, premap_lba) \<Rightarrow>
                     (case map_entry_setf_arena cb b1 lane (b_arenas b1 ! k) s1 premap_lba setf of
                        (r, a, s2) \<Rightarrow> (r, b1\<lparr>b_arenas := (b_arenas b1)[k := a]\<rparr>, s2)))))"

definition btt_set_zero ::
  "'s ns_callback \<Rightarrow> err + byte list \<Rightarrow> btt \<Rightarrow> nat \<Rightarrow> u64 \<Rightarrow> 's \<Rightarrow> (err + unit) \<times> btt \<times> 's" where
  "btt_set_zero cb gen b lane lba s = map_entry_setf cb gen b lane lba BTT_MAP_ENTRY_ZERO s"

definition btt_set_error ::
  "'s ns_callback \<Rightarrow> err + byte list \<Rightarrow> btt \<Rightarrow> nat \<Rightarrow> u64 \<Rightarrow> 's \<Rightarrow> (err + unit) \<times> btt \<times> 's" where
  "btt_set_error cb gen b lane lba s = map_entry_setf cb gen b lane lba BTT_MAP_ENTRY_ERROR s"

section \<open>The consistency check\<close>

text \<open>
  The first loop of \<open>check_arena\<close>.  \<open>mp\<close> is the rest of the current mapping of the
  map area; an access past a mapping or past the bitmap is undefined and ends the
  model with \<open>ABORT\<close>.
\<close>

definition bitmap_mark :: "bool list \<Rightarrow> nat \<Rightarrow> bool \<Rightarrow> bool list \<times> bool" where
  "bitmap_mark bitmap e consistent =
     (if bitmap ! e then (bitmap, False) else (bitmap[e := True], consistent))"

fun check_map_loop ::
  "'s ns_callback \<Rightarrow> arena \<Rightarrow> 's \<Rightarrow> nat \<Rightarrow> u32 \<Rightarrow> u64 \<Rightarrow> byte list \<Rightarrow> bool list \<Rightarrow> bool \<Rightarrow>
     err + bool list \<times> bool" where
  "check_map_loop cb a s 0 i map_entry_off' mp bitmap consistent = Inr (bitmap, consistent)"
| "check_map_loop cb a s (Suc n) i map_entry_off' mp bitmap consistent =
     (case (if mp = [] then nsmap cb s 0 (4 * Suc n) map_entry_off' else Inr mp) of
        Inl e \<Rightarrow> Inl e
      | Inr mp1 \<Rightarrow>
          (if length mp1 < 4 then Inl ABORT
           else (let e0 = unle32 (take 4 mp1);
                     entry = (if map_entry_is_initial e0 then i else e0 AND BTT_MAP_ENTRY_LBA_MASK)
                 in if entry \<ge> a_internal_nlba a then Inl EINVAL
                    else if unat entry \<ge> length bitmap then Inl ABORT
                    else (case bitmap_mark bitmap (unat entry) consistent of
                            (bitmap1, c1) \<Rightarrow>
                              check_map_loop cb a s n (i + 1) (map_entry_off' + 4) (drop 4 mp1)
                                bitmap1 c1))))"

fun check_flog_loop :: "flog_runtime list \<Rightarrow> bool list \<Rightarrow> bool \<Rightarrow> err + bool list \<times> bool" where
  "check_flog_loop [] bitmap consistent = Inr (bitmap, consistent)"
| "check_flog_loop (rt # rts) bitmap consistent =
     (let entry = unat (flog_old_map (rt_flog rt) AND BTT_MAP_ENTRY_LBA_MASK)
      in if entry \<ge> length bitmap then Inl ABORT
         else (case bitmap_mark bitmap entry consistent of
                 (bitmap1, c1) \<Rightarrow> check_flog_loop rts bitmap1 c1))"

text \<open>The size of the bitmap is computed on 32 bits, as the macro \<open>howmany\<close> does on a \<open>uint32_t\<close>.\<close>

definition check_arena :: "'s ns_callback \<Rightarrow> btt \<Rightarrow> arena \<Rightarrow> 's \<Rightarrow> err + bool" where
  "check_arena cb b a s =
     (let n = unat (a_internal_nlba a); bitmapsize = (a_internal_nlba a + 7) div 8
      in case check_map_loop cb a s (unat (a_external_nlba a)) 0 (a_mapoff a) []
                (replicate (8 * unat bitmapsize) False) True of
           Inl e \<Rightarrow> Inl e
         | Inr (bitmap, c) \<Rightarrow>
             (case check_flog_loop (take (unat (b_nfree b)) (a_flogs a)) bitmap c of
                Inl e \<Rightarrow> Inl e
              | Inr (bitmap1, c1) \<Rightarrow>
                  (if n > length bitmap1 then Inl ABORT
                   else Inr (c1 \<and> (\<forall>i \<in> set [0..<n]. bitmap1 ! i)))))"

fun check_arenas :: "'s ns_callback \<Rightarrow> btt \<Rightarrow> arena list \<Rightarrow> 's \<Rightarrow> bool \<Rightarrow> err + bool" where
  "check_arenas cb b [] s consistent = Inr consistent"
| "check_arenas cb b (a # as) s consistent =
     (case check_arena cb b a s of
        Inl e \<Rightarrow> Inl e
      | Inr ok \<Rightarrow> check_arenas cb b as s (if ok then consistent else False))"

definition btt_check :: "'s ns_callback \<Rightarrow> btt \<Rightarrow> 's \<Rightarrow> err + bool" where
  "btt_check cb b s =
     (if \<not> b_laidout b then Inr True
      else check_arenas cb b (take (b_narena b) (b_arenas b)) s True)"

end
