(* ===== verification/Btt_Media.thy ===== *)
theory Btt_Media
  imports Btt
begin

text \<open>
  The state of an arena as it is on the medium: map entries, flog pairs, data
  blocks, the arena invariant, and how the individual stores of a block write
  change them.  A flog whose map update has not been done yet is \<^emph>\<open>pending\<close>;
  the effective map already counts pending updates, since recovery will make
  them.
\<close>

named_theorems entry_simps \<open>flags and block numbers of map entries\<close>

section \<open>Map entries as flags and a block number\<close>

lemma LBA_MASK_mask: "BTT_MAP_ENTRY_LBA_MASK = mask 30"
  by (simp add: BTT_MAP_ENTRY_LBA_MASK_def mask_eq_exp_minus_1)

lemma NORMAL_mask: "BTT_MAP_ENTRY_NORMAL = NOT (mask 30)"
  by (simp add: BTT_MAP_ENTRY_NORMAL_def mask_eq_exp_minus_1)

definition entry_block :: "u32 \<Rightarrow> nat" where
  "entry_block e = unat (e AND BTT_MAP_ENTRY_LBA_MASK)"

definition normal_entry :: "u32 \<Rightarrow> u32" where
  "normal_entry e = (e AND BTT_MAP_ENTRY_LBA_MASK) OR BTT_MAP_ENTRY_NORMAL"

lemma entry_block_mod: "entry_block e = unat e mod 2 ^ 30"
  by (simp only: entry_block_def LBA_MASK_mask take_bit_eq_mask [symmetric]
      unsigned_take_bit_eq) (simp add: take_bit_eq_mod)

lemma entry_block_less: "entry_block e < 2 ^ 30"
  by (simp add: entry_block_mod)

lemma entry_block_normal [simp, entry_simps]: "entry_block (normal_entry e) = entry_block e"
proof -
  have "normal_entry e AND mask 30 = e AND mask 30"
    unfolding normal_entry_def LBA_MASK_mask NORMAL_mask
    by (rule bit_word_eqI) (auto simp: bit_simps)
  then show ?thesis by (simp add: entry_block_def LBA_MASK_mask)
qed

lemma normal_entry_flags: "normal_entry e AND NOT BTT_MAP_ENTRY_LBA_MASK = BTT_MAP_ENTRY_NORMAL"
  unfolding normal_entry_def LBA_MASK_mask NORMAL_mask
  by (rule bit_word_eqI) (auto simp: bit_simps)

lemma normal_entry_state [simp, entry_simps]:
  "\<not> map_entry_is_initial (normal_entry e)" "\<not> map_entry_is_error (normal_entry e)"
  "\<not> map_entry_is_zero_or_initial (normal_entry e)"
  unfolding map_entry_is_initial_def map_entry_is_error_def map_entry_is_zero_or_initial_def
    normal_entry_flags Let_def
  by (simp_all add: btt_const_defs)

text \<open>The entry \<open>map_lock\<close> returns: an initial entry stands for the identity mapping.\<close>

definition norm_entry :: "u32 \<Rightarrow> u32 \<Rightarrow> u32" where
  "norm_entry i e = (if map_entry_is_initial e then i OR BTT_MAP_ENTRY_NORMAL else e)"

lemma or_normal_entry: "unat i < 2 ^ 30 \<Longrightarrow> i OR BTT_MAP_ENTRY_NORMAL = normal_entry i"
proof -
  assume "unat i < 2 ^ 30"
  then have "take_bit 30 i = i"
    by (intro word_unat_eq_iff [THEN iffD2])
      (simp only: unsigned_take_bit_eq take_bit_nat_eq_self)
  then show ?thesis
    by (simp add: normal_entry_def LBA_MASK_mask flip: take_bit_eq_mask)
qed

lemma entry_block_small: "unat i < 2 ^ 30 \<Longrightarrow> entry_block i = unat i"
  by (simp add: entry_block_mod)

lemma entry_block_norm:
  "unat i < 2 ^ 30 \<Longrightarrow>
   entry_block (norm_entry i e) = (if map_entry_is_initial e then unat i else entry_block e)"
  by (simp add: norm_entry_def or_normal_entry entry_block_small)

lemma norm_entry_normal [simp]: "norm_entry i (normal_entry e) = normal_entry e"
  by (simp add: norm_entry_def)

text \<open>Setting the zero or error flag of an entry keeps its block.\<close>

lemma entry_block_setf:
  assumes "setf AND BTT_MAP_ENTRY_LBA_MASK = 0"
  shows "entry_block ((e AND BTT_MAP_ENTRY_LBA_MASK) OR setf) = entry_block e"
proof -
  have "((e AND BTT_MAP_ENTRY_LBA_MASK) OR setf) AND BTT_MAP_ENTRY_LBA_MASK
      = (e AND BTT_MAP_ENTRY_LBA_MASK) OR (setf AND BTT_MAP_ENTRY_LBA_MASK)"
    by (rule bit_word_eqI) (auto simp: bit_simps)
  with assms show ?thesis by (simp add: entry_block_def)
qed

lemma setf_flags:
  assumes "setf AND BTT_MAP_ENTRY_LBA_MASK = 0"
  shows "((e AND BTT_MAP_ENTRY_LBA_MASK) OR setf) AND NOT BTT_MAP_ENTRY_LBA_MASK = setf"
proof (rule bit_word_eqI)
  fix n
  assume "n < LENGTH(32)"
  from assms have "\<not> (bit setf n \<and> bit BTT_MAP_ENTRY_LBA_MASK n)"
    by (metis bit_and_iff bit_0_eq bot_fun_def bot_bool_def)
  with \<open>n < LENGTH(32)\<close>
  show "bit (((e AND BTT_MAP_ENTRY_LBA_MASK) OR setf) AND NOT BTT_MAP_ENTRY_LBA_MASK) n = bit setf n"
    by (auto simp: bit_simps)
qed

section \<open>Geometry\<close>

text \<open>
  The regions of an arena inside a namespace of \<open>sz\<close> bytes: info block, data
  blocks, map, flog, in this order, without overlap.
\<close>

definition arena_geom :: "nat \<Rightarrow> nat \<Rightarrow> nat \<Rightarrow> arena \<Rightarrow> bool" where
  "arena_geom sz nf lbs a \<longleftrightarrow>
     unat (a_startoff a) + 4096 \<le> unat (a_dataoff a) \<and>
     unat (a_dataoff a) + unat (a_internal_nlba a) * unat (a_internal_lbasize a) \<le> unat (a_mapoff a) \<and>
     unat (a_mapoff a) + 4 * unat (a_external_nlba a) \<le> unat (a_flogoff a) \<and>
     unat (a_flogoff a) + 64 * nf \<le> sz \<and> sz < 2 ^ 64 \<and>
     unat (a_internal_nlba a) = unat (a_external_nlba a) + nf \<and>
     unat (a_internal_nlba a) \<le> 2 ^ 30 \<and>
     lbs \<le> unat (a_internal_lbasize a) \<and>
     8 dvd unat (a_flogoff a) \<and> 4 dvd unat (a_mapoff a)"

definition map_addr :: "arena \<Rightarrow> nat \<Rightarrow> nat" where
  "map_addr a i = unat (a_mapoff a) + 4 * i"

definition data_addr :: "arena \<Rightarrow> nat \<Rightarrow> nat" where
  "data_addr a k = unat (a_dataoff a) + k * unat (a_internal_lbasize a)"

definition flog_addr :: "arena \<Rightarrow> nat \<Rightarrow> nat" where
  "flog_addr a l = unat (a_flogoff a) + 64 * l"

lemma arena_geomD:
  assumes "arena_geom sz nf lbs a"
  shows "unat (a_startoff a) + 4096 \<le> unat (a_dataoff a)"
    and "unat (a_dataoff a) + unat (a_internal_nlba a) * unat (a_internal_lbasize a) \<le> unat (a_mapoff a)"
    and "unat (a_mapoff a) + 4 * unat (a_external_nlba a) \<le> unat (a_flogoff a)"
    and "unat (a_flogoff a) + 64 * nf \<le> sz"
    and "sz < 2 ^ 64"
    and "unat (a_internal_nlba a) = unat (a_external_nlba a) + nf"
    and "unat (a_internal_nlba a) \<le> 2 ^ 30"
    and "lbs \<le> unat (a_internal_lbasize a)"
    and "8 dvd unat (a_flogoff a)"
    and "4 dvd unat (a_mapoff a)"
  using assms unfolding arena_geom_def by blast+

lemma block_end_le:
  assumes "arena_geom sz nf lbs a" "k < unat (a_internal_nlba a)"
  shows "data_addr a k + lbs \<le> unat (a_mapoff a)"
proof -
  let ?ils = "unat (a_internal_lbasize a)"
  have "Suc k * ?ils \<le> unat (a_internal_nlba a) * ?ils"
    using assms(2) by (intro mult_le_mono1) simp
  then have "k * ?ils + ?ils \<le> unat (a_internal_nlba a) * ?ils" by simp
  with arena_geomD(2,8) [OF assms(1)] show ?thesis unfolding data_addr_def by linarith
qed

lemma data_blocks_disjoint:
  assumes "arena_geom sz nf lbs a" "k \<noteq> j"
  shows "disjoint_ranges (data_addr a k) lbs (data_addr a j) lbs"
proof -
  let ?ils = "unat (a_internal_lbasize a)"
  have le: "lbs \<le> ?ils" using assms(1) by (simp add: arena_geom_def)
  have "x * ?ils + ?ils \<le> y * ?ils" if "x < y" for x y
    using mult_le_mono1 [of "Suc x" y ?ils] that by simp
  from this [of k j] this [of j k] assms(2) le show ?thesis
    by (auto simp: disjoint_ranges_def data_addr_def nat_neq_iff)
qed

lemma unat_map_entry_off:
  assumes "arena_geom sz nf lbs a" "unat p < unat (a_external_nlba a)"
  shows "unat (map_entry_off a p) = map_addr a (unat p)"
proof -
  have "unat p < 2 ^ 30" using assms by (simp add: arena_geom_def)
  then have "unat (BTT_MAP_ENTRY_SIZE * p) = 4 * unat p"
    by (subst unat_mult_small) (simp_all add: BTT_MAP_ENTRY_SIZE_def)
  with assms show ?thesis
    unfolding map_entry_off_def map_addr_def
    by (subst unat_add_small) (simp_all add: arena_geom_def)
qed

lemma unat_data_block_off:
  assumes "arena_geom sz nf lbs a" "entry_block e < unat (a_internal_nlba a)"
  shows "unat (data_block_off a e) = data_addr a (entry_block e)"
proof -
  let ?ils = "unat (a_internal_lbasize a)"
  have "entry_block e * ?ils \<le> unat (a_internal_nlba a) * ?ils"
    using assms(2) by (intro mult_le_mono1) simp
  then have le: "unat (a_dataoff a) + entry_block e * ?ils < 2 ^ 64"
    using arena_geomD(2-5) [OF assms(1)] by linarith
  then have "unat ((ucast (e AND BTT_MAP_ENTRY_LBA_MASK) :: u64) * ucast (a_internal_lbasize a))
      = entry_block e * ?ils"
    by (subst unat_mult_small) (simp_all add: entry_block_def)
  with le show ?thesis
    unfolding data_block_off_def data_addr_def
    by (subst unat_add_small) simp_all
qed

section \<open>The media state of an arena\<close>

definition map_raw :: "mem \<Rightarrow> arena \<Rightarrow> nat \<Rightarrow> u32" where
  "map_raw m a i = unle32 (rd m (map_addr a i) 4)"

definition flog_at :: "mem \<Rightarrow> nat \<Rightarrow> btt_flog" where
  "flog_at m x = btt_flog_convert2h (rd m x 16)"

definition flog_fst :: "mem \<Rightarrow> arena \<Rightarrow> nat \<Rightarrow> btt_flog" where
  "flog_fst m a l = flog_at m (flog_addr a l)"

definition flog_snd :: "mem \<Rightarrow> arena \<Rightarrow> nat \<Rightarrow> btt_flog" where
  "flog_snd m a l = flog_at m (flog_addr a l + 16)"

definition flog_cur :: "mem \<Rightarrow> arena \<Rightarrow> nat \<Rightarrow> btt_flog" where
  "flog_cur m a l = fst (the (btt_flog_get_valid (flog_fst m a l) (flog_snd m a l)))"

definition flog_next :: "mem \<Rightarrow> arena \<Rightarrow> nat \<Rightarrow> nat" where
  "flog_next m a l = snd (the (btt_flog_get_valid (flog_fst m a l) (flog_snd m a l)))"

definition seq_pair_ok :: "u32 \<Rightarrow> u32 \<Rightarrow> bool" where
  "seq_pair_ok cur other \<longleftrightarrow> cur \<in> {1, 2, 3} \<and> (other = 0 \<or> other \<in> {1, 2, 3} \<and> NSEQ other = cur)"

text \<open>A flog pair in order: one entry current, the other unused or its predecessor.\<close>

definition flog_pair_wf :: "mem \<Rightarrow> arena \<Rightarrow> nat \<Rightarrow> bool" where
  "flog_pair_wf m a l \<longleftrightarrow>
     (seq_pair_ok (flog_seq (flog_fst m a l)) (flog_seq (flog_snd m a l)) \<or>
      seq_pair_ok (flog_seq (flog_snd m a l)) (flog_seq (flog_fst m a l))) \<and>
     unat (flog_lba (flog_fst m a l)) < unat (a_external_nlba a) \<and>
     unat (flog_lba (flog_snd m a l)) < unat (a_external_nlba a)"

definition free_block :: "mem \<Rightarrow> arena \<Rightarrow> nat \<Rightarrow> nat" where
  "free_block m a l = entry_block (flog_old_map (flog_cur m a l))"

text \<open>The recovery condition of \<open>read_flog_pair\<close>.\<close>

definition pending :: "mem \<Rightarrow> arena \<Rightarrow> nat \<Rightarrow> bool" where
  "pending m a l \<longleftrightarrow>
     (let f = flog_cur m a l;
          e = norm_entry (flog_lba f) (map_raw m a (unat (flog_lba f)))
      in flog_old_map f \<noteq> flog_new_map f \<and> flog_new_map f \<noteq> e \<and> flog_old_map f = e)"

definition eff_entry :: "mem \<Rightarrow> arena \<Rightarrow> nat \<Rightarrow> nat \<Rightarrow> u32" where
  "eff_entry m a nf i =
     (case find (\<lambda>l. pending m a l \<and> unat (flog_lba (flog_cur m a l)) = i) [0..<nf] of
        Some l \<Rightarrow> flog_new_map (flog_cur m a l)
      | None \<Rightarrow> map_raw m a i)"

definition eff_block :: "mem \<Rightarrow> arena \<Rightarrow> nat \<Rightarrow> nat \<Rightarrow> nat" where
  "eff_block m a nf i = entry_block (norm_entry (of_nat i) (eff_entry m a nf i))"

definition used_blocks :: "mem \<Rightarrow> arena \<Rightarrow> nat \<Rightarrow> nat list" where
  "used_blocks m a nf =
     map (eff_block m a nf) [0..<unat (a_external_nlba a)] @ map (free_block m a) [0..<nf]"

text \<open>
  The media invariant: every flog pair is in order, pending updates install
  normal entries, and the effective map together with the free blocks is an
  injective numbering of the arena's blocks.
\<close>

definition media_inv :: "mem \<Rightarrow> arena \<Rightarrow> nat \<Rightarrow> bool" where
  "media_inv m a nf \<longleftrightarrow>
     (\<forall>l < nf. flog_pair_wf m a l) \<and>
     (\<forall>l < nf. pending m a l \<longrightarrow> (\<exists>e. flog_new_map (flog_cur m a l) = normal_entry e)) \<and>
     distinct (used_blocks m a nf) \<and>
     set (used_blocks m a nf) \<subseteq> {0..<unat (a_internal_nlba a)}"

text \<open>What a read of a block returns: an I/O error or its bytes.\<close>

datatype block = ErrorBlock | DataBlock "byte list"

definition block_of_entry :: "nat \<Rightarrow> mem \<Rightarrow> arena \<Rightarrow> u32 \<Rightarrow> block" where
  "block_of_entry lbs m a e =
     (if map_entry_is_error e then ErrorBlock
      else if map_entry_is_zero_or_initial e then DataBlock (replicate lbs 0)
      else DataBlock (rd m (data_addr a (entry_block e)) lbs))"

definition block_at :: "nat \<Rightarrow> mem \<Rightarrow> arena \<Rightarrow> nat \<Rightarrow> nat \<Rightarrow> block" where
  "block_at lbs m a nf i = block_of_entry lbs m a (eff_entry m a nf i)"

text \<open>Run-time flog state that agrees with the medium.\<close>

definition runtime_ok :: "mem \<Rightarrow> arena \<Rightarrow> nat \<Rightarrow> bool" where
  "runtime_ok m a nf \<longleftrightarrow>
     length (a_flogs a) = nf \<and>
     (\<forall>l < nf. \<not> pending m a l \<and>
        map unat (rt_entries (a_flogs a ! l)) = [flog_addr a l, flog_addr a l + 16] \<and>
        btt_flog_get_valid (flog_fst m a l) (flog_snd m a l)
          = Some (rt_flog (a_flogs a ! l), rt_next (a_flogs a ! l)))"

section \<open>Sequence numbers\<close>

lemma NSEQ_cycle [simp]: "NSEQ 1 = 2" "NSEQ 2 = 3" "NSEQ 3 = 1"
  by (simp_all add: NSEQ_def Nseq_def)

lemma NSEQ_in: "s \<in> {1, 2, 3} \<Longrightarrow> NSEQ s \<in> {1, 2, 3}"
  by auto

lemma NSEQ_neq: "s \<in> {1, 2, 3} \<Longrightarrow> NSEQ s \<noteq> s \<and> NSEQ s \<noteq> 0 \<and> NSEQ (NSEQ s) \<noteq> s"
  by auto

lemma get_valid_fst:
  "seq_pair_ok (flog_seq f0) (flog_seq f1) \<Longrightarrow> btt_flog_get_valid f0 f1 = Some (f0, 1)"
  by (auto simp: seq_pair_ok_def btt_flog_get_valid_def)

lemma get_valid_snd:
  "seq_pair_ok (flog_seq f1) (flog_seq f0) \<Longrightarrow> btt_flog_get_valid f0 f1 = Some (f1, 0)"
  by (auto simp: seq_pair_ok_def btt_flog_get_valid_def)


text \<open>A pair in order, with \<open>n\<close> the index of the entry that is not current.\<close>

definition flog_pair_at :: "mem \<Rightarrow> arena \<Rightarrow> nat \<Rightarrow> nat \<Rightarrow> btt_flog \<Rightarrow> btt_flog \<Rightarrow> bool" where
  "flog_pair_at m a l n cur oth \<longleftrightarrow>
     n \<in> {0, 1} \<and> cur = flog_at m (flog_addr a l + 16 * (1 - n)) \<and>
     oth = flog_at m (flog_addr a l + 16 * n) \<and>
     seq_pair_ok (flog_seq cur) (flog_seq oth) \<and>
     unat (flog_lba cur) < unat (a_external_nlba a) \<and> unat (flog_lba oth) < unat (a_external_nlba a)"

lemma flog_pair_wf_iff: "flog_pair_wf m a l \<longleftrightarrow> (\<exists>n cur oth. flog_pair_at m a l n cur oth)"
proof
  assume "flog_pair_wf m a l"
  then have "flog_pair_at m a l 1 (flog_fst m a l) (flog_snd m a l) \<or>
      flog_pair_at m a l 0 (flog_snd m a l) (flog_fst m a l)"
    by (auto simp: flog_pair_wf_def flog_pair_at_def flog_fst_def flog_snd_def)
  then show "\<exists>n cur oth. flog_pair_at m a l n cur oth" by blast
next
  assume "\<exists>n cur oth. flog_pair_at m a l n cur oth"
  then show "flog_pair_wf m a l"
    by (auto simp: flog_pair_wf_def flog_pair_at_def flog_fst_def flog_snd_def)
qed

lemma flog_pair_atD:
  assumes "flog_pair_at m a l n cur oth"
  shows "btt_flog_get_valid (flog_fst m a l) (flog_snd m a l) = Some (cur, n)"
    and "flog_cur m a l = cur" and "flog_next m a l = n"
    and "unat (flog_lba cur) < unat (a_external_nlba a)"
proof -
  show v: "btt_flog_get_valid (flog_fst m a l) (flog_snd m a l) = Some (cur, n)"
    using assms by (auto simp: flog_pair_at_def flog_fst_def flog_snd_def get_valid_fst get_valid_snd)
  then show "flog_cur m a l = cur" "flog_next m a l = n"
    by (simp_all add: flog_cur_def flog_next_def)
  show "unat (flog_lba cur) < unat (a_external_nlba a)"
    using assms unfolding flog_pair_at_def by blast
qed

lemma flog_cur_lba_less: "flog_pair_wf m a l \<Longrightarrow> unat (flog_lba (flog_cur m a l)) < unat (a_external_nlba a)"
  by (auto simp: flog_pair_wf_iff dest: flog_pair_atD)

section \<open>Memories that agree on the metadata\<close>

text \<open>The map and flog area of an arena, and memories that agree on it.\<close>

definition meta_eq :: "mem \<Rightarrow> mem \<Rightarrow> arena \<Rightarrow> nat \<Rightarrow> bool" where
  "meta_eq m m' a nf \<longleftrightarrow>
     (\<forall>x. unat (a_mapoff a) \<le> x \<and> x < unat (a_flogoff a) + 64 * nf \<longrightarrow> m' x = m x)"

lemma meta_eq_rd:
  "meta_eq m m' a nf \<Longrightarrow> unat (a_mapoff a) \<le> x \<Longrightarrow> x + n \<le> unat (a_flogoff a) + 64 * nf \<Longrightarrow>
   rd m' x n = rd m x n"
  by (rule rd_eqI) (auto simp: meta_eq_def)

lemma map_raw_cong:
  assumes "arena_geom sz nf lbs a" "meta_eq m m' a nf" "i < unat (a_external_nlba a)"
  shows "map_raw m' a i = map_raw m a i"
proof -
  have "rd m' (map_addr a i) 4 = rd m (map_addr a i) 4"
    using arena_geomD(3) [OF assms(1)] assms(3)
    by (intro meta_eq_rd [OF assms(2)]) (simp_all add: map_addr_def)
  then show ?thesis by (simp add: map_raw_def)
qed

lemma flog_at_cong:
  assumes "arena_geom sz nf lbs a" "meta_eq m m' a nf" "l < nf" "k \<le> 1"
  shows "flog_at m' (flog_addr a l + 16 * k) = flog_at m (flog_addr a l + 16 * k)"
proof -
  have "rd m' (flog_addr a l + 16 * k) 16 = rd m (flog_addr a l + 16 * k) 16"
    using arena_geomD(3) [OF assms(1)] assms(3,4)
    by (intro meta_eq_rd [OF assms(2)]) (simp_all add: flog_addr_def)
  then show ?thesis by (simp add: flog_at_def)
qed

lemma find_cong': "(\<And>x. x \<in> set xs \<Longrightarrow> P x = Q x) \<Longrightarrow> find P xs = find Q xs"
  by (induction xs) auto

text \<open>
  A weaker relation: the same map and, lane by lane, the same valid flog entry.
  It is enough for everything the invariant speaks about.
\<close>

definition meta_sim :: "mem \<Rightarrow> mem \<Rightarrow> arena \<Rightarrow> nat \<Rightarrow> bool" where
  "meta_sim m m' a nf \<longleftrightarrow>
     (\<forall>i < unat (a_external_nlba a). map_raw m' a i = map_raw m a i) \<and>
     (\<forall>l < nf. flog_pair_wf m a l \<and> flog_pair_wf m' a l \<and>
        btt_flog_get_valid (flog_fst m' a l) (flog_snd m' a l) =
        btt_flog_get_valid (flog_fst m a l) (flog_snd m a l))"

lemma meta_simI:
  assumes "arena_geom sz nf lbs a" "meta_eq m m' a nf" "\<forall>l < nf. flog_pair_wf m a l"
  shows "meta_sim m m' a nf"
proof -
  have "flog_fst m' a l = flog_fst m a l \<and> flog_snd m' a l = flog_snd m a l" if "l < nf" for l
    using flog_at_cong [OF assms(1,2) that, of 0] flog_at_cong [OF assms(1,2) that, of 1]
    by (simp add: flog_fst_def flog_snd_def)
  with assms show ?thesis
    by (auto simp: meta_sim_def map_raw_cong flog_pair_wf_def)
qed

lemma meta_sim_cur: "meta_sim m m' a nf \<Longrightarrow> l < nf \<Longrightarrow> flog_cur m' a l = flog_cur m a l"
  by (simp add: meta_sim_def flog_cur_def)

lemma meta_sim_pending:
  assumes "meta_sim m m' a nf" "l < nf"
  shows "pending m' a l = pending m a l"
proof -
  have "unat (flog_lba (flog_cur m a l)) < unat (a_external_nlba a)"
    using assms by (auto simp: meta_sim_def intro: flog_cur_lba_less)
  then have "map_raw m' a (unat (flog_lba (flog_cur m a l))) = map_raw m a (unat (flog_lba (flog_cur m a l)))"
    using assms(1) by (simp add: meta_sim_def)
  then show ?thesis using assms by (simp add: pending_def meta_sim_cur)
qed

lemma meta_sim_eff_entry:
  assumes "meta_sim m m' a nf" "i < unat (a_external_nlba a)"
  shows "eff_entry m' a nf i = eff_entry m a nf i"
proof -
  let ?P = "\<lambda>m l. pending m a l \<and> unat (flog_lba (flog_cur m a l)) = i"
  have eq: "find (?P m') [0..<nf] = find (?P m) [0..<nf]"
    using assms(1) by (intro find_cong') (auto simp: meta_sim_pending meta_sim_cur)
  show ?thesis
  proof (cases "find (?P m) [0..<nf]")
    case None
    with eq assms show ?thesis by (simp add: eff_entry_def meta_sim_def)
  next
    case (Some l)
    then have "l < nf" by (auto simp: find_Some_iff)
    with Some eq assms(1) show ?thesis by (simp add: eff_entry_def meta_sim_cur)
  qed
qed

lemma meta_sim_used: "meta_sim m m' a nf \<Longrightarrow> used_blocks m' a nf = used_blocks m a nf"
  by (auto simp: used_blocks_def eff_block_def meta_sim_eff_entry free_block_def meta_sim_cur)

lemma meta_sim_inv: "meta_sim m m' a nf \<Longrightarrow> media_inv m a nf \<Longrightarrow> media_inv m' a nf"
  by (simp add: media_inv_def meta_sim_used meta_sim_pending meta_sim_cur)
    (simp add: meta_sim_def)

lemma meta_sim_block:
  assumes "meta_sim m m' a nf" "i < unat (a_external_nlba a)"
    and "unat (a_external_nlba a) \<le> 2 ^ 30"
    and "rd m' (data_addr a (eff_block m a nf i)) lbs = rd m (data_addr a (eff_block m a nf i)) lbs"
  shows "block_at lbs m' a nf i = block_at lbs m a nf i"
proof (cases "map_entry_is_initial (eff_entry m a nf i)")
  case True
  then have "map_entry_is_zero_or_initial (eff_entry m a nf i)"
    by (simp add: map_entry_is_initial_def map_entry_is_zero_or_initial_def)
  with assms(1,2) show ?thesis
    by (simp add: block_at_def block_of_entry_def meta_sim_eff_entry)
next
  case False
  then have "eff_block m a nf i = entry_block (eff_entry m a nf i)"
    by (simp add: eff_block_def norm_entry_def)
  with assms(1,2,4) show ?thesis
    by (simp add: block_at_def block_of_entry_def meta_sim_eff_entry)
qed

lemma meta_sim_runtime: "meta_sim m m' a nf \<Longrightarrow> runtime_ok m a nf \<Longrightarrow> runtime_ok m' a nf"
  by (simp add: runtime_ok_def meta_sim_pending) (simp add: meta_sim_def)

section \<open>The effective map\<close>

lemma eff_entry_raw:
  "(\<And>l. l < nf \<Longrightarrow> pending m a l \<Longrightarrow> unat (flog_lba (flog_cur m a l)) \<noteq> i) \<Longrightarrow>
   eff_entry m a nf i = map_raw m a i"
proof -
  assume "\<And>l. l < nf \<Longrightarrow> pending m a l \<Longrightarrow> unat (flog_lba (flog_cur m a l)) \<noteq> i"
  then have "find (\<lambda>l. pending m a l \<and> unat (flog_lba (flog_cur m a l)) = i) [0..<nf] = None"
    by (auto simp: find_None_iff)
  then show ?thesis by (simp add: eff_entry_def)
qed

lemma eff_entry_pending:
  assumes "l < nf" "pending m a l"
    and "\<And>k. k < nf \<Longrightarrow> pending m a k \<Longrightarrow>
      unat (flog_lba (flog_cur m a k)) = unat (flog_lba (flog_cur m a l)) \<Longrightarrow> k = l"
  shows "eff_entry m a nf (unat (flog_lba (flog_cur m a l))) = flog_new_map (flog_cur m a l)"
proof -
  let ?P = "\<lambda>k. pending m a k \<and> unat (flog_lba (flog_cur m a k)) = unat (flog_lba (flog_cur m a l))"
  obtain k where k: "find ?P [0..<nf] = Some k"
    using assms(1,2) by (cases "find ?P [0..<nf]") (auto simp: find_None_iff)
  then have "k < nf" "?P k" by (auto simp: find_Some_iff)
  with assms(3) have "k = l" by blast
  with k show ?thesis by (simp add: eff_entry_def)
qed

lemma distinct_used_iff:
  "distinct (used_blocks m a nf) \<longleftrightarrow>
     inj_on (eff_block m a nf) {0..<unat (a_external_nlba a)} \<and> inj_on (free_block m a) {0..<nf} \<and>
     (\<forall>i < unat (a_external_nlba a). \<forall>l < nf. eff_block m a nf i \<noteq> free_block m a l)"
proof -
  have "(set (map f [0..<x]) \<inter> set (map g [0..<y]) = {}) = (\<forall>i < x. \<forall>l < y. f i \<noteq> g l)"
    for f g :: "nat \<Rightarrow> nat" and x y
    by (auto simp: disjoint_iff_not_equal)
  then show ?thesis
    by (simp only: used_blocks_def distinct_append distinct_map distinct_upt set_upt simp_thms)
qed

lemma set_used_iff:
  "set (used_blocks m a nf) \<subseteq> {0..<n} \<longleftrightarrow>
     (\<forall>i < unat (a_external_nlba a). eff_block m a nf i < n) \<and> (\<forall>l < nf. free_block m a l < n)"
  unfolding used_blocks_def set_append set_map set_upt Un_subset_iff image_subset_iff
  by auto

lemma used_blocksD:
  assumes "media_inv m a nf"
  shows "i < unat (a_external_nlba a) \<Longrightarrow> eff_block m a nf i < unat (a_internal_nlba a)"
    and "l < nf \<Longrightarrow> free_block m a l < unat (a_internal_nlba a)"
    and "i < unat (a_external_nlba a) \<Longrightarrow> l < nf \<Longrightarrow> eff_block m a nf i \<noteq> free_block m a l"
    and "i < unat (a_external_nlba a) \<Longrightarrow> j < unat (a_external_nlba a) \<Longrightarrow>
      eff_block m a nf i = eff_block m a nf j \<Longrightarrow> i = j"
    and "l < nf \<Longrightarrow> k < nf \<Longrightarrow> free_block m a l = free_block m a k \<Longrightarrow> l = k"
proof -
  note d = assms [unfolded media_inv_def distinct_used_iff set_used_iff]
  show "i < unat (a_external_nlba a) \<Longrightarrow> eff_block m a nf i < unat (a_internal_nlba a)"
    "l < nf \<Longrightarrow> free_block m a l < unat (a_internal_nlba a)"
    "i < unat (a_external_nlba a) \<Longrightarrow> l < nf \<Longrightarrow> eff_block m a nf i \<noteq> free_block m a l"
    using d by blast+
  show "i < unat (a_external_nlba a) \<Longrightarrow> j < unat (a_external_nlba a) \<Longrightarrow>
      eff_block m a nf i = eff_block m a nf j \<Longrightarrow> i = j"
    using d by (meson inj_onD atLeastLessThan_iff zero_le)
  show "l < nf \<Longrightarrow> k < nf \<Longrightarrow> free_block m a l = free_block m a k \<Longrightarrow> l = k"
    using d by (meson inj_onD atLeastLessThan_iff zero_le)
qed

text \<open>Two lanes never have updates of the same map entry pending.\<close>

lemma pending_unique:
  assumes "media_inv m a nf" "unat (a_external_nlba a) \<le> 2 ^ 30"
    and "l < nf" "k < nf" "pending m a l" "pending m a k"
    and "unat (flog_lba (flog_cur m a l)) = unat (flog_lba (flog_cur m a k))"
  shows "l = k"
proof -
  have "flog_lba (flog_cur m a l) = flog_lba (flog_cur m a k)"
    using assms(7) by (simp add: word_unat_eq_iff)
  then have "free_block m a l = free_block m a k"
    using assms(5,6) by (simp add: free_block_def pending_def Let_def)
  with used_blocksD(5) [OF assms(1)] assms(3,4) show ?thesis by blast
qed


section \<open>The stores of a block write\<close>

lemma flog_at_wr_first [mem_simps]:
  "flog_at (wr m x (le32 p @ le32 q)) x = (flog_at m x)\<lparr>flog_lba := p, flog_old_map := q\<rparr>"
proof -
  have "rd (wr m x (le32 p @ le32 q)) x (8 + 8) = (le32 p @ le32 q) @ rd m (x + 8) 8"
    unfolding rd_append by (simp add: mem_simps disjoint_ranges_def)
  moreover have "rd m x (8 + 8) = rd m x 8 @ rd m (x + 8) 8" by (rule rd_append)
  ultimately show ?thesis
    by (simp add: flog_at_def btt_flog_convert2h_def field_def take_rd drop_rd)
qed

lemma flog_at_wr_second [mem_simps]:
  "flog_at (wr m (x + 8) (le32 p @ le32 q)) x = (flog_at m x)\<lparr>flog_new_map := p, flog_seq := q\<rparr>"
proof -
  have "rd (wr m (x + 8) (le32 p @ le32 q)) x (8 + 8) = rd m x 8 @ (le32 p @ le32 q)"
    unfolding rd_append by (simp add: mem_simps disjoint_ranges_def)
  moreover have "rd m x (8 + 8) = rd m x 8 @ rd m (x + 8) 8" by (rule rd_append)
  ultimately show ?thesis
    by (simp add: flog_at_def btt_flog_convert2h_def field_def take_rd drop_rd)
qed

lemma flog_at_wr_disjoint:
  "disjoint_ranges off (length bs) x 16 \<Longrightarrow> flog_at (wr m off bs) x = flog_at m x"
  by (simp add: flog_at_def mem_simps)

lemma map_raw_wr_disjoint:
  "disjoint_ranges off (length bs) (map_addr a i) 4 \<Longrightarrow> map_raw (wr m off bs) a i = map_raw m a i"
  by (simp add: map_raw_def mem_simps)

lemma map_raw_wr_same: "map_raw (wr m (map_addr a i) (le32 e)) a i = e"
  by (simp add: map_raw_def mem_simps)

lemma map_raw_wr_other:
  "i \<noteq> j \<Longrightarrow> map_raw (wr m (map_addr a i) (le32 e)) a j = map_raw m a j"
  by (rule map_raw_wr_disjoint) (auto simp: disjoint_ranges_def map_addr_def)

text \<open>An 8-byte store into the flog of lane \<open>l\<close> touches nothing else.\<close>

lemma flog_store_frame:
  fixes m :: mem
  assumes "arena_geom sz nf lbs a" "l < nf" "k \<le> 1" "d \<le> 8" "length bs = 8"
  defines "m' \<equiv> wr m (flog_addr a l + 16 * k + d) bs"
  shows "i < unat (a_external_nlba a) \<Longrightarrow> map_raw m' a i = map_raw m a i"
    and "l' < nf \<Longrightarrow> k' \<le> 1 \<Longrightarrow> l' \<noteq> l \<or> k' \<noteq> k \<Longrightarrow>
      flog_at m' (flog_addr a l' + 16 * k') = flog_at m (flog_addr a l' + 16 * k')"
    and "j < unat (a_internal_nlba a) \<Longrightarrow> rd m' (data_addr a j) lbs = rd m (data_addr a j) lbs"
proof -
  note g = arena_geomD [OF assms(1)]
  show "map_raw m' a i = map_raw m a i" if "i < unat (a_external_nlba a)"
    unfolding m'_def
    by (rule map_raw_wr_disjoint)
      (use that g(3) assms(5) in \<open>simp add: disjoint_ranges_def map_addr_def flog_addr_def\<close>)
  show "flog_at m' (flog_addr a l' + 16 * k') = flog_at m (flog_addr a l' + 16 * k')"
    if "l' < nf" "k' \<le> 1" "l' \<noteq> l \<or> k' \<noteq> k"
  proof -
    have "disjoint_ranges (flog_addr a l + 16 * k + d) 8 (flog_addr a l' + 16 * k') 16"
      using that assms(3,4) unfolding disjoint_ranges_def flog_addr_def
      by (cases l l' rule: linorder_cases; cases k k' rule: linorder_cases) auto
    then show ?thesis unfolding m'_def by (intro flog_at_wr_disjoint) (simp add: assms(5))
  qed
  show "rd m' (data_addr a j) lbs = rd m (data_addr a j) lbs" if "j < unat (a_internal_nlba a)"
    unfolding m'_def
    by (rule rd_wr_disjoint)
      (use block_end_le [OF assms(1) that] g(3) assms(5) in \<open>simp add: disjoint_ranges_def flog_addr_def\<close>)
qed

text \<open>Step 1: data stored into the free block of a lane is invisible.\<close>

lemma data_store_sim:
  assumes "arena_geom sz nf lbs a" "media_inv m a nf" "l < nf"
    and "\<And>x. x < data_addr a (free_block m a l) \<or> data_addr a (free_block m a l) + lbs \<le> x \<Longrightarrow> m' x = m x"
  shows "meta_sim m m' a nf"
    and "i < unat (a_external_nlba a) \<Longrightarrow> block_at lbs m' a nf i = block_at lbs m a nf i"
proof -
  note g = arena_geomD [OF assms(1)]
  have "free_block m a l < unat (a_internal_nlba a)"
    using used_blocksD(2) [OF assms(2,3)] .
  then have "data_addr a (free_block m a l) + lbs \<le> unat (a_mapoff a)"
    by (rule block_end_le [OF assms(1)])
  then have "meta_eq m m' a nf" using assms(4) by (auto simp: meta_eq_def)
  then show sim: "meta_sim m m' a nf"
    using assms(2) by (intro meta_simI [OF assms(1)]) (auto simp: media_inv_def)
  show "block_at lbs m' a nf i = block_at lbs m a nf i" if i: "i < unat (a_external_nlba a)"
  proof (rule meta_sim_block [OF sim i])
    show "unat (a_external_nlba a) \<le> 2 ^ 30" using g(6,7) by linarith
    have "disjoint_ranges (data_addr a (free_block m a l)) lbs (data_addr a (eff_block m a nf i)) lbs"
      using used_blocksD(3) [OF assms(2) i assms(3)] by (intro data_blocks_disjoint [OF assms(1)]) simp
    then show "rd m' (data_addr a (eff_block m a nf i)) lbs = rd m (data_addr a (eff_block m a nf i)) lbs"
      by (intro rd_eqI assms(4)) (auto simp: disjoint_ranges_def)
  qed
qed

text \<open>Step 2: the first half of the flog entry that is not current.\<close>

lemma flog_first_store_sim:
  fixes q :: u32
  assumes "arena_geom sz nf lbs a" "media_inv m a nf" "l < nf"
    and "unat p < unat (a_external_nlba a)"
  defines "m' \<equiv> wr m (flog_addr a l + 16 * flog_next m a l) (le32 p @ le32 q)"
  shows "meta_sim m m' a nf"
    and "i < unat (a_external_nlba a) \<Longrightarrow> block_at lbs m' a nf i = block_at lbs m a nf i"
proof -
  note g = arena_geomD [OF assms(1)]
  obtain n cur oth where pair: "flog_pair_at m a l n cur oth"
    using assms(2,3) by (auto simp: media_inv_def flog_pair_wf_iff)
  note pd = flog_pair_atD [OF pair]
  have n: "n \<le> 1" using pair by (auto simp: flog_pair_at_def)
  have m': "m' = wr m (flog_addr a l + 16 * n + 0) (le32 p @ le32 q)"
    by (simp add: m'_def pd(3))
  note fr = flog_store_frame [OF assms(1,3) n, where d = 0 and bs = "le32 p @ le32 q" and m = m,
      simplified, folded m' [simplified]]
  have oth': "flog_at m' (flog_addr a l + 16 * n) = oth\<lparr>flog_lba := p, flog_old_map := q\<rparr>"
    using pair by (simp add: m' flog_pair_at_def mem_simps)
  have cur': "flog_at m' (flog_addr a l + 16 * (1 - n)) = cur"
    using fr(2) [of l "1 - n"] assms(3) pair by (auto simp: flog_pair_at_def)
  have "flog_pair_at m' a l n cur (oth\<lparr>flog_lba := p, flog_old_map := q\<rparr>)"
    using pair assms(4) oth' cur' unfolding flog_pair_at_def by auto
  note pd' = flog_pair_atD [OF this] this
  have other: "flog_fst m' a k = flog_fst m a k \<and> flog_snd m' a k = flog_snd m a k" if "k < nf" "k \<noteq> l" for k
    using fr(2) [of k 0] fr(2) [of k 1] that by (simp add: flog_fst_def flog_snd_def)
  have wf: "flog_pair_wf m a k" if "k < nf" for k
    using assms(2) that by (simp add: media_inv_def)
  show sim: "meta_sim m m' a nf"
    unfolding meta_sim_def
  proof (intro conjI allI impI)
    fix k
    assume k: "k < nf"
    show "flog_pair_wf m a k" using wf k .
    show "flog_pair_wf m' a k"
    proof (cases "k = l")
      case True
      then show ?thesis using pd'(5) by (auto simp: flog_pair_wf_iff)
    next
      case False
      then show ?thesis using wf [OF k] other [OF k] by (simp add: flog_pair_wf_def)
    qed
    show "btt_flog_get_valid (flog_fst m' a k) (flog_snd m' a k) =
        btt_flog_get_valid (flog_fst m a k) (flog_snd m a k)"
      using other [OF k] pd(1) pd'(1) by (cases "k = l") auto
  qed (rule fr(1))
  show "block_at lbs m' a nf i = block_at lbs m a nf i" if i: "i < unat (a_external_nlba a)"
    by (rule meta_sim_block [OF sim i])
      (use g(6,7) used_blocksD(1) [OF assms(2) i] in \<open>auto intro: fr(3)\<close>)
qed

end
