(* ===== verification/Btt_Steps.thy ===== *)
theory Btt_Steps
  imports Btt_Media
begin

text \<open>
  The two stores that publish a block write: the second half of the flog entry
  (from then on the write is done as far as recovery is concerned) and the map
  entry.  The map store is also the recovery step of \<open>read_flog_pair\<close> and the
  only store of \<open>btt_set_zero\<close> and \<open>btt_set_error\<close>.
\<close>

definition quiescent :: "mem \<Rightarrow> arena \<Rightarrow> nat \<Rightarrow> bool" where
  "quiescent m a nf \<longleftrightarrow> (\<forall>l < nf. \<not> pending m a l)"

lemma quiescent_eff [simp]: "quiescent m a nf \<Longrightarrow> eff_entry m a nf i = map_raw m a i"
  by (rule eff_entry_raw) (auto simp: quiescent_def)

lemma quiescent_eff_block: "quiescent m a nf \<Longrightarrow> eff_block m a nf i = entry_block (norm_entry (of_nat i) (map_raw m a i))"
  by (simp add: eff_block_def)

lemma runtime_quiescent: "runtime_ok m a nf \<Longrightarrow> quiescent m a nf"
  by (simp add: runtime_ok_def quiescent_def)

lemma meta_sim_quiescent: "meta_sim m m' a nf \<Longrightarrow> quiescent m a nf \<Longrightarrow> quiescent m' a nf"
  by (simp add: quiescent_def meta_sim_pending)

text \<open>Exchanging one value between two injective functions with disjoint ranges.\<close>

lemma exchange_inj:
  fixes f g f' g' :: "nat \<Rightarrow> nat"
  assumes "inj_on f {0..<x}" "inj_on g {0..<y}" "\<forall>i < x. \<forall>k < y. f i \<noteq> g k" "p < x" "l < y"
    and "f' p = g l" "g' l = f p"
    and "\<And>i. i < x \<Longrightarrow> i \<noteq> p \<Longrightarrow> f' i = f i" "\<And>k. k < y \<Longrightarrow> k \<noteq> l \<Longrightarrow> g' k = g k"
  shows "inj_on f' {0..<x}" "inj_on g' {0..<y}" "\<forall>i < x. \<forall>k < y. f' i \<noteq> g' k"
proof -
  have f: "f i = f j \<Longrightarrow> i < x \<Longrightarrow> j < x \<Longrightarrow> i = j" for i j
    using assms(1) by (auto simp: inj_on_def)
  have g: "g i = g j \<Longrightarrow> i < y \<Longrightarrow> j < y \<Longrightarrow> i = j" for i j
    using assms(2) by (auto simp: inj_on_def)
  have f': "f' i = (if i = p then g l else f i)" if "i < x" for i using assms that by auto
  have g': "g' k = (if k = l then f p else g k)" if "k < y" for k using assms that by auto
  show "inj_on f' {0..<x}"
  proof (rule inj_onI)
    fix i j
    assume "i \<in> {0..<x}" "j \<in> {0..<x}" "f' i = f' j"
    then show "i = j" using f [of i j] f' assms(3,5) by (auto split: if_splits) metis
  qed
  show "inj_on g' {0..<y}"
  proof (rule inj_onI)
    fix i j
    assume "i \<in> {0..<y}" "j \<in> {0..<y}" "g' i = g' j"
    then show "i = j" using g [of i j] g' assms(3,4) by (auto split: if_splits) metis
  qed
  show "\<forall>i < x. \<forall>k < y. f' i \<noteq> g' k"
  proof (intro allI impI)
    fix i k
    assume "i < x" "k < y"
    then show "f' i \<noteq> g' k"
      using f' g' f [of i p] g [of l k] assms(3-5) by auto metis
  qed
qed

section \<open>The second flog store\<close>

lemma flog_second_store:
  fixes m :: mem
  assumes geom: "arena_geom sz nf lbs a" and inv: "media_inv m a nf" and q: "quiescent m a nf"
    and l: "l < nf" and p: "unat p < unat (a_external_nlba a)"
    and pair: "flog_pair_at m a l n cur oth"
    and oth: "flog_lba oth = p" "flog_old_map oth = norm_entry p (map_raw m a (unat p))"
  defines "new \<equiv> normal_entry (flog_old_map cur)"
  defines "m' \<equiv> wr m (flog_addr a l + 16 * n + 8) (le32 new @ le32 (NSEQ (flog_seq cur)))"
  defines "fresh \<equiv> oth\<lparr>flog_new_map := new, flog_seq := NSEQ (flog_seq cur)\<rparr>"
  shows "flog_pair_at m' a l (1 - n) fresh cur"
    and "pending m' a l" and "\<And>k. k < nf \<Longrightarrow> k \<noteq> l \<Longrightarrow> \<not> pending m' a k"
    and "media_inv m' a nf"
    and "\<And>i. i < unat (a_external_nlba a) \<Longrightarrow>
      block_at lbs m' a nf i =
        (if i = unat p then DataBlock (rd m (data_addr a (free_block m a l)) lbs)
         else block_at lbs m a nf i)"
proof -
  note g = arena_geomD [OF geom]
  note pd = flog_pair_atD [OF pair]
  have n: "n \<le> 1" "n = 0 \<or> n = 1" using pair by (auto simp: flog_pair_at_def)
  note fr = flog_store_frame [OF geom l n(1), where d = 8 and m = m
      and bs = "le32 new @ le32 (NSEQ (flog_seq cur))", simplified, folded m'_def]
  have seqs: "seq_pair_ok (flog_seq cur) (flog_seq oth)" "unat (flog_lba oth) < unat (a_external_nlba a)"
    "unat (flog_lba cur) < unat (a_external_nlba a)"
    "oth = flog_at m (flog_addr a l + 16 * n)" "cur = flog_at m (flog_addr a l + 16 * (1 - n))"
    using pair by (auto simp: flog_pair_at_def)
  have fresh': "flog_at m' (flog_addr a l + 16 * n) = fresh"
    by (simp add: m'_def fresh_def seqs(4) mem_simps)
  have cur': "flog_at m' (flog_addr a l + 16 * (1 - n)) = cur"
    using fr(2) [of l "1 - n"] l n seqs(5) by auto
  have pair': "flog_pair_at m' a l (1 - n) fresh cur"
    using fresh' cur' seqs n NSEQ_in [of "flog_seq cur"]
    by (auto simp: flog_pair_at_def fresh_def seq_pair_ok_def)
  then show "flog_pair_at m' a l (1 - n) fresh cur" .
  note pd' = flog_pair_atD [OF pair']
  have other: "flog_fst m' a k = flog_fst m a k" "flog_snd m' a k = flog_snd m a k"
    "flog_cur m' a k = flog_cur m a k" if "k < nf" "k \<noteq> l" for k
    using fr(2) [of k 0] fr(2) [of k 1] that by (simp_all add: flog_fst_def flog_snd_def flog_cur_def)
  have wf: "flog_pair_wf m a k" if "k < nf" for k using inv that by (simp add: media_inv_def)
  have wf': "flog_pair_wf m' a k" if "k < nf" for k
  proof (cases "k = l")
    case True
    with pair' show ?thesis unfolding flog_pair_wf_iff by blast
  next
    case False
    with wf [OF that] other [OF that] show ?thesis by (simp add: flog_pair_wf_def)
  qed
  have p30: "unat p < 2 ^ 30" using p g(6,7) by linarith
  have ofp: "of_nat (unat p) = p" by simp
  have old: "entry_block (flog_old_map oth) = eff_block m a nf (unat p)"
    by (simp add: oth quiescent_eff_block [OF q])
  have newb: "entry_block new = free_block m a l"
    by (simp add: new_def free_block_def pd(2))
  have neq: "flog_old_map oth \<noteq> new"
    using used_blocksD(3) [OF inv p l] old newb by auto
  have raw: "map_raw m' a i = map_raw m a i" if "i < unat (a_external_nlba a)" for i
    using fr(1) that .
  show pend: "pending m' a l"
    using neq oth raw [OF p] by (auto simp: pending_def pd'(2) fresh_def)
  show npend: "\<not> pending m' a k" if "k < nf" "k \<noteq> l" for k
    using q that flog_cur_lba_less [OF wf [OF that(1)]]
    by (simp add: quiescent_def pending_def other raw)
  have effp: "eff_entry m' a nf (unat p) = new"
    using eff_entry_pending [OF l pend] npend by (auto simp: pd'(2) fresh_def oth)
  have effi: "eff_entry m' a nf i = eff_entry m a nf i" if "i < unat (a_external_nlba a)" "i \<noteq> unat p" for i
  proof -
    have "eff_entry m' a nf i = map_raw m' a i"
    proof (rule eff_entry_raw)
      fix k
      assume "k < nf" "pending m' a k"
      with npend have "k = l" by blast
      with that(2) show "unat (flog_lba (flog_cur m' a k)) \<noteq> i"
        by (simp add: pd'(2) fresh_def oth)
    qed
    with that(1) q show ?thesis by (simp add: raw)
  qed
  have blkp: "eff_block m' a nf (unat p) = free_block m a l"
    unfolding eff_block_def effp using newb by (simp add: new_def)
  have blki: "eff_block m' a nf i = eff_block m a nf i" if "i < unat (a_external_nlba a)" "i \<noteq> unat p" for i
    using effi [OF that] by (simp add: eff_block_def)
  have freel: "free_block m' a l = eff_block m a nf (unat p)"
    using old by (simp add: free_block_def pd'(2) fresh_def)
  have freek: "free_block m' a k = free_block m a k" if "k < nf" "k \<noteq> l" for k
    using other(3) [OF that] by (simp add: free_block_def)
  note d = inv [unfolded media_inv_def distinct_used_iff set_used_iff]
  have "distinct (used_blocks m' a nf)"
    unfolding distinct_used_iff
    using exchange_inj [where f = "eff_block m a nf" and g = "free_block m a" and
        f' = "eff_block m' a nf" and g' = "free_block m' a", OF _ _ _ p l blkp freel blki freek] d
    by blast
  moreover have "set (used_blocks m' a nf) \<subseteq> {0..<unat (a_internal_nlba a)}"
    unfolding set_used_iff
  proof (intro conjI allI impI)
    fix i assume "i < unat (a_external_nlba a)"
    then show "eff_block m' a nf i < unat (a_internal_nlba a)"
      using blkp blki d l by (cases "i = unat p") auto
  next
    fix k assume "k < nf"
    then show "free_block m' a k < unat (a_internal_nlba a)"
      using freel freek d p by (cases "k = l") auto
  qed
  moreover have "\<exists>e. flog_new_map (flog_cur m' a k) = normal_entry e" if "k < nf" "pending m' a k" for k
    using npend that by (cases "k = l") (auto simp: pd'(2) fresh_def new_def)
  ultimately show "media_inv m' a nf"
    using wf' by (simp add: media_inv_def)
  show "block_at lbs m' a nf i =
      (if i = unat p then DataBlock (rd m (data_addr a (free_block m a l)) lbs)
       else block_at lbs m a nf i)" if i: "i < unat (a_external_nlba a)" for i
  proof (cases "i = unat p")
    case True
    have "rd m' (data_addr a (free_block m a l)) lbs = rd m (data_addr a (free_block m a l)) lbs"
      by (rule fr(3)) (use used_blocksD(2) [OF inv l] in simp)
    with True effp newb show ?thesis
      by (simp add: block_at_def block_of_entry_def new_def)
  next
    case False
    have "rd m' (data_addr a (eff_block m a nf i)) lbs = rd m (data_addr a (eff_block m a nf i)) lbs"
      by (rule fr(3)) (use used_blocksD(1) [OF inv i] in simp)
    moreover have "eff_block m a nf i = entry_block (eff_entry m a nf i)"
      if "\<not> map_entry_is_zero_or_initial (eff_entry m a nf i)"
      using that by (auto simp: eff_block_def norm_entry_def map_entry_is_initial_def
          map_entry_is_zero_or_initial_def)
    ultimately show ?thesis
      using effi [OF i False] False by (auto simp: block_at_def block_of_entry_def)
  qed
qed


section \<open>The map store\<close>

text \<open>A store of a map entry leaves the flogs, the other entries and the data alone.\<close>

lemma map_store_frame:
  fixes m :: mem and e :: u32
  assumes geom: "arena_geom sz nf lbs a" and p: "p < unat (a_external_nlba a)"
  defines "m' \<equiv> wr m (map_addr a p) (le32 e)"
  shows "map_raw m' a i = (if i = p then e else map_raw m a i)"
    and "l < nf \<Longrightarrow> flog_fst m' a l = flog_fst m a l" "l < nf \<Longrightarrow> flog_snd m' a l = flog_snd m a l"
    and "l < nf \<Longrightarrow> flog_cur m' a l = flog_cur m a l"
    and "l < nf \<Longrightarrow> flog_pair_wf m' a l = flog_pair_wf m a l"
    and "l < nf \<Longrightarrow> free_block m' a l = free_block m a l"
    and "j < unat (a_internal_nlba a) \<Longrightarrow> rd m' (data_addr a j) lbs = rd m (data_addr a j) lbs"
proof -
  note g = arena_geomD [OF geom]
  show "map_raw m' a i = (if i = p then e else map_raw m a i)"
    by (simp add: m'_def map_raw_wr_same map_raw_wr_other)
  have at: "flog_at m' (flog_addr a l + 16 * k) = flog_at m (flog_addr a l + 16 * k)" for k
    unfolding m'_def
    by (rule flog_at_wr_disjoint)
      (use p g(3) in \<open>simp add: disjoint_ranges_def map_addr_def flog_addr_def\<close>)
  from at [of 0] at [of 1]
  show f: "flog_fst m' a l = flog_fst m a l" "flog_snd m' a l = flog_snd m a l"
    by (simp_all add: flog_fst_def flog_snd_def)
  then show c: "flog_cur m' a l = flog_cur m a l" "flog_pair_wf m' a l = flog_pair_wf m a l"
    by (simp_all add: flog_cur_def flog_pair_wf_def)
  then show "free_block m' a l = free_block m a l" by (simp add: free_block_def)
  show "rd m' (data_addr a j) lbs = rd m (data_addr a j) lbs" if "j < unat (a_internal_nlba a)"
    unfolding m'_def
    by (rule rd_wr_disjoint)
      (use block_end_le [OF geom that] p in \<open>simp add: disjoint_ranges_def map_addr_def\<close>)
qed

text \<open>
  Completing the pending update of lane \<open>l\<close> changes neither the effective map
  nor any block; the other lanes keep their pending updates.
\<close>

lemma complete_pending:
  fixes m :: mem
  assumes geom: "arena_geom sz nf lbs a" and inv: "media_inv m a nf" and l: "l < nf"
    and pend: "pending m a l"
  defines "f \<equiv> flog_cur m a l"
  defines "m' \<equiv> wr m (map_addr a (unat (flog_lba f))) (le32 (flog_new_map f))"
  shows "media_inv m' a nf"
    and "\<And>k. k < nf \<Longrightarrow> pending m' a k \<longleftrightarrow> k \<noteq> l \<and> pending m a k"
    and "\<And>i. i < unat (a_external_nlba a) \<Longrightarrow> block_at lbs m' a nf i = block_at lbs m a nf i"
    and "\<And>k. k < nf \<Longrightarrow> flog_fst m' a k = flog_fst m a k \<and> flog_snd m' a k = flog_snd m a k"
proof -
  note g = arena_geomD [OF geom]
  let ?p = "unat (flog_lba f)"
  have wf: "flog_pair_wf m a k" if "k < nf" for k using inv that by (simp add: media_inv_def)
  have p: "?p < unat (a_external_nlba a)" unfolding f_def by (rule flog_cur_lba_less [OF wf [OF l]])
  note fr = map_store_frame [OF geom p, where m = m and e = "flog_new_map f", folded m'_def]
  obtain e where e: "flog_new_map f = normal_entry e"
    using inv l pend by (auto simp: media_inv_def f_def)
  have uniq: "k = l" if "k < nf" "pending m a k" "unat (flog_lba (flog_cur m a k)) = ?p" for k
    using pending_unique [OF inv _ that(1) l that(2) pend] that(3) g(6,7) by (simp add: f_def)
  have effp: "eff_entry m a nf ?p = flog_new_map f"
    unfolding f_def by (rule eff_entry_pending [OF l pend]) (use uniq in \<open>auto simp: f_def\<close>)
  have blkp: "eff_block m a nf ?p = entry_block (flog_new_map f)"
    by (simp add: eff_block_def effp e)
  show pend': "pending m' a k \<longleftrightarrow> k \<noteq> l \<and> pending m a k" if k: "k < nf" for k
  proof (cases "unat (flog_lba (flog_cur m a k)) = ?p")
    case True
    have "flog_old_map (flog_cur m a k) \<noteq> flog_new_map f"
      using used_blocksD(3) [OF inv p k] blkp by (auto simp: free_block_def)
    then have "\<not> pending m' a k"
      by (simp add: pending_def fr(4) [OF k] fr(1) True e)
    then show ?thesis using uniq [OF k _ True] by blast
  next
    case False
    then have "k \<noteq> l" by (auto simp: f_def)
    with False show ?thesis by (simp add: pending_def fr(4) [OF k] fr(1))
  qed
  have eff: "eff_entry m' a nf i = eff_entry m a nf i" if i: "i < unat (a_external_nlba a)" for i
  proof (cases "i = ?p")
    case True
    have "eff_entry m' a nf ?p = map_raw m' a ?p"
      by (rule eff_entry_raw) (use pend' uniq fr(4) in auto)
    with True effp show ?thesis by (simp add: fr(1))
  next
    case False
    have "find (\<lambda>k. pending m' a k \<and> unat (flog_lba (flog_cur m' a k)) = i) [0..<nf] =
        find (\<lambda>k. pending m a k \<and> unat (flog_lba (flog_cur m a k)) = i) [0..<nf]"
      using False by (intro find_cong') (auto simp: pend' fr(4) f_def)
    moreover have "flog_cur m' a k = flog_cur m a k"
      if "find (\<lambda>k. pending m a k \<and> unat (flog_lba (flog_cur m a k)) = i) [0..<nf] = Some k" for k
      using that by (intro fr(4)) (auto simp: find_Some_iff)
    ultimately show ?thesis
      using False by (auto simp: eff_entry_def fr(1) split: option.split)
  qed
  have used: "used_blocks m' a nf = used_blocks m a nf"
    by (auto simp: used_blocks_def eff_block_def eff fr(6))
  show "media_inv m' a nf"
    using inv by (auto simp: media_inv_def used fr(5) pend' fr(4))
  show "block_at lbs m' a nf i = block_at lbs m a nf i" if i: "i < unat (a_external_nlba a)" for i
  proof -
    have "rd m' (data_addr a (eff_block m a nf i)) lbs = rd m (data_addr a (eff_block m a nf i)) lbs"
      by (rule fr(7)) (use used_blocksD(1) [OF inv i] in simp)
    moreover have "eff_block m a nf i = entry_block (eff_entry m a nf i)"
      if "\<not> map_entry_is_zero_or_initial (eff_entry m a nf i)"
      using that by (auto simp: eff_block_def norm_entry_def map_entry_is_initial_def
          map_entry_is_zero_or_initial_def)
    ultimately show ?thesis
      using eff [OF i] by (auto simp: block_at_def block_of_entry_def)
  qed
  show "flog_fst m' a k = flog_fst m a k \<and> flog_snd m' a k = flog_snd m a k" if "k < nf" for k
    using fr(2,3) that by simp
qed

text \<open>
  Replacing a map entry by one of the same block (another state of the block),
  with no update pending.
\<close>

lemma replace_entry:
  fixes m :: mem and e :: u32
  assumes geom: "arena_geom sz nf lbs a" and inv: "media_inv m a nf" and q: "quiescent m a nf"
    and p: "p < unat (a_external_nlba a)"
    and e: "\<not> map_entry_is_initial e" "entry_block e = eff_block m a nf p"
  defines "m' \<equiv> wr m (map_addr a p) (le32 e)"
  shows "media_inv m' a nf" and "quiescent m' a nf"
    and "\<And>i. i < unat (a_external_nlba a) \<Longrightarrow>
      block_at lbs m' a nf i = (if i = p then block_of_entry lbs m a e else block_at lbs m a nf i)"
    and "\<And>k. k < nf \<Longrightarrow> flog_fst m' a k = flog_fst m a k \<and> flog_snd m' a k = flog_snd m a k"
proof -
  note g = arena_geomD [OF geom]
  note fr = map_store_frame [OF geom p, where m = m and e = e, folded m'_def]
  have "\<not> pending m' a k" if k: "k < nf" for k
  proof (cases "unat (flog_lba (flog_cur m a k)) = p")
    case True
    have "flog_old_map (flog_cur m a k) \<noteq> e"
      using used_blocksD(3) [OF inv p k] e(2) by (auto simp: free_block_def)
    then show ?thesis
      by (simp add: pending_def fr(4) [OF k] fr(1) True norm_entry_def e)
  next
    case False
    with q k show ?thesis by (simp add: quiescent_def pending_def fr(4) [OF k] fr(1))
  qed
  then show q': "quiescent m' a nf" by (simp add: quiescent_def)
  have blk: "eff_block m' a nf i = eff_block m a nf i" if "i < unat (a_external_nlba a)" for i
    using q q' e by (cases "i = p") (simp_all add: quiescent_eff_block fr(1) norm_entry_def)
  have used: "used_blocks m' a nf = used_blocks m a nf"
    by (auto simp: used_blocks_def blk fr(6))
  show "media_inv m' a nf"
    using inv q' by (auto simp: media_inv_def used fr(5) quiescent_def)
  show "block_at lbs m' a nf i = (if i = p then block_of_entry lbs m a e else block_at lbs m a nf i)"
    if i: "i < unat (a_external_nlba a)" for i
  proof -
    have data: "rd m' (data_addr a (eff_block m a nf i)) lbs = rd m (data_addr a (eff_block m a nf i)) lbs"
      by (rule fr(7)) (use used_blocksD(1) [OF inv i] in simp)
    moreover have "eff_block m a nf i = entry_block (map_raw m a i)"
      if "\<not> map_entry_is_zero_or_initial (map_raw m a i)"
      using that q by (auto simp: quiescent_eff_block norm_entry_def map_entry_is_initial_def
          map_entry_is_zero_or_initial_def)
    ultimately show ?thesis
      using q q' e by (auto simp: block_at_def block_of_entry_def fr(1))
  qed
  show "flog_fst m' a k = flog_fst m a k \<and> flog_snd m' a k = flog_snd m a k" if "k < nf" for k
    using fr(2,3) that by simp
qed

section \<open>The stages of a block write\<close>

text \<open>
  The media states a block write goes through, from a quiescent arena \<open>m0\<close>: data
  into the free block (\<open>m1\<close>), the two halves of the flog entry (\<open>m2\<close>, \<open>m3\<close>), the
  map entry (\<open>m4\<close>).  The blocks are the old ones up to \<open>m2\<close> and the new ones from
  \<open>m3\<close> on.
\<close>

definition blocks_same :: "nat \<Rightarrow> nat \<Rightarrow> arena \<Rightarrow> mem \<Rightarrow> mem \<Rightarrow> bool" where
  "blocks_same lbs nf a m m' \<longleftrightarrow>
     (\<forall>i < unat (a_external_nlba a). block_at lbs m' a nf i = block_at lbs m a nf i)"

definition blocks_set :: "nat \<Rightarrow> nat \<Rightarrow> arena \<Rightarrow> mem \<Rightarrow> nat \<Rightarrow> block \<Rightarrow> mem \<Rightarrow> bool" where
  "blocks_set lbs nf a m p v m' \<longleftrightarrow>
     (\<forall>i < unat (a_external_nlba a). block_at lbs m' a nf i = (if i = p then v else block_at lbs m a nf i))"

lemma blocks_same_refl [simp]: "blocks_same lbs nf a m m"
  by (simp add: blocks_same_def)

lemma blocks_same_trans: "blocks_same lbs nf a m m' \<Longrightarrow> blocks_same lbs nf a m' m'' \<Longrightarrow> blocks_same lbs nf a m m''"
  by (simp add: blocks_same_def)

lemma blocks_set_same: "blocks_same lbs nf a m m' \<Longrightarrow> blocks_set lbs nf a m' p v m'' \<Longrightarrow> blocks_set lbs nf a m p v m''"
  by (simp add: blocks_same_def blocks_set_def)

lemma blocks_same_set: "blocks_set lbs nf a m p v m' \<Longrightarrow> blocks_same lbs nf a m' m'' \<Longrightarrow> blocks_set lbs nf a m p v m''"
  by (simp add: blocks_same_def blocks_set_def)

lemma flog_pair_at_first:
  assumes "arena_geom sz nf lbs a" "l < nf" "flog_pair_at m a l n cur oth" "unat p < unat (a_external_nlba a)"
  shows "flog_pair_at (wr m (flog_addr a l + 16 * n) (le32 p @ le32 q)) a l n cur
    (oth\<lparr>flog_lba := p, flog_old_map := q\<rparr>)"
proof -
  have n: "n \<le> 1" using assms(3) by (auto simp: flog_pair_at_def)
  have "flog_at (wr m (flog_addr a l + 16 * n + 0) (le32 p @ le32 q)) (flog_addr a l + 16 * (1 - n)) =
      flog_at m (flog_addr a l + 16 * (1 - n))"
    by (rule flog_store_frame(2) [OF assms(1,2) n]) (use assms(2) n in \<open>auto, presburger\<close>)
  moreover have "flog_at (wr m (flog_addr a l + 16 * n) (le32 p @ le32 q)) (flog_addr a l + 16 * n) =
      oth\<lparr>flog_lba := p, flog_old_map := q\<rparr>"
    using assms(3) by (simp add: flog_pair_at_def mem_simps)
  ultimately show ?thesis using assms(3,4) unfolding flog_pair_at_def by auto
qed

lemma stage_data:
  assumes "arena_geom sz nf lbs a" "media_inv m0 a nf" "quiescent m0 a nf" "l < nf"
    and out: "\<forall>x. x < data_addr a (free_block m0 a l) \<or> data_addr a (free_block m0 a l) + lbs \<le> x \<longrightarrow> m1 x = m0 x"
  shows "media_inv m1 a nf" "quiescent m1 a nf" "blocks_same lbs nf a m0 m1"
    and "free_block m1 a l = free_block m0 a l" "runtime_ok m0 a nf \<Longrightarrow> runtime_ok m1 a nf"
proof -
  note ds = data_store_sim [OF assms(1,2,4) out [rule_format]]
  show "media_inv m1 a nf" using ds(1) assms(2) by (rule meta_sim_inv)
  show "quiescent m1 a nf" using ds(1) assms(3) by (rule meta_sim_quiescent)
  show "blocks_same lbs nf a m0 m1" using ds(2) by (simp add: blocks_same_def)
  show "free_block m1 a l = free_block m0 a l" using ds(1) assms(4) by (simp add: free_block_def meta_sim_cur)
  show "runtime_ok m0 a nf \<Longrightarrow> runtime_ok m1 a nf" using ds(1) by (rule meta_sim_runtime)
qed

text \<open>The stages with the flog and map stores, from the state \<open>m\<close> after the data store.\<close>

lemma stage_publish:
  fixes m :: mem
  assumes geom: "arena_geom sz nf lbs a" and inv: "media_inv m a nf" and q: "quiescent m a nf"
    and l: "l < nf" and p: "unat p < unat (a_external_nlba a)"
    and pair: "flog_pair_at m a l n cur oth"
  defines "old \<equiv> norm_entry p (map_raw m a (unat p))"
  defines "new \<equiv> normal_entry (flog_old_map cur)"
  defines "x \<equiv> flog_addr a l + 16 * n"
  defines "m2 \<equiv> wr m x (le32 p @ le32 old)"
  defines "m3 \<equiv> wr m2 (x + 8) (le32 new @ le32 (NSEQ (flog_seq cur)))"
  defines "m4 \<equiv> wr m3 (map_addr a (unat p)) (le32 new)"
  defines "blk \<equiv> DataBlock (rd m (data_addr a (free_block m a l)) lbs)"
  shows "media_inv m2 a nf" "blocks_same lbs nf a m m2"
    and "media_inv m3 a nf" "blocks_set lbs nf a m (unat p) blk m3"
    and "media_inv m4 a nf" "blocks_set lbs nf a m (unat p) blk m4" "quiescent m4 a nf"
    and "btt_flog_get_valid (flog_fst m4 a l) (flog_snd m4 a l) =
      Some (\<lparr> flog_lba = p, flog_old_map = old, flog_new_map = new, flog_seq = NSEQ (flog_seq cur) \<rparr>, 1 - n)"
    and "\<And>k. k < nf \<Longrightarrow> k \<noteq> l \<Longrightarrow> flog_fst m4 a k = flog_fst m a k \<and> flog_snd m4 a k = flog_snd m a k"
proof -
  have n: "n \<le> 1" using pair by (auto simp: flog_pair_at_def)
  have m2: "m2 = wr m (flog_addr a l + 16 * flog_next m a l) (le32 p @ le32 old)"
    by (simp add: m2_def x_def flog_pair_atD(3) [OF pair])
  note s2 = flog_first_store_sim [OF geom inv l p, where q = old, folded m2]
  show inv2: "media_inv m2 a nf" using s2(1) inv by (rule meta_sim_inv)
  show same: "blocks_same lbs nf a m m2" using s2(2) by (simp add: blocks_same_def)
  have q2: "quiescent m2 a nf" using s2(1) q by (rule meta_sim_quiescent)
  have pair2: "flog_pair_at m2 a l n cur (oth\<lparr>flog_lba := p, flog_old_map := old\<rparr>)"
    unfolding m2_def x_def by (rule flog_pair_at_first [OF geom l pair p])
  have raw2: "map_raw m2 a (unat p) = map_raw m a (unat p)" using s2(1) p by (simp add: meta_sim_def)
  have free2: "free_block m2 a l = free_block m a l" using s2(1) l by (simp add: free_block_def meta_sim_cur)
  have fr2: "rd m2 (data_addr a j) lbs = rd m (data_addr a j) lbs" if "j < unat (a_internal_nlba a)" for j
    using flog_store_frame(3) [OF geom l n _ _ that, of 0 "le32 p @ le32 old" m] by (simp add: m2_def x_def)
  note s3 = flog_second_store [OF geom inv2 q2 l p pair2, simplified raw2, folded old_def new_def x_def,
      simplified, folded m3_def]
  show "media_inv m3 a nf" by (rule s3(4))
  have "rd m2 (data_addr a (free_block m a l)) lbs = rd m (data_addr a (free_block m a l)) lbs"
    by (rule fr2) (rule used_blocksD(2) [OF inv l])
  then show set3: "blocks_set lbs nf a m (unat p) blk m3"
    using s3(5) same by (simp add: blocks_set_def blocks_same_def blk_def free2)
  have cur3: "flog_cur m3 a l = oth\<lparr>flog_lba := p, flog_old_map := old, flog_new_map := new,
      flog_seq := NSEQ (flog_seq cur)\<rparr>"
    using flog_pair_atD(2) [OF s3(1)] by simp
  note s4 = complete_pending [OF geom s3(4) l s3(2), simplified cur3, simplified, folded m4_def]
  show "media_inv m4 a nf" by (rule s4(1))
  show "blocks_set lbs nf a m (unat p) blk m4"
    using set3 s4(3) by (auto simp: blocks_set_def)
  show "quiescent m4 a nf"
    using s4(2) s3(3) by (auto simp: quiescent_def)
  show "btt_flog_get_valid (flog_fst m4 a l) (flog_snd m4 a l) =
      Some (\<lparr> flog_lba = p, flog_old_map = old, flog_new_map = new, flog_seq = NSEQ (flog_seq cur) \<rparr>, 1 - n)"
    using flog_pair_atD(1) [OF s3(1)] s4(4) [OF l] by (simp add: btt_flog.equality)
  show "flog_fst m4 a k = flog_fst m a k \<and> flog_snd m4 a k = flog_snd m a k" if k: "k < nf" "k \<noteq> l" for k
  proof -
    have "flog_at m3 (flog_addr a k + 16 * j) = flog_at m (flog_addr a k + 16 * j)" if "j \<le> 1" for j
      using flog_store_frame(2) [OF geom l n _ _ k(1) that, of 0 "le32 p @ le32 old" m]
        flog_store_frame(2) [OF geom l n _ _ k(1) that, of 8 "le32 new @ le32 (NSEQ (flog_seq cur))" m2] k(2)
      by (simp add: m2_def m3_def x_def)
    from this [of 0] this [of 1] s4(4) [OF k(1)] show ?thesis by (simp add: flog_fst_def flog_snd_def)
  qed
qed

end
