(* ===== verification/Btt_Ops.thy ===== *)
theory Btt_Ops
  imports Btt_Steps
begin

text \<open>
  The namespace interface as the BTT relies on it, and what the operations of
  libpmemblk/btt.c do on top of it: power failure at any point of a block
  write, recovery (itself interruptible), reads, state changes.
\<close>

section \<open>The namespace interface\<close>

text \<open>
  A namespace that may lose power.  While it is alive, reads see the medium and
  a write either completes durably or is the one during which power fails; then
  only some of the aligned words it covers have been stored.  A dead namespace
  answers nothing and stores nothing.  \<open>img\<close> is the content of the medium.
\<close>

locale crash_namespace =
  fixes cb :: "'s ns_callback" and img :: "'s \<Rightarrow> mem" and alive :: "'s \<Rightarrow> bool" and sz :: nat
  assumes size_bound: "sz < 2 ^ 64"
    and read_alive: "alive s \<Longrightarrow> unat off + n \<le> sz \<Longrightarrow> nsread cb s lane n off = Inr (rd (img s) (unat off) n)"
    and read_dead: "\<not> alive s \<Longrightarrow> \<exists>e. nsread cb s lane n off = Inl e"
    and write_dead: "\<not> alive s \<Longrightarrow>
      \<exists>e s'. nswrite cb s lane bs off = (Inl e, s') \<and> img s' = img s \<and> \<not> alive s'"
    and write_alive: "alive s \<Longrightarrow> unat off + length bs \<le> sz \<Longrightarrow>
      (\<exists>s'. nswrite cb s lane bs off = (Inr (), s') \<and> alive s' \<and> img s' = wr (img s) (unat off) bs) \<or>
      (\<exists>e s' sel. nswrite cb s lane bs off = (Inl e, s') \<and> \<not> alive s' \<and>
         img s' = wr_torn sel (img s) (unat off) bs)"

text \<open>A namespace in which some states are known to keep their power.\<close>

locale steady_namespace = crash_namespace cb img alive sz
  for cb :: "'s ns_callback" and img alive sz +
  fixes steady :: "'s \<Rightarrow> bool"
  assumes steady_alive: "steady s \<Longrightarrow> alive s"
    and steady_write: "nswrite cb s lane bs off = (r, s') \<Longrightarrow> steady s' = steady s"

text \<open>A namespace whose ranges can be mapped for direct access.\<close>

locale mapped_namespace = crash_namespace cb img alive sz
  for cb :: "'s ns_callback" and img alive sz +
  assumes map_alive: "alive s \<Longrightarrow> unat off + n < sz \<Longrightarrow> nsmap cb s lane n off = Inr (rd (img s) (unat off) n)"

section \<open>Geometry is all the media state depends on\<close>

definition geom_of :: "arena \<Rightarrow> u64 \<times> u64 \<times> u64 \<times> u64 \<times> u32 \<times> u32 \<times> u32 \<times> u64" where
  "geom_of a = (a_startoff a, a_dataoff a, a_mapoff a, a_flogoff a,
     a_external_nlba a, a_internal_nlba a, a_internal_lbasize a, a_nextoff a)"

lemma geom_of_updates [simp]:
  "geom_of (a\<lparr>a_flags := f\<rparr>) = geom_of a" "geom_of (a\<lparr>a_flogs := fs\<rparr>) = geom_of a"
  "geom_of (a\<lparr>a_rtt := r\<rparr>) = geom_of a" "geom_of (a\<lparr>a_map_locks := ls\<rparr>) = geom_of a"
  by (simp_all add: geom_of_def)

lemma geom_fields:
  assumes "geom_of a' = geom_of a"
  shows "a_startoff a' = a_startoff a" "a_dataoff a' = a_dataoff a" "a_mapoff a' = a_mapoff a"
    "a_flogoff a' = a_flogoff a" "a_external_nlba a' = a_external_nlba a"
    "a_internal_nlba a' = a_internal_nlba a" "a_internal_lbasize a' = a_internal_lbasize a"
    "a_nextoff a' = a_nextoff a"
  using assms by (simp_all add: geom_of_def)

lemma geom_addrs:
  assumes "geom_of a' = geom_of a"
  shows "map_addr a' = map_addr a" "data_addr a' = data_addr a" "flog_addr a' = flog_addr a"
    "map_entry_off a' = map_entry_off a" "data_block_off a' = data_block_off a"
  using geom_fields [OF assms]
  by (auto simp: map_addr_def data_addr_def flog_addr_def map_entry_off_def data_block_off_def)

lemma geom_media:
  assumes "geom_of a' = geom_of a"
  shows "map_raw m a' = map_raw m a" "flog_fst m a' = flog_fst m a" "flog_snd m a' = flog_snd m a"
    "flog_cur m a' = flog_cur m a" "flog_pair_wf m a' = flog_pair_wf m a"
    "pending m a' = pending m a" "eff_entry m a' = eff_entry m a" "eff_block m a' = eff_block m a"
    "free_block m a' = free_block m a"
proof -
  note e = geom_addrs [OF assms] geom_fields [OF assms]
  show raw: "map_raw m a' = map_raw m a" and f: "flog_fst m a' = flog_fst m a" "flog_snd m a' = flog_snd m a"
    by (auto simp: map_raw_def flog_fst_def flog_snd_def e)
  show c: "flog_cur m a' = flog_cur m a" "flog_pair_wf m a' = flog_pair_wf m a"
    by (auto simp: flog_cur_def flog_pair_wf_def f e)
  show p: "pending m a' = pending m a" by (auto simp: pending_def c raw)
  show ee: "eff_entry m a' = eff_entry m a" by (intro ext) (simp add: eff_entry_def c p raw split: option.split)
  show "eff_block m a' = eff_block m a" by (intro ext) (simp add: eff_block_def ee)
  show "free_block m a' = free_block m a" by (auto simp: free_block_def c)
qed

lemma geom_inv:
  assumes "geom_of a' = geom_of a"
  shows "arena_geom n nf lbs a' = arena_geom n nf lbs a" "media_inv m a' nf = media_inv m a nf"
    "block_at lbs m a' nf = block_at lbs m a nf" "quiescent m a' nf = quiescent m a nf"
proof -
  note e = geom_addrs [OF assms] geom_fields [OF assms] geom_media [OF assms]
  show "arena_geom n nf lbs a' = arena_geom n nf lbs a" by (simp add: arena_geom_def e)
  show "media_inv m a' nf = media_inv m a nf" by (simp add: media_inv_def used_blocks_def e)
  show "block_at lbs m a' nf = block_at lbs m a nf"
    by (intro ext) (simp add: block_at_def block_of_entry_def e)
  show "quiescent m a' nf = quiescent m a nf" by (simp add: quiescent_def e)
qed

lemma geom_runtime:
  assumes "geom_of a' = geom_of a" "a_flogs a' = a_flogs a"
  shows "runtime_ok m a' nf = runtime_ok m a nf"
  using assms(2) by (simp add: runtime_ok_def geom_media [OF assms(1)] geom_addrs [OF assms(1)])

text \<open>An arena in use: its geometry fits, its medium is in order, and the run-time flogs follow it.\<close>

definition arena_ready :: "nat \<Rightarrow> nat \<Rightarrow> nat \<Rightarrow> mem \<Rightarrow> arena \<Rightarrow> bool" where
  "arena_ready n nf lbs m a \<longleftrightarrow> arena_geom n nf lbs a \<and> media_inv m a nf \<and> runtime_ok m a nf"

lemma runtime_okD:
  assumes "runtime_ok m a nf" "l < nf"
  shows "\<not> pending m a l"
    and "map unat (rt_entries (a_flogs a ! l)) = [flog_addr a l, flog_addr a l + 16]"
    and "btt_flog_get_valid (flog_fst m a l) (flog_snd m a l)
          = Some (rt_flog (a_flogs a ! l), rt_next (a_flogs a ! l))"
    and "flog_cur m a l = rt_flog (a_flogs a ! l)" "flog_next m a l = rt_next (a_flogs a ! l)"
  using assms by (simp_all add: runtime_ok_def flog_cur_def flog_next_def)

lemma runtime_pair:
  assumes "runtime_ok m a nf" "media_inv m a nf" "l < nf"
  obtains oth where "flog_pair_at m a l (rt_next (a_flogs a ! l)) (rt_flog (a_flogs a ! l)) oth"
proof -
  obtain n cur oth where pair: "flog_pair_at m a l n cur oth"
    using assms(2,3) by (auto simp: media_inv_def flog_pair_wf_iff)
  with flog_pair_atD(1) [OF pair] runtime_okD(3) [OF assms(1,3)] that show ?thesis by auto
qed

lemma runtime_entry_off:
  assumes "arena_geom n nf lbs a" "runtime_ok m a nf" "media_inv m a nf" "l < nf"
  shows "unat (rt_entries (a_flogs a ! l) ! rt_next (a_flogs a ! l))
      = flog_addr a l + 16 * rt_next (a_flogs a ! l)"
    and "unat (rt_entries (a_flogs a ! l) ! rt_next (a_flogs a ! l) + 8)
      = flog_addr a l + 16 * rt_next (a_flogs a ! l) + 8"
    and "flog_addr a l + 16 * rt_next (a_flogs a ! l) + 16 \<le> n"
proof -
  let ?rt = "a_flogs a ! l"
  note g = arena_geomD [OF assms(1)]
  obtain oth where "flog_pair_at m a l (rt_next ?rt) (rt_flog ?rt) oth"
    by (rule runtime_pair [OF assms(2-4)])
  then have nx: "rt_next ?rt = 0 \<or> rt_next ?rt = 1" by (auto simp: flog_pair_at_def)
  obtain x y where xy: "rt_entries ?rt = [x, y]" "unat x = flog_addr a l" "unat y = flog_addr a l + 16"
    using runtime_okD(2) [OF assms(2,4)] by (auto simp: map_eq_Cons_conv)
  show e: "unat (rt_entries ?rt ! rt_next ?rt) = flog_addr a l + 16 * rt_next ?rt"
    using nx xy by auto
  show le: "flog_addr a l + 16 * rt_next ?rt + 16 \<le> n"
    using nx g(4) assms(4) by (auto simp: flog_addr_def)
  show "unat (rt_entries ?rt ! rt_next ?rt + 8) = flog_addr a l + 16 * rt_next ?rt + 8"
    using e le g(5) by (subst unat_add_small) simp_all
qed

text \<open>8-byte stores into the flog and 4-byte stores into the map are not torn.\<close>

lemma aligned_flog_atomic:
  assumes "arena_geom n nf lbs a" "length bs = 8" "x = flog_addr a l + 16 * k \<or> x = flog_addr a l + 16 * k + 8"
  shows "wr_torn sel m x bs = (if sel (x div 8) then wr m x bs else m)"
proof -
  obtain q where q: "unat (a_flogoff a) = 8 * q" using arena_geomD(9) [OF assms(1)] by (auto elim: dvdE)
  have "x mod 8 = 0" using assms(3) by (auto simp: flog_addr_def q)
  then have "x div 8 = (x + length bs - 1) div 8" using assms(2) by auto
  then show ?thesis using assms(2) by (intro wr_torn_atomic) auto
qed

lemma aligned_map_atomic:
  assumes "arena_geom n nf lbs a"
  shows "wr_torn sel m (map_addr a i) (le32 e) =
    (if sel (map_addr a i div 8) then wr m (map_addr a i) (le32 e) else m)"
proof -
  obtain q where q: "unat (a_mapoff a) = 4 * q" using arena_geomD(10) [OF assms] by (auto elim: dvdE)
  define k where "k = q + i"
  have k: "map_addr a i = 4 * k" by (simp add: map_addr_def q k_def)
  have "(4 * k + 3) div 8 = (4 * k + 3) div 4 div 2" "4 * k div 8 = 4 * k div 4 div 2"
    by (simp_all only: div_mult2_eq [symmetric]) simp_all
  then have "map_addr a i div 8 = (map_addr a i + length (le32 e) - 1) div 8" by (simp add: k)
  moreover have "le32 e \<noteq> []" by (metis length_le(2) list.size(3) zero_neq_numeral)
  ultimately show ?thesis by (rule wr_torn_atomic)
qed

section \<open>Writing a block under power failure\<close>

text \<open>The arena after a flog update.\<close>

definition flog_updated :: "arena \<Rightarrow> nat \<Rightarrow> u32 \<Rightarrow> u32 \<Rightarrow> u32 \<Rightarrow> arena" where
  "flog_updated a lane lba old_map new_map =
     (let rt = a_flogs a ! lane
      in a\<lparr>a_flogs := (a_flogs a)[lane :=
             rt\<lparr>rt_next := 1 - rt_next rt,
                rt_flog := \<lparr> flog_lba = lba, flog_old_map = old_map, flog_new_map = new_map,
                             flog_seq = NSEQ (flog_seq (rt_flog rt)) \<rparr>\<rparr>]\<rparr>)"

lemma lock_map_fields [simp]:
  "geom_of (lock_map a n v) = geom_of a" "a_flogs (lock_map a n v) = a_flogs a"
  "a_flags (lock_map a n v) = a_flags a" "a_rtt (lock_map a n v) = a_rtt a"
  "lock_map (lock_map a n v) n w = lock_map a n w"
  by (simp_all add: lock_map_def geom_of_def)

lemma flog_updated_fields [simp]:
  "geom_of (flog_updated a l p q r) = geom_of a" "a_flags (flog_updated a l p q r) = a_flags a"
  "a_rtt (flog_updated a l p q r) = a_rtt a"
  "lock_map (flog_updated a l p q r) n v = flog_updated (lock_map a n v) l p q r"
  by (simp_all add: flog_updated_def lock_map_def geom_of_def Let_def)

lemma runtime_ok_updated:
  assumes "runtime_ok m a nf" "l < nf" "quiescent m' a nf"
    and "btt_flog_get_valid (flog_fst m' a l) (flog_snd m' a l) =
      Some (\<lparr> flog_lba = p, flog_old_map = old, flog_new_map = new,
              flog_seq = NSEQ (flog_seq (rt_flog (a_flogs a ! l))) \<rparr>, 1 - rt_next (a_flogs a ! l))"
    and "\<And>k. k < nf \<Longrightarrow> k \<noteq> l \<Longrightarrow> flog_fst m' a k = flog_fst m a k \<and> flog_snd m' a k = flog_snd m a k"
  shows "runtime_ok m' (flog_updated a l p old new) nf"
proof -
  have g: "geom_of (flog_updated a l p old new) = geom_of a" by simp
  show ?thesis
    unfolding runtime_ok_def geom_media [OF g] geom_addrs [OF g]
  proof (intro conjI allI impI)
    show "length (a_flogs (flog_updated a l p old new)) = nf"
      using assms(1) by (simp add: flog_updated_def runtime_ok_def Let_def)
    fix k assume k: "k < nf"
    show "\<not> pending m' a k" using assms(3) k by (simp add: quiescent_def)
    have rt: "a_flogs (flog_updated a l p old new) ! k = (if k = l then (a_flogs a ! l)\<lparr>rt_next := 1 - rt_next (a_flogs a ! l),
        rt_flog := \<lparr> flog_lba = p, flog_old_map = old, flog_new_map = new,
              flog_seq = NSEQ (flog_seq (rt_flog (a_flogs a ! l))) \<rparr>\<rparr> else a_flogs a ! k)"
      using assms(1) k by (simp add: flog_updated_def runtime_ok_def Let_def)
    show "map unat (rt_entries (a_flogs (flog_updated a l p old new) ! k)) = [flog_addr a k, flog_addr a k + 16]"
      using runtime_okD(2) [OF assms(1) k] by (auto simp: rt)
    show "btt_flog_get_valid (flog_fst m' a k) (flog_snd m' a k) =
        Some (rt_flog (a_flogs (flog_updated a l p old new) ! k), rt_next (a_flogs (flog_updated a l p old new) ! k))"
      using runtime_okD(3) [OF assms(1) k] assms(4,5) k by (auto simp: rt)
  qed
qed

context crash_namespace
begin

lemma write_cases:
  assumes "alive s" "unat off + length bs \<le> sz"
  obtains (ok) s' where "nswrite cb s lane bs off = (Inr (), s')" "alive s'" "img s' = wr (img s) (unat off) bs"
    | (torn) e s' sel where "nswrite cb s lane bs off = (Inl e, s')" "\<not> alive s'"
        "img s' = wr_torn sel (img s) (unat off) bs"
  using write_alive [OF assms, of lane] by blast

lemma flog_update_cases:
  fixes p old new :: u32
  assumes "alive s" "arena_geom sz nf lbs a" "media_inv (img s) a nf" "runtime_ok (img s) a nf" "l < nf"
  defines "rt \<equiv> a_flogs a ! l"
  defines "x \<equiv> flog_addr a l + 16 * rt_next rt"
  defines "m2 \<equiv> wr (img s) x (le32 p @ le32 old)"
  defines "m3 \<equiv> wr m2 (x + 8) (le32 new @ le32 (NSEQ (flog_seq (rt_flog rt))))"
  obtains (torn) e s' where "flog_update cb l a s p old new = (Inl e, s')" "\<not> alive s'"
        "img s' = img s \<or> img s' = m2 \<or> img s' = m3"
    | (ok) s' where "flog_update cb l a s p old new = (Inr (flog_updated a l p old new), s')"
        "alive s'" "img s' = m3"
proof -
  let ?off = "rt_entries rt ! rt_next rt"
  note off = runtime_entry_off [OF assms(2,4,3,5), folded rt_def]
  have fits: "unat ?off + length (le32 p @ le32 old) \<le> sz"
    "unat (?off + 8) + length (le32 new @ le32 (NSEQ (flog_seq (rt_flog rt)))) \<le> sz"
    using off by simp_all
  note at = aligned_flog_atomic [OF assms(2), where l = l and k = "rt_next rt"]
  show ?thesis
  proof (cases rule: write_cases [OF assms(1) fits(1), of l, case_names ok torn])
    case (ok s1)
    then have m2: "img s1 = m2" by (simp add: m2_def off x_def)
    show ?thesis
    proof (cases rule: write_cases [OF ok(2) fits(2), of l, case_names ok torn])
      case ok': (ok s2)
      show ?thesis
        by (rule that(2)) (use ok ok' in \<open>simp_all add: flog_update_def flog_updated_def Let_def
            m2 m3_def off x_def flip: rt_def\<close>)
    next
      case (torn e s2 sel)
      have "img s2 = m2 \<or> img s2 = m3"
        using torn(3) at [of _ "x + 8" sel m2]
        by (simp add: m2 m3_def off x_def split: if_splits)
      then show ?thesis
        by (intro that(1) [of e s2]) (use ok torn(1,2) in \<open>auto simp: flog_update_def Let_def rt_def [symmetric]\<close>)
    qed
  next
    case (torn e s1 sel)
    have "img s1 = img s \<or> img s1 = m2"
      using torn(3) at [of _ x sel "img s"]
      by (simp add: m2_def off x_def split: if_splits)
    then show ?thesis
      by (intro that(1) [of e s1]) (use torn(1,2) in \<open>auto simp: flog_update_def Let_def rt_def [symmetric]\<close>)
  qed
qed

end

text \<open>Bytes outside the data, map and flog areas of an arena.\<close>

definition outside_arena :: "arena \<Rightarrow> nat \<Rightarrow> nat \<Rightarrow> bool" where
  "outside_arena a nf x \<longleftrightarrow> x < unat (a_dataoff a) \<or> unat (a_flogoff a) + 64 * nf \<le> x"

text \<open>
  The state of the medium, relative to \<open>m\<close>, at any moment of a write of \<open>buf\<close> to
  block \<open>p\<close>: in order, all blocks as before or only \<open>p\<close> replaced, and nothing
  outside the arena touched.
\<close>

definition write_atomic :: "nat \<Rightarrow> nat \<Rightarrow> arena \<Rightarrow> nat \<Rightarrow> byte list \<Rightarrow> mem \<Rightarrow> mem \<Rightarrow> bool" where
  "write_atomic lbs nf a p buf m m' \<longleftrightarrow>
     media_inv m' a nf \<and>
     (blocks_same lbs nf a m m' \<or> blocks_set lbs nf a m p (DataBlock buf) m') \<and>
     (\<forall>x. outside_arena a nf x \<longrightarrow> m' x = m x)"

definition write_complete :: "nat \<Rightarrow> nat \<Rightarrow> arena \<Rightarrow> nat \<Rightarrow> byte list \<Rightarrow> mem \<Rightarrow> mem \<Rightarrow> bool" where
  "write_complete lbs nf a p buf m m' \<longleftrightarrow>
     media_inv m' a nf \<and> blocks_set lbs nf a m p (DataBlock buf) m' \<and>
     (\<forall>x. outside_arena a nf x \<longrightarrow> m' x = m x)"

lemma write_complete_atomic: "write_complete lbs nf a p buf m m' \<Longrightarrow> write_atomic lbs nf a p buf m m'"
  by (simp add: write_complete_def write_atomic_def)

lemma frame_wr:
  assumes "\<And>x. outside_arena a nf x \<Longrightarrow> m x = m0 x"
    and "unat (a_dataoff a) \<le> off" "off + length bs \<le> unat (a_flogoff a) + 64 * nf" "outside_arena a nf x"
  shows "wr m off bs x = m0 x"
  using assms(1) [OF assms(4)] assms(2-4) by (auto simp: outside_arena_def wr_def)

text \<open>Every state the stores of a block write can leave behind is one of these.\<close>

lemma stages_atomic:
  fixes m m0 :: mem
  assumes geom: "arena_geom n0 nf lbs a" and inv: "media_inv m a nf" and run: "runtime_ok m a nf"
    and same: "blocks_same lbs nf a m0 m" and out: "\<forall>x. outside_arena a nf x \<longrightarrow> m x = m0 x"
    and l: "l < nf" and p: "unat p < unat (a_external_nlba a)"
    and buf: "rd m (data_addr a (free_block m a l)) lbs = buf"
  defines "rt \<equiv> a_flogs a ! l"
  defines "old \<equiv> norm_entry p (map_raw m a (unat p))"
  defines "new \<equiv> normal_entry (flog_old_map (rt_flog rt))"
  defines "x \<equiv> flog_addr a l + 16 * rt_next rt"
  defines "m2 \<equiv> wr m x (le32 p @ le32 old)"
  defines "m3 \<equiv> wr m2 (x + 8) (le32 new @ le32 (NSEQ (flog_seq (rt_flog rt))))"
  defines "m4 \<equiv> wr m3 (map_addr a (unat p)) (le32 new)"
  shows "write_atomic lbs nf a (unat p) buf m0 m" "write_atomic lbs nf a (unat p) buf m0 m2"
    and "write_complete lbs nf a (unat p) buf m0 m3" "write_complete lbs nf a (unat p) buf m0 m4"
    and "runtime_ok m4 (flog_updated a l p old new) nf"
proof -
  note g = arena_geomD [OF geom]
  obtain oth where pair: "flog_pair_at m a l (rt_next rt) (rt_flog rt) oth"
    unfolding rt_def by (rule runtime_pair [OF run inv l])
  have n: "rt_next rt \<le> 1" using pair by (auto simp: flog_pair_at_def)
  note st = stage_publish [OF geom inv runtime_quiescent [OF run] l p pair, folded old_def new_def x_def,
      folded m2_def, folded m3_def, folded m4_def]
  have lo: "unat (a_dataoff a) \<le> x" "unat (a_dataoff a) \<le> map_addr a (unat p)"
    using g(2,3) by (auto simp: x_def flog_addr_def map_addr_def)
  have x: "x + 16 \<le> unat (a_flogoff a) + 64 * nf" using n l by (auto simp: x_def flog_addr_def)
  have hi: "map_addr a (unat p) + 4 \<le> unat (a_flogoff a) + 64 * nf"
    using p g(3) by (simp add: map_addr_def)
  have o2: "m2 y = m0 y" if "outside_arena a nf y" for y
    unfolding m2_def by (rule frame_wr [OF out [rule_format] _ _ that]) (use lo x in auto)
  have o3: "m3 y = m0 y" if "outside_arena a nf y" for y
    unfolding m3_def by (rule frame_wr [OF o2 _ _ that]) (use lo x in auto)
  have o4: "m4 y = m0 y" if "outside_arena a nf y" for y
    unfolding m4_def by (rule frame_wr [OF o3 _ _ that]) (use lo hi in auto)
  show "write_atomic lbs nf a (unat p) buf m0 m" using inv same out by (simp add: write_atomic_def)
  show "write_atomic lbs nf a (unat p) buf m0 m2"
    using st(1) blocks_same_trans [OF same st(2)] o2 by (simp add: write_atomic_def)
  show "write_complete lbs nf a (unat p) buf m0 m3"
    using st(3) blocks_set_same [OF same st(4)] o3 by (simp add: write_complete_def buf)
  show "write_complete lbs nf a (unat p) buf m0 m4"
    using st(5) blocks_set_same [OF same st(6)] o4 by (simp add: write_complete_def buf)
  show "runtime_ok m4 (flog_updated a l p old new) nf"
    by (rule runtime_ok_updated [OF run l st(7)]) (use st(8,9) in \<open>auto simp: rt_def\<close>)
qed

text \<open>The handle's parameters that an arena depends on.\<close>

definition handle_for :: "btt \<Rightarrow> nat \<Rightarrow> nat \<Rightarrow> bool" where
  "handle_for b nf lbs \<longleftrightarrow> unat (b_nfree b) = nf \<and> unat (b_lbasize b) = lbs"

lemma free_entry_eq: "(e AND BTT_MAP_ENTRY_LBA_MASK) OR BTT_MAP_ENTRY_NORMAL = normal_entry e"
  by (simp add: normal_entry_def)

context crash_namespace
begin

lemma set_arena_error_dead:
  assumes "\<not> alive s"
  shows "\<exists>r a' s'. set_arena_error cb laid lane a s = (r, a', s') \<and> s' = s"
proof -
  obtain e where "nsread cb s lane 4096 (a_startoff a) = Inl e" using read_dead [OF assms] by blast
  then show ?thesis by (simp add: set_arena_error_def arena_setf_def Let_def)
qed

lemma map_lock_alive:
  assumes "alive s" "arena_geom sz nf lbs a" "unat p < unat (a_external_nlba a)"
  shows "map_lock cb nfree lane a s p =
    (Inr (norm_entry p (map_raw (img s) a (unat p))), lock_map a (get_map_lock_num p nfree) True)"
proof -
  have "map_addr a (unat p) + 4 \<le> sz"
    using arena_geomD(3,4) [OF assms(2)] assms(3) by (simp add: map_addr_def)
  then have "nsread cb s lane 4 (map_entry_off a p) = Inr (rd (img s) (map_addr a (unat p)) 4)"
    using read_alive [OF assms(1)] unat_map_entry_off [OF assms(2,3)] by simp
  then show ?thesis by (simp add: map_lock_def Let_def norm_entry_def map_raw_def)
qed

lemma map_unlock_cases:
  assumes "alive s" "arena_geom sz nf lbs a" "unat p < unat (a_external_nlba a)"
  obtains (ok) s' where "map_unlock cb nfree lane a s e p = (Inr (), lock_map a (get_map_lock_num p nfree) False, s')"
      "alive s'" "img s' = wr (img s) (map_addr a (unat p)) (le32 e)"
    | (torn) r s' where "map_unlock cb nfree lane a s e p = (Inl r, lock_map a (get_map_lock_num p nfree) False, s')"
      "\<not> alive s'" "img s' = img s \<or> img s' = wr (img s) (map_addr a (unat p)) (le32 e)"
proof -
  note off = unat_map_entry_off [OF assms(2,3)]
  have fits: "unat (map_entry_off a p) + length (le32 e) \<le> sz"
    using arena_geomD(3,4) [OF assms(2)] assms(3) by (simp add: off map_addr_def)
  show ?thesis
  proof (cases rule: write_cases [OF assms(1) fits, of lane, case_names ok torn])
    case (ok s')
    then show ?thesis by (intro that(1) [of s']) (simp_all add: map_unlock_def off)
  next
    case (torn r s' sel)
    have "img s' = img s \<or> img s' = wr (img s) (map_addr a (unat p)) (le32 e)"
      using torn(3) aligned_map_atomic [OF assms(2)] by (simp add: off)
    with torn(1,2) show ?thesis by (intro that(2) [of r s']) (simp_all add: map_unlock_def)
  qed
qed


text \<open>
  The stores that publish a block write, whatever happens to the power: the
  medium is in one of the atomic states; the call reports success exactly when
  power is still there.
\<close>

lemma publish_cases:
  assumes alive: "alive s" and geom: "arena_geom sz nf lbs a" and inv: "media_inv (img s) a nf"
    and run: "runtime_ok (img s) a nf" and same: "blocks_same lbs nf a m0 (img s)"
    and out: "\<forall>x. outside_arena a nf x \<longrightarrow> img s x = m0 x"
    and l: "lane < nf" and p: "unat p < unat (a_external_nlba a)"
    and data: "rd (img s) (data_addr a (free_block (img s) a lane)) lbs = buf"
  defines "new \<equiv> normal_entry (flog_old_map (rt_flog (a_flogs a ! lane)))"
  obtains (ok) old s' where
      "btt_write_publish cb b lane a s p new =
        (Inr (), flog_updated (lock_map a (get_map_lock_num p (b_nfree b)) False) lane p old new, s')"
      "alive s'" "write_complete lbs nf a (unat p) buf m0 (img s')"
      "runtime_ok (img s') (flog_updated a lane p old new) nf"
    | (torn) e a' s' where "btt_write_publish cb b lane a s p new = (Inl e, a', s')" "\<not> alive s'"
      "write_atomic lbs nf a (unat p) buf m0 (img s')"
proof -
  let ?a1 = "lock_map a (get_map_lock_num p (b_nfree b)) True"
  let ?old = "norm_entry p (map_raw (img s) a (unat p))"
  let ?a2 = "flog_updated ?a1 lane p ?old new"
  note sa = stages_atomic [OF geom inv run same out l p data, folded new_def]
  note lock = map_lock_alive [OF alive geom p]
  have g1: "geom_of ?a1 = geom_of a" and g2: "geom_of ?a2 = geom_of a" by simp_all
  have pre1: "arena_geom sz nf lbs ?a1" "media_inv (img s) ?a1 nf" "runtime_ok (img s) ?a1 nf"
    using geom inv run by (simp_all add: geom_inv [OF g1] geom_runtime [OF g1])
  have pre2: "arena_geom sz nf lbs ?a2" "unat p < unat (a_external_nlba ?a2)"
    using geom p by (simp_all add: geom_inv [OF g2] geom_fields [OF g2])
  show ?thesis
  proof (cases rule: flog_update_cases [OF alive pre1 l, of p ?old new, case_names torn ok])
    case (torn e s2)
    then have "write_atomic lbs nf a (unat p) buf m0 (img s2)"
      using sa(1,2) write_complete_atomic [OF sa(3)] by (auto simp: geom_addrs [OF g1])
    with torn(1,2) show ?thesis
      by (intro that(2) [of e "map_abort (b_nfree b) ?a1 p" s2]) (simp_all add: btt_write_publish_def lock)
  next
    case (ok s2)
    note upd = btt_write_publish_def lock ok(1)
    show ?thesis
    proof (cases rule: map_unlock_cases [OF ok(2) pre2, of "b_nfree b" lane new, case_names ok torn])
      case (torn e s3)
      then have "write_atomic lbs nf a (unat p) buf m0 (img s3)"
        using ok(3) write_complete_atomic [OF sa(3)] write_complete_atomic [OF sa(4)]
        by (auto simp: geom_addrs [OF g1] geom_addrs [OF g2])
      moreover obtain r a4 where "set_arena_error cb (b_laidout b) lane
          (lock_map ?a2 (get_map_lock_num p (b_nfree b)) False) s3 = (r, a4, s3)"
        using set_arena_error_dead [OF torn(2)] by blast
      ultimately show ?thesis using torn(1,2) by (intro that(2) [of EIO a4 s3]) (simp_all add: upd)
    next
      case ok': (ok s3)
      then show ?thesis
        using ok(3) sa(4,5)
        by (intro that(1) [of ?old s3]) (simp_all add: upd geom_addrs [OF g1] geom_addrs [OF g2])
    qed
  qed
qed

lemma btt_write_arena_cases:
  assumes alive: "alive s" and geom: "arena_geom sz nf lbs a" and inv: "media_inv (img s) a nf"
    and run: "runtime_ok (img s) a nf" and b: "handle_for b nf lbs" and l: "lane < nf"
    and p: "unat p < unat (a_external_nlba a)" and buf: "length buf = lbs"
    and flags: "a_flags a AND BTTINFO_FLAG_ERROR_MASK = 0"
    and rtt: "normal_entry (flog_old_map (rt_flog (a_flogs a ! lane))) \<notin> set (take (unat (b_nlane b)) (a_rtt a))"
  obtains (ok) old new s' where
      "btt_write_arena cb b lane a s p buf =
        (Inr (), flog_updated (lock_map a (get_map_lock_num p (b_nfree b)) False) lane p old new, s')"
      "alive s'" "write_complete lbs nf a (unat p) buf (img s) (img s')"
      "runtime_ok (img s') (flog_updated a lane p old new) nf"
    | (torn) e a' s' where "btt_write_arena cb b lane a s p buf = (Inl e, a', s')" "\<not> alive s'"
      "write_atomic lbs nf a (unat p) buf (img s) (img s')"
proof -
  let ?new = "normal_entry (flog_old_map (rt_flog (a_flogs a ! lane)))"
  let ?d = "data_addr a (free_block (img s) a lane)"
  have free: "entry_block ?new = free_block (img s) a lane"
    using runtime_okD(4) [OF run l] by (simp add: free_block_def)
  have freelt: "free_block (img s) a lane < unat (a_internal_nlba a)" by (rule used_blocksD(2) [OF inv l])
  have off: "unat (data_block_off a ?new) = ?d"
    using unat_data_block_off [OF geom, of ?new] free freelt by simp
  note in_arena = block_end_le [OF geom freelt] arena_geomD(3,4) [OF geom]
  have fits: "unat (data_block_off a ?new) + length buf \<le> sz"
    using in_arena buf by (simp add: off)
  have tk: "take (unat (b_lbasize b)) buf = buf" using b buf by (simp add: handle_for_def)
  have step: "btt_write_arena cb b lane a s p buf = (case nswrite cb s lane buf (data_block_off a ?new) of
      (Inl e, s1) \<Rightarrow> (Inl e, a, s1) | (Inr _, s1) \<Rightarrow> btt_write_publish cb b lane a s1 p ?new)"
    unfolding btt_write_arena_def Let_def free_entry_eq tk using flags rtt by simp
  have outs: "x < ?d \<or> ?d + lbs \<le> x" if "outside_arena a nf x" for x
    using that in_arena by (auto simp: outside_arena_def data_addr_def)
  show ?thesis
  proof (cases rule: write_cases [OF alive fits, of lane, case_names ok torn])
    case (torn e s1 sel)
    have out: "\<forall>x. x < ?d \<or> ?d + lbs \<le> x \<longrightarrow> img s1 x = img s x"
      using torn(3) buf by (auto simp: off intro: wr_torn_outside)
    then have out': "\<forall>x. outside_arena a nf x \<longrightarrow> img s1 x = img s x" using outs by blast
    note st = stage_data [OF geom inv runtime_quiescent [OF run] l out]
    have "write_atomic lbs nf a (unat p) buf (img s) (img s1)"
      using st(1,3) out' by (simp add: write_atomic_def)
    with torn(1,2) show ?thesis by (intro that(2) [of e a s1]) (simp_all add: step)
  next
    case (ok s1)
    have out: "\<forall>x. x < ?d \<or> ?d + lbs \<le> x \<longrightarrow> img s1 x = img s x"
      using ok(3) buf by (auto simp: off intro: wr_outside)
    then have out': "\<forall>x. outside_arena a nf x \<longrightarrow> img s1 x = img s x" using outs by blast
    note st = stage_data [OF geom inv runtime_quiescent [OF run] l out]
    have data: "rd (img s1) (data_addr a (free_block (img s1) a lane)) lbs = buf"
      unfolding st(4) using buf by (simp add: ok(3) off mem_simps)
    show ?thesis
      by (rule publish_cases [OF ok(2) geom st(1) st(5) [OF run] st(3) out' l p data, of b])
        (use that ok(1) in \<open>simp_all add: step\<close>)
  qed
qed

end

end
