(* ===== verification/Btt_Recovery.thy ===== *)
theory Btt_Recovery
  imports Btt_Ops
begin

text \<open>
  Loading the flogs of an arena completes every map update that a power failure
  interrupted.  The loading can itself be interrupted at any store: the blocks
  are the same afterwards and the next loading starts from a medium in order.
\<close>

section \<open>One flog pair\<close>

text \<open>The medium after some recovery work, relative to \<open>m\<close>.\<close>

definition recovers :: "nat \<Rightarrow> nat \<Rightarrow> arena \<Rightarrow> mem \<Rightarrow> mem \<Rightarrow> bool" where
  "recovers lbs nf a m m' \<longleftrightarrow>
     media_inv m' a nf \<and> blocks_same lbs nf a m m' \<and>
     (\<forall>k < nf. flog_fst m' a k = flog_fst m a k \<and> flog_snd m' a k = flog_snd m a k) \<and>
     (\<forall>k < nf. pending m' a k \<longrightarrow> pending m a k) \<and>
     (\<forall>x. outside_arena a nf x \<longrightarrow> m' x = m x)"

lemma recovers_refl: "media_inv m a nf \<Longrightarrow> recovers lbs nf a m m"
  by (simp add: recovers_def)

lemma recovers_trans: "recovers lbs nf a m m' \<Longrightarrow> recovers lbs nf a m' m'' \<Longrightarrow> recovers lbs nf a m m''"
  unfolding recovers_def using blocks_same_trans [of lbs nf a m m' m''] by auto

lemma recovers_geom:
  assumes "geom_of a' = geom_of a"
  shows "recovers lbs nf a' m m' = recovers lbs nf a m m'"
  by (simp add: recovers_def blocks_same_def outside_arena_def geom_inv [OF assms] geom_media [OF assms]
      geom_fields [OF assms])

lemma recovers_complete:
  assumes "arena_geom n nf lbs a" "media_inv m a nf" "l < nf" "pending m a l"
  shows "recovers lbs nf a m (wr m (map_addr a (unat (flog_lba (flog_cur m a l)))) (le32 (flog_new_map (flog_cur m a l))))"
proof -
  have lt: "unat (flog_lba (flog_cur m a l)) < unat (a_external_nlba a)"
    using assms(2,3) by (auto simp: media_inv_def intro: flog_cur_lba_less)
  have "wr m (map_addr a (unat (flog_lba (flog_cur m a l)))) (le32 (flog_new_map (flog_cur m a l))) x = m x"
    if "outside_arena a nf x" for x
    using that lt arena_geomD(2,3) [OF assms(1)]
    by (intro wr_outside) (auto simp: outside_arena_def map_addr_def)
  with complete_pending [OF assms] show ?thesis by (auto simp: recovers_def blocks_same_def)
qed

text \<open>The run-time state of lane \<open>l\<close> has been loaded.\<close>

definition lane_loaded :: "mem \<Rightarrow> arena \<Rightarrow> nat \<Rightarrow> flog_runtime \<Rightarrow> bool" where
  "lane_loaded m a l rt \<longleftrightarrow>
     \<not> pending m a l \<and> map unat (rt_entries rt) = [flog_addr a l, flog_addr a l + 16] \<and>
     btt_flog_get_valid (flog_fst m a l) (flog_snd m a l) = Some (rt_flog rt, rt_next rt)"

lemma runtime_ok_loaded:
  "runtime_ok m a nf \<longleftrightarrow> length (a_flogs a) = nf \<and> (\<forall>l < nf. lane_loaded m a l (a_flogs a ! l))"
  by (simp add: runtime_ok_def lane_loaded_def)

lemma lane_loaded_recovers: "recovers lbs nf a m m' \<Longrightarrow> l < nf \<Longrightarrow> lane_loaded m a l rt \<Longrightarrow> lane_loaded m' a l rt"
  by (auto simp: recovers_def lane_loaded_def)

lemma lane_loaded_geom:
  assumes "geom_of a' = geom_of a"
  shows "lane_loaded m a' l rt = lane_loaded m a l rt"
  by (simp add: lane_loaded_def geom_media [OF assms] geom_addrs [OF assms])

context crash_namespace
begin

lemma recover_map_entry_cases:
  assumes alive: "alive s" and geom: "arena_geom sz nf lbs a" and inv: "media_inv (img s) a nf" and l: "l < nf"
  obtains (ok) s' where "recover_map_entry cb lane a s (flog_cur (img s) a l) = (Inr (), s')" "alive s'"
      "recovers lbs nf a (img s) (img s')" "\<not> pending (img s') a l"
    | (torn) e s' where "recover_map_entry cb lane a s (flog_cur (img s) a l) = (Inl e, s')" "\<not> alive s'"
      "recovers lbs nf a (img s) (img s')"
proof -
  let ?f = "flog_cur (img s) a l"
  have lt: "unat (flog_lba ?f) < unat (a_external_nlba a)"
    using inv l by (auto simp: media_inv_def intro: flog_cur_lba_less)
  note off = unat_map_entry_off [OF geom lt]
  have fits: "unat (map_entry_off a (flog_lba ?f)) + 4 \<le> sz"
    using arena_geomD(3,4) [OF geom] lt by (simp add: off map_addr_def)
  have read: "nsread cb s lane 4 (map_entry_off a (flog_lba ?f)) =
      Inr (rd (img s) (map_addr a (unat (flog_lba ?f))) 4)"
    using read_alive [OF alive fits] by (simp add: off)
  have step: "recover_map_entry cb lane a s ?f =
      (if pending (img s) a l then nswrite cb s lane (le32 (flog_new_map ?f)) (map_entry_off a (flog_lba ?f))
       else (Inr (), s))"
    unfolding recover_map_entry_def read pending_def norm_entry_def map_raw_def Let_def by auto
  show ?thesis
  proof (cases "pending (img s) a l")
    case False
    then show ?thesis by (intro that(1) [of s]) (simp_all add: step alive recovers_refl [OF inv])
  next
    case pend: True
    note rc = recovers_complete [OF geom inv l pend]
    have fits': "unat (map_entry_off a (flog_lba ?f)) + length (le32 (flog_new_map ?f)) \<le> sz" using fits by simp
    show ?thesis
    proof (cases rule: write_cases [OF alive fits', of lane, case_names ok torn])
      case (ok s')
      have "\<not> pending (img s') a l"
        using complete_pending(2) [OF geom inv l pend l] by (simp add: ok(3) off)
      with ok(1,2) rc show ?thesis by (intro that(1) [of s']) (simp_all add: step pend ok(3) off)
    next
      case (torn e s' sel)
      then have "img s' = img s \<or> img s' = wr (img s) (map_addr a (unat (flog_lba ?f))) (le32 (flog_new_map ?f))"
        using aligned_map_atomic [OF geom] by (simp add: off)
      then have "recovers lbs nf a (img s) (img s')" using rc recovers_refl [OF inv] by auto
      with torn(1,2) show ?thesis by (intro that(2) [of e s']) (simp_all add: step pend)
    qed
  qed
qed

lemma read_flog_pair_cases:
  assumes alive: "alive s" and geom: "arena_geom sz nf lbs a" and inv: "media_inv (img s) a nf" and l: "l < nf"
    and b: "handle_for b nf lbs" "unat (a_external_nlba a) \<le> unat (b_nlba b)" and lane: "lane < nf"
    and off: "unat off = flog_addr a l"
  obtains (ok) rt s' where "read_flog_pair cb b lane a s off = (Inr (a, rt), s')" "alive s'"
      "recovers lbs nf a (img s) (img s')" "lane_loaded (img s') a l rt"
    | (torn) e s' where "read_flog_pair cb b lane a s off = (Inl e, s')" "\<not> alive s'"
      "recovers lbs nf a (img s) (img s')"
proof -
  note g = arena_geomD [OF geom]
  have le: "flog_addr a l + 64 \<le> sz" using g(4) l by (simp add: flog_addr_def)
  have nz: "off \<noteq> 0" using off g(1-3) by (auto simp: flog_addr_def)
  have read: "nsread cb s lane 32 off = Inr (rd (img s) (flog_addr a l) 32)"
    using read_alive [OF alive, of off 32] le by (simp add: off)
  have fs: "btt_flog_convert2h (field (rd (img s) (flog_addr a l) 32) 0 16) = flog_fst (img s) a l"
    "btt_flog_convert2h (field (rd (img s) (flog_addr a l) 32) 16 16) = flog_snd (img s) a l"
    by (simp_all add: field_def take_rd drop_rd flog_fst_def flog_snd_def flog_at_def)
  have wf: "flog_pair_wf (img s) a l" using inv l by (simp add: media_inv_def)
  then have lbas: "\<not> invalid_lba b (ucast (flog_lba (flog_fst (img s) a l)))"
    "\<not> invalid_lba b (ucast (flog_lba (flog_snd (img s) a l)))"
    using b(2) by (auto simp: flog_pair_wf_def invalid_lba_def word_le_nat_alt)
  obtain n cur oth where "flog_pair_at (img s) a l n cur oth" using wf by (auto simp: flog_pair_wf_iff)
  note pd = flog_pair_atD [OF this]
  let ?rt = "zero_runtime\<lparr>rt_entries := [off, off + sizeof_btt_flog], rt_next := n, rt_flog := cur\<rparr>"
  have step: "read_flog_pair cb b lane a s off = bind_io (recover_map_entry cb lane a s cur) (\<lambda>_ s'. (Inr (a, ?rt), s'))"
    using b(1) lane nz by (simp add: read_flog_pair_def Let_def read fs lbas pd(1) handle_for_def)
  have ent: "map unat (rt_entries ?rt) = [flog_addr a l, flog_addr a l + 16]"
    using le g(5) by (simp add: off sizeof_btt_flog_def unat_add_small)
  show ?thesis
  proof (cases rule: recover_map_entry_cases [OF alive geom inv l, of lane, case_names ok torn])
    case (ok s')
    then have "lane_loaded (img s') a l ?rt"
      using ent pd(1) l unfolding lane_loaded_def recovers_def by simp
    with ok show ?thesis by (intro that(1) [of ?rt s']) (simp_all add: step flip: pd(2))
  next
    case (torn e s')
    then show ?thesis by (intro that(2) [of e s']) (simp_all add: step flip: pd(2))
  qed
qed

section \<open>All flogs of an arena\<close>

lemma read_flogs_loop_cases:
  assumes "alive s" "arena_geom sz nf lbs a" "media_inv (img s) a nf"
    and "handle_for b nf lbs" "unat (a_external_nlba a) \<le> unat (b_nlba b)" "lane < nf"
    and "i + n = nf" "unat off = flog_addr a i" "length (a_flogs a) = nf"
    and "\<forall>k < i. lane_loaded (img s) a k (a_flogs a ! k)"
  obtains (ok) fs s' where "read_flogs_loop cb b lane n i off a s = (Inr (a\<lparr>a_flogs := fs\<rparr>), s')" "alive s'"
      "recovers lbs nf a (img s) (img s')" "runtime_ok (img s') (a\<lparr>a_flogs := fs\<rparr>) nf"
    | (torn) e s' where "read_flogs_loop cb b lane n i off a s = (Inl e, s')" "\<not> alive s'"
      "recovers lbs nf a (img s) (img s')"
  using assms
proof (induction n arbitrary: i off a s thesis)
  case 0
  have "runtime_ok (img s) (a\<lparr>a_flogs := a_flogs a\<rparr>) nf"
    using 0(9-) by (simp add: runtime_ok_loaded)
  then show ?case by (intro 0(1) [of "a_flogs a" s]) (simp_all add: 0(3) recovers_refl [OF 0(5)])
next
  case (Suc n)
  note geom = Suc.prems(4) and a = Suc.prems(3-)
  have i: "i < nf" using Suc.prems(9) by simp
  show ?case
  proof (cases rule: read_flog_pair_cases [OF a(1-3) i a(4-6) a(8), case_names ok torn])
    case (torn e s1)
    obtain r a4 where "set_arena_error cb (b_laidout b) lane a s1 = (r, a4, s1)"
      using set_arena_error_dead [OF torn(2)] by blast
    then have "\<exists>e'. read_flogs_loop cb b lane (Suc n) i off a s = (Inl e', s1)"
      using torn(1) by (cases r) simp_all
    then show ?thesis using torn(2,3) by (auto intro: Suc.prems(2))
  next
    case (ok rt s1)
    let ?a1 = "a\<lparr>a_flogs := (a_flogs a)[i := rt]\<rparr>"
    have g1: "geom_of ?a1 = geom_of a" by simp
    have off': "unat (off + roundup64 (2 * sizeof_btt_flog) BTT_FLOG_PAIR_ALIGN) = flog_addr ?a1 (Suc i)"
    proof -
      have "unat (off + 64) = flog_addr a i + 64"
        using a(8) arena_geomD(4,5) [OF geom] i by (subst unat_add_small) (auto simp: flog_addr_def)
      then show ?thesis by (simp add: roundup64_def sizeof_btt_flog_def BTT_FLOG_PAIR_ALIGN_def flog_addr_def)
    qed
    have loaded: "\<forall>k < Suc i. lane_loaded (img s1) ?a1 k (a_flogs ?a1 ! k)"
      using a(9,10) i ok(4) lane_loaded_recovers [OF ok(3)]
      by (auto simp: less_Suc_eq lane_loaded_geom [OF g1])
    have inv1: "arena_geom sz nf lbs ?a1" "media_inv (img s1) ?a1 nf"
      using geom ok(3) by (simp_all add: geom_inv [OF g1] recovers_def)
    show ?thesis
    proof (rule Suc.IH [OF _ _ ok(2) inv1 a(4) _ a(6) _ off' _ loaded])
      show "unat (a_external_nlba ?a1) \<le> unat (b_nlba b)" using a(5) by simp
      show "Suc i + n = nf" "length (a_flogs ?a1) = nf" using a(7,9) by simp_all
      show thesis if "read_flogs_loop cb b lane n (Suc i) (off + roundup64 (2 * sizeof_btt_flog) BTT_FLOG_PAIR_ALIGN) ?a1 s1
          = (Inr (?a1\<lparr>a_flogs := fs\<rparr>), s')" "alive s'" "recovers lbs nf ?a1 (img s1) (img s')"
          "runtime_ok (img s') (?a1\<lparr>a_flogs := fs\<rparr>) nf" for fs s'
        using that recovers_trans [OF ok(3)] recovers_geom [OF g1]
        by (intro Suc.prems(1) [of fs s']) (simp_all add: ok(1))
      show thesis if "read_flogs_loop cb b lane n (Suc i) (off + roundup64 (2 * sizeof_btt_flog) BTT_FLOG_PAIR_ALIGN) ?a1 s1
          = (Inl e, s')" "\<not> alive s'" "recovers lbs nf ?a1 (img s1) (img s')" for e s'
        using that recovers_trans [OF ok(3)] recovers_geom [OF g1]
        by (intro Suc.prems(2) [of e s']) (simp_all add: ok(1))
    qed
  qed
qed

lemma read_flogs_cases:
  assumes alive: "alive s" and geom: "arena_geom sz nf lbs a" and inv: "media_inv (img s) a nf"
    and b: "handle_for b nf lbs" "unat (a_external_nlba a) \<le> unat (b_nlba b)" and lane: "lane < nf"
  obtains (ok) fs s' where "read_flogs cb b lane a s = (Inr (a\<lparr>a_flogs := fs\<rparr>), s')" "alive s'"
      "recovers lbs nf a (img s) (img s')" "runtime_ok (img s') (a\<lparr>a_flogs := fs\<rparr>) nf"
    | (torn) e s' where "read_flogs cb b lane a s = (Inl e, s')" "\<not> alive s'"
      "recovers lbs nf a (img s) (img s')"
proof -
  let ?a1 = "a\<lparr>a_flogs := replicate nf zero_runtime\<rparr>"
  have g1: "geom_of ?a1 = geom_of a" by simp
  have pre: "arena_geom sz nf lbs ?a1" "media_inv (img s) ?a1 nf" "unat (a_external_nlba ?a1) \<le> unat (b_nlba b)"
    using geom inv b(2) by (simp_all add: geom_inv [OF g1])
  have eq: "read_flogs cb b lane a s = read_flogs_loop cb b lane nf 0 (a_flogoff a) ?a1 s"
    using b(1) by (simp add: read_flogs_def handle_for_def)
  show ?thesis
  proof (rule read_flogs_loop_cases [OF alive pre(1,2) b(1) pre(3) lane, of 0 nf "a_flogoff a"])
    show "unat (a_flogoff a) = flog_addr ?a1 0" by (simp add: flog_addr_def)
  qed (simp_all add: eq [symmetric] recovers_geom [OF g1] that)
qed

end

end
