(* ===== verification/Btt_Handle.thy ===== *)
theory Btt_Handle
  imports Btt_Recovery
begin

text \<open>
  A BTT handle with all its arenas as one disk: the list of blocks a client sees.
  The operations of libpmemblk/btt.c are shown to act on it as plain list
  operations, whatever arena a block lives in.
\<close>

section \<open>From external block numbers to arenas\<close>

definition ext_sizes :: "arena list \<Rightarrow> nat list" where
  "ext_sizes as = map (\<lambda>a. unat (a_external_nlba a)) as"

lemma lba_to_arena_loop_found:
  assumes "unat lba < sum_list (ext_sizes as)"
  shows "\<exists>k p. lba_to_arena_loop as lba n = Inr (n + k, p) \<and> k < length as \<and>
    unat p < unat (a_external_nlba (as ! k)) \<and> unat lba = sum_list (take k (ext_sizes as)) + unat p"
  using assms
proof (induction as lba n rule: lba_to_arena_loop.induct)
  case (1 lba n)
  then show ?case by (simp add: ext_sizes_def)
next
  case (2 a as lba n)
  let ?e = "ucast (a_external_nlba a) :: u64"
  show ?case
  proof (cases "lba < ?e")
    case True
    then have lt: "unat lba < unat (a_external_nlba a)" by (simp add: word_less_nat_alt)
    then have "unat lba < 2 ^ 32" by (rule less_trans) simp
    then have "unat (ucast lba :: u32) = unat lba" by (simp add: unsigned_ucast_eq take_bit_nat_eq_self)
    with True lt show ?thesis by (intro exI [of _ 0] exI [of _ "ucast lba"]) (simp add: ext_sizes_def)
  next
    case False
    then have ge: "unat (a_external_nlba a) \<le> unat lba" by (simp add: word_less_nat_alt)
    then have sub: "unat (lba - ?e) = unat lba - unat (a_external_nlba a)" by (simp add: unat_sub_small)
    have "unat (lba - ?e) < sum_list (ext_sizes as)"
      using 2(2) ge by (simp add: sub ext_sizes_def)
    from 2(1) [OF False this] obtain k p where
      "lba_to_arena_loop as (lba - ?e) (Suc n) = Inr (Suc n + k, p)" "k < length as"
      "unat p < unat (a_external_nlba (as ! k))" "unat (lba - ?e) = sum_list (take k (ext_sizes as)) + unat p"
      by blast
    then show ?thesis
      using False ge by (intro exI [of _ "Suc k"] exI [of _ p]) (simp add: ext_sizes_def sub)
  qed
qed

lemma lba_to_arena_lba_found:
  assumes "unat (b_nlba b) = sum_list (ext_sizes (b_arenas b))" "\<not> invalid_lba b lba"
  obtains k p where "lba_to_arena_lba b lba = Inr (k, p)" "k < length (b_arenas b)"
    "unat p < unat (a_external_nlba (b_arenas b ! k))"
    "unat lba = sum_list (take k (ext_sizes (b_arenas b))) + unat p"
proof -
  have "unat lba < sum_list (ext_sizes (b_arenas b))"
    using assms by (simp add: invalid_lba_def not_le word_less_nat_alt)
  from lba_to_arena_loop_found [OF this, of 0] that show ?thesis by (auto simp: lba_to_arena_lba_def)
qed

section \<open>The disk\<close>

definition arena_blocks :: "nat \<Rightarrow> nat \<Rightarrow> mem \<Rightarrow> arena \<Rightarrow> block list" where
  "arena_blocks lbs nf m a = map (block_at lbs m a nf) [0..<unat (a_external_nlba a)]"

definition disk :: "nat \<Rightarrow> nat \<Rightarrow> mem \<Rightarrow> arena list \<Rightarrow> block list" where
  "disk lbs nf m as = concat (map (arena_blocks lbs nf m) as)"

lemma length_arena_blocks [simp]: "length (arena_blocks lbs nf m a) = unat (a_external_nlba a)"
  by (simp add: arena_blocks_def)

lemma length_disk: "length (disk lbs nf m as) = sum_list (ext_sizes as)"
  by (simp add: disk_def length_concat ext_sizes_def comp_def)

lemma concat_nth_update:
  assumes "k < length xss" "p < length (xss ! k)"
  shows "concat xss ! (sum_list (take k (map length xss)) + p) = xss ! k ! p"
    and "concat (xss[k := (xss ! k)[p := v]]) = (concat xss)[sum_list (take k (map length xss)) + p := v]"
  using assms
proof (induction xss arbitrary: k)
  case Nil
  {
    case 1
    then show ?case by simp
  next
    case 2
    then show ?case by simp
  }
next
  case (Cons xs xss)
  {
    case 1
    then show ?case using Cons.IH(1) by (cases k) (auto simp: nth_append)
  next
    case 2
    then show ?case using Cons.IH(2) by (cases k) (auto simp: list_update_append)
  }
qed

lemma disk_lens: "map length (map (arena_blocks lbs nf m) as) = ext_sizes as"
  by (simp add: ext_sizes_def comp_def)

lemma disk_nth:
  assumes "k < length as" "p < unat (a_external_nlba (as ! k))"
  shows "disk lbs nf m as ! (sum_list (take k (ext_sizes as)) + p) = block_at lbs m (as ! k) nf p"
proof -
  have "disk lbs nf m as ! (sum_list (take k (ext_sizes as)) + p) = arena_blocks lbs nf m (as ! k) ! p"
    using concat_nth_update(1) [of k "map (arena_blocks lbs nf m) as" p] assms
    unfolding disk_lens disk_def by simp
  with assms(2) show ?thesis by (simp add: arena_blocks_def)
qed

lemma disk_update:
  assumes "k < length as" "p < unat (a_external_nlba (as ! k))"
    and "blocks_set lbs nf (as ! k) m p v m'"
    and "\<And>j. j < length as \<Longrightarrow> j \<noteq> k \<Longrightarrow> blocks_same lbs nf (as ! j) m m'"
  shows "disk lbs nf m' as = (disk lbs nf m as)[sum_list (take k (ext_sizes as)) + p := v]"
proof -
  have "map (arena_blocks lbs nf m') as = (map (arena_blocks lbs nf m) as)[k := (map (arena_blocks lbs nf m) as ! k)[p := v]]"
  proof (rule nth_equalityI)
    fix j assume "j < length (map (arena_blocks lbs nf m') as)"
    then have j: "j < length as" by simp
    show "map (arena_blocks lbs nf m') as ! j =
        (map (arena_blocks lbs nf m) as)[k := (map (arena_blocks lbs nf m) as ! k)[p := v]] ! j"
    proof (cases "j = k")
      case True
      have "arena_blocks lbs nf m' (as ! k) = (arena_blocks lbs nf m (as ! k))[p := v]"
        using assms(2,3) by (auto simp: arena_blocks_def blocks_set_def nth_list_update intro!: nth_equalityI)
      with True j show ?thesis by simp
    next
      case False
      have "arena_blocks lbs nf m' (as ! j) = arena_blocks lbs nf m (as ! j)"
        using assms(4) [OF j False] by (simp add: arena_blocks_def blocks_same_def)
      with False j show ?thesis by simp
    qed
  qed simp
  with concat_nth_update(2) [of k "map (arena_blocks lbs nf m) as" p v] assms(1,2)
  show ?thesis unfolding disk_lens disk_def by simp
qed

lemma disk_same: "(\<And>a. a \<in> set as \<Longrightarrow> blocks_same lbs nf a m m') \<Longrightarrow> disk lbs nf m' as = disk lbs nf m as"
  by (auto simp: disk_def arena_blocks_def blocks_same_def intro!: arg_cong [where f = concat])

lemma disk_geom:
  assumes "map geom_of as' = map geom_of as"
  shows "disk lbs nf m as' = disk lbs nf m as" "ext_sizes as' = ext_sizes as"
proof -
  have len: "length as' = length as" using assms by (metis length_map)
  have g: "geom_of (as' ! k) = geom_of (as ! k)" if "k < length as" for k
    using assms that len by (metis nth_map)
  have "map (arena_blocks lbs nf m) as' = map (arena_blocks lbs nf m) as"
    by (rule nth_equalityI)
      (use g len in \<open>auto simp: arena_blocks_def geom_inv(3) [OF g] geom_fields(5) [OF g]\<close>)
  then show "disk lbs nf m as' = disk lbs nf m as" by (simp add: disk_def)
  show "ext_sizes as' = ext_sizes as"
    by (rule nth_equalityI) (use g len in \<open>auto simp: ext_sizes_def geom_fields(5) [OF g]\<close>)
qed

section \<open>Arenas do not disturb each other\<close>

lemma arena_frame:
  assumes geom: "arena_geom n nf lbs a" and inv: "media_inv m a nf"
    and eq: "\<forall>x. \<not> outside_arena a nf x \<longrightarrow> m' x = m x"
  shows "media_inv m' a nf" "blocks_same lbs nf a m m'" "runtime_ok m a nf \<Longrightarrow> runtime_ok m' a nf"
proof -
  note g = arena_geomD [OF geom]
  have "meta_eq m m' a nf" using eq g(2) by (auto simp: meta_eq_def outside_arena_def)
  then have sim: "meta_sim m m' a nf" using inv by (intro meta_simI [OF geom]) (auto simp: media_inv_def)
  show "media_inv m' a nf" by (rule meta_sim_inv [OF sim inv])
  show "runtime_ok m a nf \<Longrightarrow> runtime_ok m' a nf" by (rule meta_sim_runtime [OF sim])
  have "block_at lbs m' a nf i = block_at lbs m a nf i" if i: "i < unat (a_external_nlba a)" for i
  proof (rule meta_sim_block [OF sim i])
    show "unat (a_external_nlba a) \<le> 2 ^ 30" using g(6,7) by linarith
    have "data_addr a (eff_block m a nf i) + lbs \<le> unat (a_mapoff a)"
      using block_end_le [OF geom used_blocksD(1) [OF inv i]] .
    then show "rd m' (data_addr a (eff_block m a nf i)) lbs = rd m (data_addr a (eff_block m a nf i)) lbs"
      using g(3) by (intro rd_eqI eq [rule_format]) (auto simp: outside_arena_def data_addr_def)
  qed
  then show "blocks_same lbs nf a m m'" by (simp add: blocks_same_def)
qed

text \<open>Arenas laid out one after the other.\<close>

definition arenas_apart :: "nat \<Rightarrow> arena list \<Rightarrow> bool" where
  "arenas_apart nf as \<longleftrightarrow> sorted_wrt (\<lambda>a c. unat (a_flogoff a) + 64 * nf \<le> unat (a_startoff c)) as"

lemma arenas_apart_outside:
  assumes "arenas_apart nf as" "j < length as" "k < length as" "j \<noteq> k"
    and "\<forall>a \<in> set as. arena_geom n nf lbs a" "\<not> outside_arena (as ! j) nf x"
  shows "outside_arena (as ! k) nf x"
proof -
  have w: "unat (a_flogoff (as ! i)) + 64 * nf \<le> unat (a_startoff (as ! i'))" if "i < i'" "i' < length as" for i i'
    using assms(1) that by (auto simp: arenas_apart_def dest: sorted_wrt_nth_less)
  have "unat (a_startoff (as ! i)) \<le> unat (a_dataoff (as ! i))" if "i < length as" for i
    using assms(5) that arena_geomD(1) [of n nf lbs "as ! i"] by force
  with w [of j k] w [of k j] assms(2-4,6) show ?thesis
    by (cases "j < k") (force simp: outside_arena_def)+
qed

section \<open>The info blocks\<close>

text \<open>
  The info blocks on the medium describe the arenas of the list: the first one
  starts at \<open>off\<close>, each gives the place of the next, and no error flag is set.
\<close>

definition info_describes :: "mem \<Rightarrow> arena \<Rightarrow> bool" where
  "info_describes m a \<longleftrightarrow>
     (let a' = arena_of_info (a_startoff a) (btt_info_convert2h (rd m (unat (a_startoff a)) 4096))
      in geom_of a' = geom_of a \<and> a_flags a' AND BTTINFO_FLAG_ERROR_MASK = 0)"

fun infos_chain :: "mem \<Rightarrow> u64 \<Rightarrow> arena list \<Rightarrow> bool" where
  "infos_chain m off [] \<longleftrightarrow> True"
| "infos_chain m off (a # as) \<longleftrightarrow> a_startoff a = off \<and> info_describes m a \<and> infos_chain m (a_nextoff a) as"

lemma infos_chain_cong:
  assumes "\<And>a x. a \<in> set as \<Longrightarrow> unat (a_startoff a) \<le> x \<Longrightarrow> x < unat (a_startoff a) + 4096 \<Longrightarrow> m' x = m x"
  shows "infos_chain m off as \<Longrightarrow> infos_chain m' off as"
  using assms
proof (induction as arbitrary: off)
  case Nil
  then show ?case by simp
next
  case (Cons a as)
  have "rd m' (unat (a_startoff a)) 4096 = rd m (unat (a_startoff a)) 4096"
    using Cons.prems(2) [of a] by (intro rd_eqI) auto
  with Cons show ?case by (auto simp: info_describes_def)
qed

lemma infos_chain_geom: "map geom_of as' = map geom_of as \<Longrightarrow> infos_chain m off as' = infos_chain m off as"
proof (induction as' arbitrary: as off)
  case Nil
  then show ?case by simp
next
  case (Cons a' as')
  then obtain a as1 where as: "as = a # as1" "geom_of a' = geom_of a" "map geom_of as' = map geom_of as1" by auto
  note g = geom_fields [OF as(2)]
  show ?case using Cons.IH [OF as(3)] as(2) by (simp add: as(1) info_describes_def g)
qed

text \<open>The info blocks lie outside of all data, map and flog areas.\<close>

lemma info_outside:
  assumes "arenas_apart nf as" "\<forall>c \<in> set as. arena_geom n nf lbs c" "a \<in> set as" "c \<in> set as"
    and "unat (a_startoff a) \<le> x" "x < unat (a_startoff a) + 4096"
  shows "outside_arena c nf x"
proof -
  obtain j k where jk: "j < length as" "a = as ! j" "k < length as" "c = as ! k"
    using assms(3,4) by (auto simp: in_set_conv_nth)
  have w: "unat (a_flogoff (as ! i)) + 64 * nf \<le> unat (a_startoff (as ! i'))" if "i < i'" "i' < length as" for i i'
    using assms(1) that by (auto simp: arenas_apart_def dest: sorted_wrt_nth_less)
  have g: "unat (a_startoff (as ! i)) + 4096 \<le> unat (a_dataoff (as ! i))"
    "unat (a_dataoff (as ! i)) \<le> unat (a_flogoff (as ! i))" if "i < length as" for i
    using assms(2) that arena_geomD(1-3) [of n nf lbs "as ! i"] by force+
  show ?thesis
    using w [of j k] w [of k j] g [of j] g [of k] jk assms(5,6)
    by (cases j k rule: linorder_cases) (auto simp: outside_arena_def)
qed

lemma infos_chain_frame:
  assumes "arenas_apart nf as" "\<forall>c \<in> set as. arena_geom n nf lbs c" "infos_chain m off as"
    and "\<forall>x. (\<forall>a \<in> set as. outside_arena a nf x) \<longrightarrow> m' x = m x"
  shows "infos_chain m' off as"
  by (rule infos_chain_cong [OF _ assms(3)]) (use info_outside [OF assms(1,2)] assms(4) in blast)

section \<open>Handles in use\<close>

definition locks_free :: "arena \<Rightarrow> bool" where
  "locks_free a \<longleftrightarrow> True \<notin> set (a_map_locks a)"

text \<open>No lane has a read in flight.\<close>

definition rtt_idle :: "arena \<Rightarrow> bool" where
  "rtt_idle a \<longleftrightarrow> set (a_rtt a) \<subseteq> {BTT_MAP_ENTRY_ERROR}"

definition handle_ready :: "nat \<Rightarrow> mem \<Rightarrow> btt \<Rightarrow> bool" where
  "handle_ready n m b \<longleftrightarrow>
     b_laidout b \<and> b_narena b = length (b_arenas b) \<and>
     unat (b_nlba b) = sum_list (ext_sizes (b_arenas b)) \<and>
     arenas_apart (unat (b_nfree b)) (b_arenas b) \<and> infos_chain m 0 (b_arenas b) \<and>
     (\<forall>a \<in> set (b_arenas b).
        arena_ready n (unat (b_nfree b)) (unat (b_lbasize b)) m a \<and> rtt_idle a \<and> locks_free a \<and>
        a_flags a AND BTTINFO_FLAG_ERROR_MASK = 0)"

definition btt_disk :: "btt \<Rightarrow> mem \<Rightarrow> block list" where
  "btt_disk b m = disk (unat (b_lbasize b)) (unat (b_nfree b)) m (b_arenas b)"

lemma normal_entry_not_error: "normal_entry e \<noteq> BTT_MAP_ENTRY_ERROR"
  using normal_entry_state(2) [of e] by (auto simp: map_entry_is_error_def btt_const_defs)

lemma handle_readyD:
  assumes "handle_ready n m b" "k < length (b_arenas b)"
  shows "arena_geom n (unat (b_nfree b)) (unat (b_lbasize b)) (b_arenas b ! k)"
    and "media_inv m (b_arenas b ! k) (unat (b_nfree b))"
    and "runtime_ok m (b_arenas b ! k) (unat (b_nfree b))"
    and "rtt_idle (b_arenas b ! k)" "locks_free (b_arenas b ! k)"
    and "a_flags (b_arenas b ! k) AND BTTINFO_FLAG_ERROR_MASK = 0"
  using assms nth_mem [OF assms(2)] by (auto simp: handle_ready_def arena_ready_def)

lemma handle_for_self: "handle_for b (unat (b_nfree b)) (unat (b_lbasize b))"
  by (simp add: handle_for_def)

text \<open>The media of all arenas are in order, with or without pending map updates.\<close>

definition media_ready :: "mem \<Rightarrow> btt \<Rightarrow> bool" where
  "media_ready m b \<longleftrightarrow> (\<forall>a \<in> set (b_arenas b). media_inv m a (unat (b_nfree b)))"

definition outside_arenas :: "btt \<Rightarrow> nat \<Rightarrow> bool" where
  "outside_arenas b x \<longleftrightarrow> (\<forall>a \<in> set (b_arenas b). outside_arena a (unat (b_nfree b)) x)"

text \<open>What a change inside one arena means for the others and for the disk.\<close>

lemma other_arenas:
  assumes "handle_ready n m b" "k < length (b_arenas b)" "j < length (b_arenas b)" "j \<noteq> k"
    and "\<forall>x. outside_arena (b_arenas b ! k) (unat (b_nfree b)) x \<longrightarrow> m' x = m x"
  shows "media_inv m' (b_arenas b ! j) (unat (b_nfree b))"
    and "blocks_same (unat (b_lbasize b)) (unat (b_nfree b)) (b_arenas b ! j) m m'"
    and "runtime_ok m' (b_arenas b ! j) (unat (b_nfree b))"
proof -
  have "\<forall>x. \<not> outside_arena (b_arenas b ! j) (unat (b_nfree b)) x \<longrightarrow> m' x = m x"
    using assms by (auto simp: handle_ready_def arena_ready_def
        intro!: arenas_apart_outside [OF _ assms(3,2,4), of _ n "unat (b_lbasize b)"])
  note f = arena_frame [OF handle_readyD(1,2) [OF assms(1,3)] this]
  show "media_inv m' (b_arenas b ! j) (unat (b_nfree b))"
    "blocks_same (unat (b_lbasize b)) (unat (b_nfree b)) (b_arenas b ! j) m m'"
    "runtime_ok m' (b_arenas b ! j) (unat (b_nfree b))"
    using f(1,2) f(3) [OF handle_readyD(3) [OF assms(1,3)]] by auto
qed

lemma media_step:
  assumes ready: "handle_ready n m b" and k: "k < length (b_arenas b)"
    and p: "p < unat (a_external_nlba (b_arenas b ! k))"
    and inv: "media_inv m' (b_arenas b ! k) (unat (b_nfree b))"
    and out: "\<forall>x. outside_arena (b_arenas b ! k) (unat (b_nfree b)) x \<longrightarrow> m' x = m x"
  shows "media_ready m' b" "\<forall>x. outside_arenas b x \<longrightarrow> m' x = m x"
    and "blocks_set (unat (b_lbasize b)) (unat (b_nfree b)) (b_arenas b ! k) m p v m' \<Longrightarrow>
      btt_disk b m' = (btt_disk b m)[sum_list (take k (ext_sizes (b_arenas b))) + p := v]"
    and "blocks_same (unat (b_lbasize b)) (unat (b_nfree b)) (b_arenas b ! k) m m' \<Longrightarrow>
      btt_disk b m' = btt_disk b m"
proof -
  note oth = other_arenas [OF ready k _ _ out]
  show "media_ready m' b"
    unfolding media_ready_def
  proof
    fix a assume "a \<in> set (b_arenas b)"
    then obtain j where "j < length (b_arenas b)" "a = b_arenas b ! j" by (auto simp: in_set_conv_nth)
    then show "media_inv m' a (unat (b_nfree b))" using inv oth(1) by (cases "j = k") auto
  qed
  show "\<forall>x. outside_arenas b x \<longrightarrow> m' x = m x"
    using out k by (auto simp: outside_arenas_def)
  show "btt_disk b m' = (btt_disk b m)[sum_list (take k (ext_sizes (b_arenas b))) + p := v]"
    if "blocks_set (unat (b_lbasize b)) (unat (b_nfree b)) (b_arenas b ! k) m p v m'"
    unfolding btt_disk_def by (rule disk_update [OF k p that oth(2)])
  show "btt_disk b m' = btt_disk b m"
    if "blocks_same (unat (b_lbasize b)) (unat (b_nfree b)) (b_arenas b ! k) m m'"
    unfolding btt_disk_def
  proof (rule disk_same)
    fix a assume "a \<in> set (b_arenas b)"
    then obtain j where "j < length (b_arenas b)" "a = b_arenas b ! j" by (auto simp: in_set_conv_nth)
    then show "blocks_same (unat (b_lbasize b)) (unat (b_nfree b)) a m m'" using that oth(2) by (cases "j = k") auto
  qed
qed

definition set_arena :: "btt \<Rightarrow> nat \<Rightarrow> arena \<Rightarrow> btt" where
  "set_arena b k a = b\<lparr>b_arenas := (b_arenas b)[k := a]\<rparr>"

lemma sorted_wrt_map_cong: "sorted_wrt (\<lambda>x y. P (f x) (f y)) xs \<longleftrightarrow> sorted_wrt P (map f xs)"
  by (simp add: sorted_wrt_map)

lemma arenas_apart_geom:
  assumes "map geom_of as' = map geom_of as"
  shows "arenas_apart nf as' = arenas_apart nf as"
proof -
  let ?P = "\<lambda>g g' :: u64 \<times> u64 \<times> u64 \<times> u64 \<times> u32 \<times> u32 \<times> u32 \<times> u64.
    unat (fst (snd (snd (snd g)))) + 64 * nf \<le> unat (fst g')"
  have "arenas_apart nf as = sorted_wrt ?P (map geom_of as)" for as
    by (simp add: arenas_apart_def sorted_wrt_map geom_of_def)
  then show ?thesis by (simp only: assms)
qed

lemma set_arena_geom:
  assumes "k < length (b_arenas b)" "geom_of a' = geom_of (b_arenas b ! k)"
  shows "map geom_of ((b_arenas b)[k := a']) = map geom_of (b_arenas b)"
  by (rule nth_equalityI) (use assms in \<open>auto simp: nth_list_update\<close>)

lemma set_arena_disk:
  assumes "k < length (b_arenas b)" "geom_of a' = geom_of (b_arenas b ! k)"
  shows "btt_disk (set_arena b k a') = btt_disk b"
  by (rule ext) (simp add: btt_disk_def set_arena_def disk_geom(1) [OF set_arena_geom [OF assms]])

text \<open>Two handles of the same layout.\<close>

definition same_handle :: "btt \<Rightarrow> btt \<Rightarrow> bool" where
  "same_handle b b' \<longleftrightarrow> b_nlane b' = b_nlane b \<and> b_nfree b' = b_nfree b \<and> b_lbasize b' = b_lbasize b \<and>
     b_nlba b' = b_nlba b \<and> b_rawsize b' = b_rawsize b \<and> b_parent_uuid b' = b_parent_uuid b \<and>
     map geom_of (b_arenas b') = map geom_of (b_arenas b)"

lemma same_handle_set_arena:
  "k < length (b_arenas b) \<Longrightarrow> geom_of a' = geom_of (b_arenas b ! k) \<Longrightarrow> same_handle b (set_arena b k a')"
  using set_arena_geom [of k b a'] by (simp add: same_handle_def set_arena_def)

lemma handle_step:
  assumes ready: "handle_ready n m b" and k: "k < length (b_arenas b)"
    and a': "geom_of a' = geom_of (b_arenas b ! k)" "runtime_ok m' a' (unat (b_nfree b))"
      "rtt_idle a'" "locks_free a'" "a_flags a' AND BTTINFO_FLAG_ERROR_MASK = 0"
    and inv: "media_inv m' (b_arenas b ! k) (unat (b_nfree b))"
    and out: "\<forall>x. outside_arena (b_arenas b ! k) (unat (b_nfree b)) x \<longrightarrow> m' x = m x"
  shows "handle_ready n m' (set_arena b k a')" "btt_disk (set_arena b k a') m' = btt_disk b m'"
proof -
  let ?as = "(b_arenas b)[k := a']"
  note gm = set_arena_geom [OF k a'(1)]
  show "btt_disk (set_arena b k a') m' = btt_disk b m'" by (simp add: set_arena_disk [OF k a'(1)])
  have "arena_ready n (unat (b_nfree b)) (unat (b_lbasize b)) m' a \<and> rtt_idle a \<and> locks_free a \<and>
      a_flags a AND BTTINFO_FLAG_ERROR_MASK = 0" if "a \<in> set ?as" for a
  proof -
    obtain j where j: "j < length (b_arenas b)" "a = ?as ! j"
      using \<open>a \<in> set ?as\<close> by (metis in_set_conv_nth length_list_update)
    show ?thesis
    proof (cases "j = k")
      case True
      then show ?thesis
        using j a' inv handle_readyD(1) [OF ready k] by (simp add: arena_ready_def geom_inv [OF a'(1)])
    next
      case False
      then show ?thesis
        using j other_arenas [OF ready k j(1) False out] handle_readyD [OF ready j(1)]
        by (simp add: arena_ready_def)
    qed
  qed
  moreover have "infos_chain m' 0 (b_arenas b)"
  proof (rule infos_chain_frame [of "unat (b_nfree b)" "b_arenas b" n "unat (b_lbasize b)" m])
    show "\<forall>x. (\<forall>a \<in> set (b_arenas b). outside_arena a (unat (b_nfree b)) x) \<longrightarrow> m' x = m x"
      using k out nth_mem by blast
  qed (use ready in \<open>simp_all add: handle_ready_def arena_ready_def\<close>)
  then have "infos_chain m' 0 ?as" by (simp add: infos_chain_geom [OF gm])
  ultimately show "handle_ready n m' (set_arena b k a')"
    using ready by (auto simp: handle_ready_def set_arena_def disk_geom(2) [OF gm] arenas_apart_geom [OF gm])
qed

section \<open>Reads\<close>

definition read_result :: "block \<Rightarrow> err + byte list" where
  "read_result v = (case v of ErrorBlock \<Rightarrow> Inl EIO | DataBlock bs \<Rightarrow> Inr bs)"

lemma set_rtt_fields [simp]:
  "geom_of (set_rtt a l e) = geom_of a" "a_flogs (set_rtt a l e) = a_flogs a"
  "a_flags (set_rtt a l e) = a_flags a" "a_map_locks (set_rtt a l e) = a_map_locks a"
  "set_rtt (set_rtt a l e) l e' = set_rtt a l e'"
  by (simp_all add: set_rtt_def geom_of_def)

lemma set_rtt_idle: "rtt_idle a \<Longrightarrow> rtt_idle (set_rtt a l BTT_MAP_ENTRY_ERROR)"
  unfolding rtt_idle_def set_rtt_def using set_update_subset_insert [of "a_rtt a" l BTT_MAP_ENTRY_ERROR] by auto

context crash_namespace
begin

lemma btt_read_loop_alone:
  assumes alive: "alive s" and geom: "arena_geom sz nf lbs a" and inv: "media_inv (img s) a nf"
    and q: "quiescent (img s) a nf" and p: "unat p < unat (a_external_nlba a)" and lbs: "unat lbasize = lbs"
  shows "\<exists>a'. btt_read_loop cb lbasize lane a (map_entry_off a p) (map_raw (img s) a (unat p)) [s, s] =
      (read_result (block_at lbs (img s) a nf (unat p)), a') \<and> (a' = a \<or> a' = set_rtt a lane BTT_MAP_ENTRY_ERROR)"
proof -
  let ?e = "map_raw (img s) a (unat p)"
  note g = arena_geomD [OF geom]
  have fits: "map_addr a (unat p) + 4 \<le> sz" using g(3,4) p by (simp add: map_addr_def)
  have entry: "nsread cb s lane 4 (map_entry_off a p) = Inr (rd (img s) (map_addr a (unat p)) 4)"
    using read_alive [OF alive, of "map_entry_off a p" 4] fits by (simp add: unat_map_entry_off [OF geom p])
  have data: "nsread cb s lane lbs (data_block_off a ?e) = Inr (rd (img s) (data_addr a (entry_block ?e)) lbs)"
    if "\<not> map_entry_is_zero_or_initial ?e"
  proof -
    have "\<not> map_entry_is_initial ?e"
      using that by (auto simp: map_entry_is_initial_def map_entry_is_zero_or_initial_def)
    then have "entry_block ?e = eff_block (img s) a nf (unat p)"
      by (simp add: quiescent_eff_block [OF q] norm_entry_def)
    then have lt: "entry_block ?e < unat (a_internal_nlba a)" using used_blocksD(1) [OF inv p] by simp
    have "data_addr a (entry_block ?e) + lbs \<le> sz" using block_end_le [OF geom lt] g(3,4) by linarith
    with lt show ?thesis using read_alive [OF alive] by (simp add: unat_data_block_off [OF geom])
  qed
  show ?thesis
    using data lbs
    by (simp add: btt_read_loop.simps entry block_at_def block_of_entry_def quiescent_eff [OF q] read_result_def
        zero_block_def flip: map_raw_def)
qed

lemma btt_read_seq_disk:
  assumes alive: "alive s" and ready: "handle_ready sz (img s) b" and lba: "\<not> invalid_lba b lba"
  shows "\<exists>b'. btt_read_seq cb b lane lba s = (read_result (btt_disk b (img s) ! unat lba), b') \<and>
      handle_ready sz (img s) b' \<and> btt_disk b' = btt_disk b \<and> same_handle b b'"
proof -
  obtain k p where kp: "lba_to_arena_lba b lba = Inr (k, p)" "k < length (b_arenas b)"
    "unat p < unat (a_external_nlba (b_arenas b ! k))"
    "unat lba = sum_list (take k (ext_sizes (b_arenas b))) + unat p"
    using ready lba by (auto simp: handle_ready_def elim: lba_to_arena_lba_found)
  let ?a = "b_arenas b ! k"
  note r = handle_readyD [OF ready kp(2)]
  have entry: "nsread cb s lane 4 (map_entry_off ?a p) = Inr (rd (img s) (map_addr ?a (unat p)) 4)"
    using read_alive [OF alive, of "map_entry_off ?a p" 4] kp(3) arena_geomD(3,4) [OF r(1)]
    by (simp add: unat_map_entry_off [OF r(1) kp(3)] map_addr_def)
  obtain a' where a': "btt_read_loop cb (b_lbasize b) lane ?a (map_entry_off ?a p) (map_raw (img s) ?a (unat p)) [s, s] =
      (read_result (block_at (unat (b_lbasize b)) (img s) ?a (unat (b_nfree b)) (unat p)), a')"
    "a' = ?a \<or> a' = set_rtt ?a lane BTT_MAP_ENTRY_ERROR"
    using btt_read_loop_alone [OF alive r(1,2) runtime_quiescent [OF r(3)] kp(3) refl] by blast
  have blk: "btt_disk b (img s) ! unat lba = block_at (unat (b_lbasize b)) (img s) ?a (unat (b_nfree b)) (unat p)"
    by (simp add: btt_disk_def kp(4) disk_nth [OF kp(2,3)])
  have laid: "b_laidout b" using ready by (simp add: handle_ready_def)
  have step: "btt_read_seq cb b lane lba s = (read_result (btt_disk b (img s) ! unat lba), set_arena b k a')"
    using lba laid by (simp add: btt_read_seq_def btt_read_def kp(1) entry a'(1) blk set_arena_def flip: map_raw_def)
  have g: "geom_of a' = geom_of ?a" and fl: "a_flogs a' = a_flogs ?a" using a'(2) by auto
  have "runtime_ok (img s) a' (unat (b_nfree b))" using r(3) geom_runtime [OF g fl] by simp
  moreover have "rtt_idle a'" "locks_free a'" "a_flags a' AND BTTINFO_FLAG_ERROR_MASK = 0"
    using a'(2) r(4-6) set_rtt_idle by (auto simp: locks_free_def)
  ultimately have "handle_ready sz (img s) (set_arena b k a')"
    using handle_step(1) [OF ready kp(2) g _ _ _ _ r(2)] by blast
  moreover have "btt_disk (set_arena b k a') = btt_disk b" by (rule set_arena_disk [OF kp(2) g])
  ultimately show ?thesis using step same_handle_set_arena [OF kp(2) g] by blast
qed

section \<open>Writes\<close>

lemma btt_write_cases:
  assumes alive: "alive s" and ready: "handle_ready sz (img s) b" and lba: "\<not> invalid_lba b lba"
    and lane: "lane < unat (b_nfree b)" and buf: "length buf = unat (b_lbasize b)"
  obtains (ok) b' s' where "btt_write cb gen b lane lba buf s = (Inr (), b', s')" "alive s'"
      "handle_ready sz (img s') b'" "same_handle b b'"
      "btt_disk b' (img s') = (btt_disk b (img s))[unat lba := DataBlock buf]"
      "\<forall>x. outside_arenas b x \<longrightarrow> img s' x = img s x"
    | (torn) e b' s' where "btt_write cb gen b lane lba buf s = (Inl e, b', s')" "\<not> alive s'"
      "media_ready (img s') b" "\<forall>x. outside_arenas b x \<longrightarrow> img s' x = img s x"
      "btt_disk b (img s') \<in> {btt_disk b (img s), (btt_disk b (img s))[unat lba := DataBlock buf]}"
proof -
  obtain k p where kp: "lba_to_arena_lba b lba = Inr (k, p)" "k < length (b_arenas b)"
    "unat p < unat (a_external_nlba (b_arenas b ! k))"
    "unat lba = sum_list (take k (ext_sizes (b_arenas b))) + unat p"
    using ready lba by (auto simp: handle_ready_def elim: lba_to_arena_lba_found)
  let ?a = "b_arenas b ! k"
  note r = handle_readyD [OF ready kp(2)]
  have laid: "b_laidout b" using ready by (simp add: handle_ready_def)
  have rtt: "normal_entry (flog_old_map (rt_flog (a_flogs ?a ! lane))) \<notin> set (take (unat (b_nlane b)) (a_rtt ?a))"
    using r(4) normal_entry_not_error set_take_subset by (fastforce simp: rtt_idle_def)
  have step: "btt_write cb gen b lane lba buf s = (case btt_write_arena cb b lane ?a s p buf of
      (r, a, s2) \<Rightarrow> (r, set_arena b k a, s2))"
    using lba laid by (simp add: btt_write_def ensure_layout_def kp(1) set_arena_def)
  show ?thesis
  proof (cases rule: btt_write_arena_cases [OF alive r(1-3) handle_for_self lane kp(3) buf r(6) rtt,
        case_names ok torn])
    case (ok old new s')
    let ?a' = "flog_updated (lock_map ?a (get_map_lock_num p (b_nfree b)) False) lane p old new"
    note wc = ok(3) [unfolded write_complete_def]
    have rt: "runtime_ok (img s') ?a' (unat (b_nfree b))"
      using ok(4) geom_runtime [of ?a' "flog_updated ?a lane p old new"]
      by (simp add: flog_updated_def Let_def)
    have lk: "locks_free ?a'" "rtt_idle ?a'"
      using r(4,5) set_update_subset_insert [of "a_map_locks ?a" "get_map_lock_num p (b_nfree b)" False]
      by (auto simp: locks_free_def rtt_idle_def lock_map_def flog_updated_def Let_def)
    have g: "geom_of ?a' = geom_of ?a" and fl: "a_flags ?a' AND BTTINFO_FLAG_ERROR_MASK = 0" using r(6) by simp_all
    have inv: "media_inv (img s') ?a (unat (b_nfree b))"
      and out: "\<forall>x. outside_arena ?a (unat (b_nfree b)) x \<longrightarrow> img s' x = img s x" using wc by auto
    note hs = handle_step [OF ready kp(2) g rt lk(2,1) fl inv out]
    have "btt_disk (set_arena b k ?a') (img s') = (btt_disk b (img s))[unat lba := DataBlock buf]"
      using hs(2) media_step(3) [OF ready kp(2,3) inv out] wc by (simp add: kp(4))
    then show ?thesis
      using ok(1,2) hs(1) same_handle_set_arena [OF kp(2) g] media_step(2) [OF ready kp(2,3) inv out]
      by (intro that(1)) (simp_all add: step)
  next
    case (torn e a' s')
    note wa = torn(3) [unfolded write_atomic_def]
    have inv: "media_inv (img s') ?a (unat (b_nfree b))"
      and out: "\<forall>x. outside_arena ?a (unat (b_nfree b)) x \<longrightarrow> img s' x = img s x" using wa by auto
    note ms = media_step [OF ready kp(2,3) inv out]
    have "btt_disk b (img s') \<in> {btt_disk b (img s), (btt_disk b (img s))[unat lba := DataBlock buf]}"
      using ms(3,4) wa by (auto simp: kp(4))
    then show ?thesis using torn(1,2) ms(1,2) by (intro that(2)) (simp_all add: step)
  qed
qed

end

section \<open>Zero and error states\<close>

definition setf_block :: "nat \<Rightarrow> u32 \<Rightarrow> block" where
  "setf_block lbs setf = (if setf = BTT_MAP_ENTRY_ERROR then ErrorBlock else DataBlock (replicate lbs 0))"

lemma setf_masked: "setf \<in> {BTT_MAP_ENTRY_ZERO, BTT_MAP_ENTRY_ERROR} \<Longrightarrow> setf AND BTT_MAP_ENTRY_LBA_MASK = 0"
  by (auto simp: btt_const_defs)

lemma setf_entry:
  assumes "setf \<in> {BTT_MAP_ENTRY_ZERO, BTT_MAP_ENTRY_ERROR}"
  shows "\<not> map_entry_is_initial ((e AND BTT_MAP_ENTRY_LBA_MASK) OR setf)"
    and "block_of_entry lbs m a ((e AND BTT_MAP_ENTRY_LBA_MASK) OR setf) = setf_block lbs setf"
    and "entry_block ((e AND BTT_MAP_ENTRY_LBA_MASK) OR setf) = entry_block e"
  using assms unfolding map_entry_is_initial_def block_of_entry_def map_entry_is_error_def
    map_entry_is_zero_or_initial_def setf_flags [OF setf_masked [OF assms]] Let_def setf_block_def
    entry_block_setf [OF setf_masked [OF assms]]
  by (auto simp: btt_const_defs)

lemma runtime_ok_map_store:
  assumes "runtime_ok m a nf" "quiescent m' a nf"
    and "\<And>k. k < nf \<Longrightarrow> flog_fst m' a k = flog_fst m a k \<and> flog_snd m' a k = flog_snd m a k"
  shows "runtime_ok m' a nf"
  using assms by (simp add: runtime_ok_def quiescent_def)

text \<open>Media states of one arena around a change of the state of block \<open>p\<close>.\<close>

definition setf_done :: "nat \<Rightarrow> nat \<Rightarrow> arena \<Rightarrow> nat \<Rightarrow> u32 \<Rightarrow> mem \<Rightarrow> mem \<Rightarrow> bool" where
  "setf_done lbs nf a p setf m m' \<longleftrightarrow>
     media_inv m' a nf \<and> blocks_set lbs nf a m p (setf_block lbs setf) m' \<and> runtime_ok m' a nf \<and>
     (\<forall>x. outside_arena a nf x \<longrightarrow> m' x = m x)"

lemma setf_done_store:
  assumes geom: "arena_geom n nf lbs a" and inv: "media_inv m a nf" and run: "runtime_ok m a nf"
    and p: "p < unat (a_external_nlba a)" and setf: "setf \<in> {BTT_MAP_ENTRY_ZERO, BTT_MAP_ENTRY_ERROR}"
  shows "setf_done lbs nf a p setf m
    (wr m (map_addr a p) (le32 ((norm_entry (of_nat p) (map_raw m a p) AND BTT_MAP_ENTRY_LBA_MASK) OR setf)))"
proof -
  let ?e = "(norm_entry (of_nat p) (map_raw m a p) AND BTT_MAP_ENTRY_LBA_MASK) OR setf"
  note q = runtime_quiescent [OF run]
  have "entry_block ?e = eff_block m a nf p"
    by (simp add: setf_entry(3) [OF setf] quiescent_eff_block [OF q])
  note re = replace_entry [OF geom inv q p setf_entry(1) [OF setf] this]
  have "map_addr a p + 4 \<le> unat (a_flogoff a) + 64 * nf" "unat (a_dataoff a) \<le> map_addr a p"
    using arena_geomD(2,3) [OF geom] p by (auto simp: map_addr_def)
  then have "\<forall>x. outside_arena a nf x \<longrightarrow> wr m (map_addr a p) (le32 ?e) x = m x"
    by (auto simp: outside_arena_def intro!: wr_outside)
  moreover have "runtime_ok (wr m (map_addr a p) (le32 ?e)) a nf"
    by (rule runtime_ok_map_store [OF run re(2,4)])
  ultimately show ?thesis
    using re(1,3) by (simp add: setf_done_def blocks_set_def setf_entry(2) [OF setf])
qed

text \<open>A block in the zero state already is the block that \<open>btt_set_zero\<close> wants.\<close>

lemma setf_done_idle:
  assumes geom: "arena_geom n nf lbs a" and inv: "media_inv m a nf" and run: "runtime_ok m a nf"
    and p: "unat p < unat (a_external_nlba a)" and z: "map_entry_is_zero_or_initial (norm_entry p (map_raw m a (unat p)))"
  shows "setf_done lbs nf a (unat p) BTT_MAP_ENTRY_ZERO m m"
proof -
  have "unat p < 2 ^ 30" using p arena_geomD(6,7) [OF geom] by linarith
  with z have z': "map_entry_is_zero_or_initial (map_raw m a (unat p))"
    by (auto simp: norm_entry_def or_normal_entry split: if_splits)
  then have "block_at lbs m a nf (unat p) = setf_block lbs BTT_MAP_ENTRY_ZERO"
    using quiescent_eff [OF runtime_quiescent [OF run]]
    by (auto simp: block_at_def block_of_entry_def setf_block_def map_entry_is_error_def
        map_entry_is_zero_or_initial_def btt_const_defs Let_def)
  then show ?thesis using inv run by (simp add: setf_done_def blocks_set_def)
qed

context crash_namespace
begin

lemma map_entry_setf_arena_cases:
  fixes b :: btt
  assumes alive: "alive s" and geom: "arena_geom sz nf lbs a" and inv: "media_inv (img s) a nf"
    and run: "runtime_ok (img s) a nf" and p: "unat p < unat (a_external_nlba a)"
    and flags: "a_flags a AND BTTINFO_FLAG_ERROR_MASK = 0"
    and setf: "setf \<in> {BTT_MAP_ENTRY_ZERO, BTT_MAP_ENTRY_ERROR}"
  defines "a' \<equiv> lock_map a (get_map_lock_num p (b_nfree b)) False"
  obtains (ok) s' where "map_entry_setf_arena cb b lane a s p setf = (Inr (), a', s')" "alive s'"
      "setf_done lbs nf a (unat p) setf (img s) (img s')"
    | (torn) e s' where "map_entry_setf_arena cb b lane a s p setf = (Inl e, a', s')" "\<not> alive s'"
      "img s' = img s \<or> setf_done lbs nf a (unat p) setf (img s) (img s')"
proof -
  let ?n = "get_map_lock_num p (b_nfree b)"
  let ?a1 = "lock_map a ?n True" and ?old = "norm_entry p (map_raw (img s) a (unat p))"
  note lock = map_lock_alive [OF alive geom p]
  note st = setf_done_store [OF geom inv run p setf, simplified]
  have g1: "geom_of ?a1 = geom_of a" by simp
  have pre: "arena_geom sz nf lbs ?a1" "unat p < unat (a_external_nlba ?a1)"
    using geom p by (simp_all add: geom_inv [OF g1] geom_fields [OF g1])
  show ?thesis
  proof (cases "setf = BTT_MAP_ENTRY_ZERO \<and> map_entry_is_zero_or_initial ?old")
    case True
    have "setf_done lbs nf a (unat p) setf (img s) (img s)"
      using True setf_done_idle [OF geom inv run p] by simp
    with True show ?thesis
      using flags alive by (intro that(1) [of s]) (simp_all add: map_entry_setf_arena_def lock map_abort_def a'_def)
  next
    case False
    then have step: "map_entry_setf_arena cb b lane a s p setf =
        map_unlock cb (b_nfree b) lane ?a1 s ((?old AND BTT_MAP_ENTRY_LBA_MASK) OR setf) p"
      using flags by (auto simp: map_entry_setf_arena_def lock)
    show ?thesis
    proof (cases rule: map_unlock_cases [OF alive pre, of "b_nfree b" lane "(?old AND BTT_MAP_ENTRY_LBA_MASK) OR setf",
          case_names ok torn])
      case (ok s')
      then show ?thesis using st by (intro that(1) [of s']) (simp_all add: step a'_def geom_addrs [OF g1])
    next
      case (torn e s')
      then show ?thesis using st by (intro that(2) [of e s']) (auto simp: step a'_def geom_addrs [OF g1])
    qed
  qed
qed

end

context crash_namespace
begin

lemma map_entry_setf_cases:
  assumes alive: "alive s" and ready: "handle_ready sz (img s) b" and lba: "\<not> invalid_lba b lba"
    and setf: "setf \<in> {BTT_MAP_ENTRY_ZERO, BTT_MAP_ENTRY_ERROR}"
  obtains (ok) b' s' where "map_entry_setf cb gen b lane lba setf s = (Inr (), b', s')" "alive s'"
      "handle_ready sz (img s') b'" "same_handle b b'"
      "btt_disk b' (img s') = (btt_disk b (img s))[unat lba := setf_block (unat (b_lbasize b)) setf]"
      "\<forall>x. outside_arenas b x \<longrightarrow> img s' x = img s x"
    | (torn) e b' s' where "map_entry_setf cb gen b lane lba setf s = (Inl e, b', s')" "\<not> alive s'"
      "media_ready (img s') b" "\<forall>x. outside_arenas b x \<longrightarrow> img s' x = img s x"
      "btt_disk b (img s') \<in> {btt_disk b (img s),
        (btt_disk b (img s))[unat lba := setf_block (unat (b_lbasize b)) setf]}"
proof -
  obtain k p where kp: "lba_to_arena_lba b lba = Inr (k, p)" "k < length (b_arenas b)"
    "unat p < unat (a_external_nlba (b_arenas b ! k))"
    "unat lba = sum_list (take k (ext_sizes (b_arenas b))) + unat p"
    using ready lba by (auto simp: handle_ready_def elim: lba_to_arena_lba_found)
  let ?a = "b_arenas b ! k" and ?nf = "unat (b_nfree b)"
  let ?a' = "lock_map ?a (get_map_lock_num p (b_nfree b)) False"
  note r = handle_readyD [OF ready kp(2)]
  have laid: "b_laidout b" using ready by (simp add: handle_ready_def)
  have step: "map_entry_setf cb gen b lane lba setf s = (case map_entry_setf_arena cb b lane ?a s p setf of
      (r, a, s2) \<Rightarrow> (r, set_arena b k a, s2))"
    using lba laid by (simp add: map_entry_setf_def ensure_layout_def kp(1) set_arena_def)
  show ?thesis
  proof (cases rule: map_entry_setf_arena_cases [OF alive r(1-3) kp(3) r(6) setf, of b lane, case_names ok torn])
    case (ok s')
    note sd = ok(3) [unfolded setf_done_def]
    have inv: "media_inv (img s') ?a ?nf"
      and out: "\<forall>x. outside_arena ?a ?nf x \<longrightarrow> img s' x = img s x" using sd by auto
    have g: "geom_of ?a' = geom_of ?a" by simp
    have a': "runtime_ok (img s') ?a' ?nf" "rtt_idle ?a'" "locks_free ?a'" "a_flags ?a' AND BTTINFO_FLAG_ERROR_MASK = 0"
      using sd r(4-6) geom_runtime [OF g] set_update_subset_insert [of "a_map_locks ?a" "get_map_lock_num p (b_nfree b)" False]
      by (auto simp: rtt_idle_def locks_free_def lock_map_def)
    note hs = handle_step [OF ready kp(2) g a' inv out]
    have "btt_disk (set_arena b k ?a') (img s') =
        (btt_disk b (img s))[unat lba := setf_block (unat (b_lbasize b)) setf]"
      using hs(2) media_step(3) [OF ready kp(2,3) inv out] sd by (simp add: kp(4))
    then show ?thesis
      using ok(1,2) hs(1) same_handle_set_arena [OF kp(2) g] media_step(2) [OF ready kp(2,3) inv out]
      by (intro that(1)) (simp_all add: step)
  next
    case (torn e s')
    have inv: "media_inv (img s') ?a ?nf"
      and out: "\<forall>x. outside_arena ?a ?nf x \<longrightarrow> img s' x = img s x"
      using torn(3) r(2) by (auto simp: setf_done_def)
    note ms = media_step [OF ready kp(2,3) inv out]
    have "btt_disk b (img s') \<in> {btt_disk b (img s),
        (btt_disk b (img s))[unat lba := setf_block (unat (b_lbasize b)) setf]}"
      using torn(3) ms(3) by (auto simp: kp(4) setf_done_def)
    then show ?thesis using torn(1,2) ms(1,2) by (intro that(2)) (simp_all add: step)
  qed
qed

end

section \<open>The consistency check\<close>

text \<open>A bitmap that marks exactly the blocks of a set.\<close>

definition bits :: "nat \<Rightarrow> bool list \<Rightarrow> nat set \<Rightarrow> bool" where
  "bits n bm X \<longleftrightarrow> length bm = n \<and> (\<forall>j < n. bm ! j \<longleftrightarrow> j \<in> X)"

lemma bitmap_mark_fresh:
  "bits n bm X \<Longrightarrow> e < n \<Longrightarrow> e \<notin> X \<Longrightarrow>
   \<exists>bm'. bitmap_mark bm e c = (bm', c) \<and> bits n bm' (insert e X)"
  by (auto simp: bitmap_mark_def bits_def nth_list_update)

lemma disjoint_insert_mono: "x \<notin> A \<Longrightarrow> A \<subseteq> B \<Longrightarrow> B \<inter> X = {} \<Longrightarrow> A \<inter> insert x X = {}"
  by blast

lemma check_flog_loop_ok:
  assumes "bits n bm X" "distinct (map f rts)" "set (map f rts) \<inter> X = {}" "\<forall>rt \<in> set rts. f rt < n"
    and "f = (\<lambda>rt. entry_block (flog_old_map (rt_flog rt)))"
  shows "\<exists>bm'. check_flog_loop rts bm c = Inr (bm', c) \<and> bits n bm' (X \<union> set (map f rts))"
  using assms(1-4)
proof (induction rts arbitrary: bm X)
  case Nil
  then show ?case by simp
next
  case (Cons rt rts)
  from bitmap_mark_fresh [OF Cons.prems(1), of "f rt" c] Cons.prems obtain bm1 where
    bm1: "bitmap_mark bm (f rt) c = (bm1, c)" "bits n bm1 (insert (f rt) X)" by auto
  from Cons.IH [OF bm1(2)] Cons.prems obtain bm2 where
    "check_flog_loop rts bm1 c = Inr (bm2, c)" "bits n bm2 (insert (f rt) X \<union> set (map f rts))" by auto
  with bm1 Cons.prems show ?case
    by (auto simp: assms(5) bits_def entry_block_def [symmetric])
qed

context mapped_namespace
begin

lemma check_map_loop_ok:
  assumes geom: "arena_geom sz nf lbs a" and inv: "media_inv (img s) a nf" and q: "quiescent (img s) a nf"
    and alive: "alive s" and nf: "0 < nf"
  defines "E \<equiv> unat (a_external_nlba a)"
  shows "i + k = E \<Longrightarrow> unat off = map_addr a i \<Longrightarrow> mp = [] \<or> mp = rd (img s) (map_addr a i) (4 * k) \<Longrightarrow>
    bits n bm X \<Longrightarrow> unat (a_internal_nlba a) \<le> n \<Longrightarrow> eff_block (img s) a nf ` {i..<E} \<inter> X = {} \<Longrightarrow>
    \<exists>bm'. check_map_loop cb a s k (of_nat i) off mp bm c = Inr (bm', c) \<and>
      bits n bm' (X \<union> eff_block (img s) a nf ` {i..<E})"
proof (induction k arbitrary: i off mp bm X)
  case 0
  then show ?case by simp
next
  case (Suc k)
  note g = arena_geomD [OF geom]
  let ?f = "eff_block (img s) a nf"
  have i: "i < E" using Suc.prems(1) by simp
  have i30: "i < 2 ^ 30" using i g(6,7) by (simp add: E_def)
  then have ui: "unat (of_nat i :: u32) = i" by (intro unat_of_nat_small) simp
  have fits: "map_addr a i + 4 * Suc k < sz"
    using Suc.prems(1) g(3,4) nf by (simp add: map_addr_def E_def)
  have mp: "(if mp = [] then nsmap cb s 0 (4 * Suc k) off else Inr mp) = Inr (rd (img s) (map_addr a i) (4 * Suc k))"
    using Suc.prems(2,3) map_alive [OF alive, of off "4 * Suc k"] fits by auto
  let ?e = "if map_entry_is_initial (map_raw (img s) a i) then of_nat i
    else map_raw (img s) a i AND BTT_MAP_ENTRY_LBA_MASK"
  have e: "unat ?e = ?f i"
    using i30 by (simp add: quiescent_eff_block [OF q] entry_block_norm ui) (simp add: entry_block_def)
  have lt: "?f i < unat (a_internal_nlba a)" using used_blocksD(1) [OF inv] i by (simp add: E_def)
  have "?f i \<in> ?f ` {i..<E}" using i by auto
  then have "?f i < n" "?f i \<notin> X" using lt Suc.prems(5,6) by auto
  moreover from this have lb: "\<not> ?f i \<ge> length bm" using Suc.prems(4) by (simp add: bits_def)
  ultimately obtain bm1 where bm1: "bitmap_mark bm (?f i) c = (bm1, c)" "bits n bm1 (insert (?f i) X)"
    using bitmap_mark_fresh [OF Suc.prems(4), of "?f i" c] by blast
  have "?f i \<noteq> ?f j" if "j \<in> {Suc i..<E}" for j
    using used_blocksD(4) [OF inv, of i j] i that by (auto simp: E_def)
  then have "?f i \<notin> ?f ` {Suc i..<E}" by blast
  moreover have "?f ` {Suc i..<E} \<subseteq> ?f ` {i..<E}" by (intro image_mono) auto
  ultimately have disj: "?f ` {Suc i..<E} \<inter> insert (?f i) X = {}"
    using Suc.prems(6) by (rule disjoint_insert_mono)
  have off': "unat (off + 4) = map_addr a (Suc i)"
    using Suc.prems(2) fits g(5) by (subst unat_add_small) (auto simp: map_addr_def)
  have dr: "drop 4 (rd (img s) (map_addr a i) (4 * Suc k)) = rd (img s) (map_addr a (Suc i)) (4 * k)"
    by (simp add: drop_rd map_addr_def ac_simps)
  from Suc.IH [OF _ off' _ bm1(2) Suc.prems(5) disj, of "rd (img s) (map_addr a (Suc i)) (4 * k)"] Suc.prems(1)
  obtain bm2 where bm2: "check_map_loop cb a s k (of_nat (Suc i)) (off + 4) (rd (img s) (map_addr a (Suc i)) (4 * k)) bm1 c = Inr (bm2, c)"
    "bits n bm2 (insert (?f i) X \<union> ?f ` {Suc i..<E})" by auto
  have ins: "{i..<E} = insert i {Suc i..<E}" using i by auto
  have nge: "\<not> ?e \<ge> a_internal_nlba a" using e lt by (simp add: word_le_nat_alt)
  have tk: "unle32 (take 4 (rd (img s) (map_addr a i) (4 * Suc k))) = map_raw (img s) a i"
    by (simp add: take_rd map_raw_def)
  have "check_map_loop cb a s (Suc k) (of_nat i) off mp bm c = Inr (bm2, c)"
    unfolding check_map_loop.simps mp sum.case Let_def tk dr
    using nge lb bm1(1) bm2(1) by (simp add: e add.commute)
  with bm2(2) show ?case by (simp add: ins Un_commute insert_commute)
qed

end

lemma used_blocks_all:
  assumes "arena_geom n nf lbs a" "media_inv m a nf"
  shows "eff_block m a nf ` {0..<unat (a_external_nlba a)} \<union> free_block m a ` {0..<nf} = {0..<unat (a_internal_nlba a)}"
proof -
  have d: "distinct (used_blocks m a nf)" "set (used_blocks m a nf) \<subseteq> {0..<unat (a_internal_nlba a)}"
    using assms(2) by (simp_all add: media_inv_def)
  have "card (set (used_blocks m a nf)) = card {0..<unat (a_internal_nlba a)}"
    using arena_geomD(6) [OF assms(1)] by (simp add: distinct_card [OF d(1)]) (simp add: used_blocks_def)
  then have "set (used_blocks m a nf) = {0..<unat (a_internal_nlba a)}"
    using d(2) by (intro card_subset_eq) simp_all
  then show ?thesis by (simp add: used_blocks_def)
qed

context mapped_namespace
begin

lemma check_arena_ok:
  assumes alive: "alive s" and ready: "arena_ready sz nf lbs (img s) a" and nf: "0 < nf" "unat (b_nfree b) = nf"
  shows "check_arena cb b a s = Inr True"
proof -
  have geom: "arena_geom sz nf lbs a" and inv: "media_inv (img s) a nf" and run: "runtime_ok (img s) a nf"
    using ready by (simp_all add: arena_ready_def)
  note g = arena_geomD [OF geom] and q = runtime_quiescent [OF run]
  let ?I = "unat (a_internal_nlba a)" and ?E = "unat (a_external_nlba a)"
  let ?N = "8 * unat ((a_internal_nlba a + 7) div 8)" and ?f = "\<lambda>rt. entry_block (flog_old_map (rt_flog rt))"
  have "unat (a_internal_nlba a + 7) = ?I + 7" using g(7) by (subst unat_add_small) simp_all
  then have N: "?I \<le> ?N" by (simp add: unat_div)
  have "bits ?N (replicate ?N False) {}" by (simp add: bits_def)
  from check_map_loop_ok [OF geom inv q alive nf(1), of 0 ?E "a_mapoff a" "[]", OF _ _ _ this N, of True]
  obtain bm where bm: "check_map_loop cb a s ?E 0 (a_mapoff a) [] (replicate ?N False) True = Inr (bm, True)"
    "bits ?N bm (eff_block (img s) a nf ` {0..<?E})" by (auto simp: map_addr_def)
  have len: "length (a_flogs a) = nf" using run by (simp add: runtime_ok_def)
  have fl: "map ?f (a_flogs a) = map (free_block (img s) a) [0..<nf]"
    by (rule nth_equalityI) (use len runtime_okD(4) [OF run] in \<open>auto simp: free_block_def\<close>)
  have "distinct (map ?f (a_flogs a))" "set (map ?f (a_flogs a)) \<inter> eff_block (img s) a nf ` {0..<?E} = {}"
    "\<forall>rt \<in> set (a_flogs a). ?f rt < ?N"
  proof -
    show "distinct (map ?f (a_flogs a))" unfolding fl using inv by (simp add: media_inv_def used_blocks_def)
    show "set (map ?f (a_flogs a)) \<inter> eff_block (img s) a nf ` {0..<?E} = {}"
      unfolding fl using used_blocksD(3) [OF inv] by fastforce
    have "?f rt < ?I" if "rt \<in> set (a_flogs a)" for rt
      using that used_blocksD(2) [OF inv] runtime_okD(4) [OF run] len by (auto simp: in_set_conv_nth free_block_def)
    then show "\<forall>rt \<in> set (a_flogs a). ?f rt < ?N" using N by (meson order_less_le_trans)
  qed
  from check_flog_loop_ok [OF bm(2) this refl] obtain bm' where
    bm': "check_flog_loop (a_flogs a) bm True = Inr (bm', True)"
    "bits ?N bm' (eff_block (img s) a nf ` {0..<?E} \<union> set (map ?f (a_flogs a)))" by blast
  then have "\<forall>i < ?I. bm' ! i"
    using N used_blocks_all [OF geom inv] unfolding bits_def fl by auto
  moreover have "\<not> ?I > length bm'" using bm'(2) N by (simp add: bits_def)
  ultimately show ?thesis using bm(1) bm'(1) len nf by (simp add: check_arena_def Let_def)
qed

lemma check_arenas_ok:
  assumes "alive s" "\<forall>a \<in> set as. arena_ready sz nf lbs (img s) a" "0 < nf" "unat (b_nfree b) = nf"
  shows "check_arenas cb b as s True = Inr True"
  using assms(2)
proof (induction as)
  case Nil
  then show ?case by simp
next
  case (Cons a as)
  have "check_arena cb b a s = Inr True"
    using Cons.prems by (intro check_arena_ok [where lbs = lbs, OF assms(1) _ assms(3,4)]) simp
  with Cons show ?case by simp
qed

lemma btt_check_ready:
  assumes "alive s" "handle_ready sz (img s) b" "b_nfree b \<noteq> 0"
  shows "btt_check cb b s = Inr True"
proof -
  have "0 < unat (b_nfree b)" using assms(3) by (simp add: unat_gt_0)
  then have "check_arenas cb b (b_arenas b) s True = Inr True"
    using assms(2) by (intro check_arenas_ok [where lbs = "unat (b_lbasize b)", OF assms(1)]) (auto simp: handle_ready_def)
  then show ?thesis using assms(2) by (simp add: btt_check_def handle_ready_def)
qed

end

end
