(* ===== verification/Btt_Reload.thy ===== *)
theory Btt_Reload
  imports Btt_Handle
begin

text \<open>
  Loading a laid-out namespace (\<open>read_arenas\<close>): every arena is recovered, none
  disturbs another, and the handle that results shows the disk that was on the
  medium.  All of it may be interrupted by power failure and started again.
\<close>

definition reloaded :: "nat \<Rightarrow> nat \<Rightarrow> arena list \<Rightarrow> mem \<Rightarrow> mem \<Rightarrow> bool" where
  "reloaded lbs nf as m m' \<longleftrightarrow>
     (\<forall>a \<in> set as. media_inv m' a nf \<and> blocks_same lbs nf a m m') \<and>
     (\<forall>x. (\<forall>a \<in> set as. outside_arena a nf x) \<longrightarrow> m' x = m x)"

lemma reloaded_Nil [simp]: "reloaded lbs nf [] m m"
  by (simp add: reloaded_def)

lemma arenas_apart_Cons:
  "arenas_apart nf (a # as) \<longleftrightarrow>
     (\<forall>c \<in> set as. unat (a_flogoff a) + 64 * nf \<le> unat (a_startoff c)) \<and> arenas_apart nf as"
  by (simp add: arenas_apart_def)

lemma apart_outside:
  assumes "arenas_apart nf (a # as)" "\<forall>c \<in> set (a # as). arena_geom n nf lbs c" "c \<in> set as"
  shows "\<not> outside_arena c nf x \<Longrightarrow> outside_arena a nf x" "\<not> outside_arena a nf x \<Longrightarrow> outside_arena c nf x"
proof -
  have "unat (a_flogoff a) + 64 * nf \<le> unat (a_startoff c)" using assms by (simp add: arenas_apart_Cons)
  moreover have "arena_geom n nf lbs c" using assms by simp
  then have "unat (a_startoff c) + 4096 \<le> unat (a_dataoff c)" by (rule arena_geomD)
  ultimately show "\<not> outside_arena c nf x \<Longrightarrow> outside_arena a nf x" "\<not> outside_arena a nf x \<Longrightarrow> outside_arena c nf x"
    by (auto simp: outside_arena_def)
qed

text \<open>One arena recovered, then the rest.\<close>

lemma reloaded_Cons:
  assumes apart: "arenas_apart nf (a # as)" and geom: "\<forall>c \<in> set (a # as). arena_geom n nf lbs c"
    and inv: "\<forall>c \<in> set as. media_inv m c nf"
    and first: "recovers lbs nf a m m1"
  shows "\<forall>c \<in> set as. media_inv m1 c nf \<and> blocks_same lbs nf c m m1"
    and "\<forall>c \<in> set (a # as). media_inv m1 c nf \<and> blocks_same lbs nf c m m1"
    and "reloaded lbs nf as m1 m2 \<Longrightarrow> reloaded lbs nf (a # as) m m2"
    and "reloaded lbs nf as m1 m2 \<Longrightarrow> runtime_ok m1 a nf \<Longrightarrow> runtime_ok m2 a nf"
proof -
  have out1: "m1 x = m x" if "outside_arena a nf x" for x using first that by (simp add: recovers_def)
  show rest: "\<forall>c \<in> set as. media_inv m1 c nf \<and> blocks_same lbs nf c m m1"
  proof
    fix c assume c: "c \<in> set as"
    have "\<forall>x. \<not> outside_arena c nf x \<longrightarrow> m1 x = m x"
      using out1 apart_outside(1) [OF apart geom c] by blast
    then show "media_inv m1 c nf \<and> blocks_same lbs nf c m m1"
      using arena_frame [of n nf lbs c m m1] geom inv c by simp
  qed
  show all: "\<forall>c \<in> set (a # as). media_inv m1 c nf \<and> blocks_same lbs nf c m m1"
    using rest first by (simp add: recovers_def)
  assume re: "reloaded lbs nf as m1 m2"
  have "\<forall>x. \<not> outside_arena a nf x \<longrightarrow> m2 x = m1 x"
    using re apart_outside(2) [OF apart geom] by (auto simp: reloaded_def)
  note fr = arena_frame [OF _ _ this, of n lbs]
  have a: "media_inv m2 a nf" "blocks_same lbs nf a m1 m2" "runtime_ok m1 a nf \<Longrightarrow> runtime_ok m2 a nf"
    using fr geom first by (simp_all add: recovers_def)
  show "runtime_ok m1 a nf \<Longrightarrow> runtime_ok m2 a nf" by (rule a(3))
  show "reloaded lbs nf (a # as) m m2"
    using re a all out1 blocks_same_trans unfolding reloaded_def by (simp, meson)
qed

section \<open>Loading\<close>

text \<open>An arena of the handle that results from loading \<open>a\<close>.\<close>

definition loaded_as :: "nat \<Rightarrow> nat \<Rightarrow> mem \<Rightarrow> arena \<Rightarrow> arena \<Rightarrow> bool" where
  "loaded_as lbs nf m a a' \<longleftrightarrow> geom_of a' = geom_of a \<and> a_flags a' AND BTTINFO_FLAG_ERROR_MASK = 0 \<and>
     runtime_ok m a' nf \<and> rtt_idle a' \<and> locks_free a'"

context crash_namespace
begin

lemma read_arena_cases:
  assumes alive: "alive s" and geom: "arena_geom sz nf lbs a" and inv: "media_inv (img s) a nf"
    and b: "handle_for b nf lbs" "unat (a_external_nlba a) \<le> unat (b_nlba b)" and lane: "lane < nf"
    and info: "info_describes (img s) a"
  obtains (ok) a' s' where "read_arena cb b lane (a_startoff a) s = (Inr a', s')" "alive s'"
      "recovers lbs nf a (img s) (img s')" "loaded_as lbs nf (img s') a a'"
    | (torn) e s' where "read_arena cb b lane (a_startoff a) s = (Inl e, s')" "\<not> alive s'"
      "recovers lbs nf a (img s) (img s')"
proof -
  let ?a0 = "arena_of_info (a_startoff a) (btt_info_convert2h (rd (img s) (unat (a_startoff a)) 4096))"
  have i: "geom_of ?a0 = geom_of a" "a_flags ?a0 AND BTTINFO_FLAG_ERROR_MASK = 0"
    using info by (simp_all add: info_describes_def Let_def)
  have "unat (a_startoff a) + 4096 \<le> sz" using arena_geomD(1-4) [OF geom] by linarith
  then have read: "nsread cb s lane 4096 (a_startoff a) = Inr (rd (img s) (unat (a_startoff a)) 4096)"
    using read_alive [OF alive] by simp
  have pre: "arena_geom sz nf lbs ?a0" "media_inv (img s) ?a0 nf" "unat (a_external_nlba ?a0) \<le> unat (b_nlba b)"
    using geom inv b(2) by (simp_all add: geom_inv [OF i(1)] geom_fields [OF i(1)])
  show ?thesis
  proof (cases rule: read_flogs_cases [OF alive pre(1,2) b(1) pre(3) lane, case_names ok torn])
    case (ok fs s')
    let ?a' = "build_map_locks b (build_rtt b (?a0\<lparr>a_flogs := fs\<rparr>))"
    have g: "geom_of ?a' = geom_of (?a0\<lparr>a_flogs := fs\<rparr>)" "a_flogs ?a' = a_flogs (?a0\<lparr>a_flogs := fs\<rparr>)"
      by (simp_all add: build_map_locks_def build_rtt_def)
    have "loaded_as lbs nf (img s') a ?a'"
      using ok(4) g i geom_runtime [OF g]
      by (simp add: loaded_as_def build_map_locks_def build_rtt_def rtt_idle_def locks_free_def
          set_replicate_conv_if)
    with ok i show ?thesis
      by (intro that(1) [of ?a' s']) (simp_all add: read_arena_def read recovers_geom [OF i(1)]
          build_map_locks_def build_rtt_def)
  next
    case (torn e s')
    then show ?thesis
      by (intro that(2) [of e s']) (simp_all add: read_arena_def read recovers_geom [OF i(1)])
  qed
qed

lemma read_arenas_loop_cases:
  assumes "alive s" "arenas_apart nf as" "\<forall>a \<in> set as. arena_geom sz nf lbs a"
    and "\<forall>a \<in> set as. media_inv (img s) a nf" "infos_chain (img s) off as"
    and b: "handle_for b nf lbs" and "\<forall>a \<in> set as. unat (a_external_nlba a) \<le> unat (b_nlba b)"
    and lane: "lane < nf"
  obtains (ok) as' s' where "read_arenas_loop cb b lane (length as) off s = (Inr as', s')" "alive s'"
      "reloaded lbs nf as (img s) (img s')" "list_all2 (loaded_as lbs nf (img s')) as as'"
    | (torn) e s' where "read_arenas_loop cb b lane (length as) off s = (Inl e, s')" "\<not> alive s'"
      "reloaded lbs nf as (img s) (img s')"
  using assms(1-5,7)
proof (induction as arbitrary: off s thesis)
  case Nil
  show ?case by (rule Nil(1) [of "[]" s]) (simp_all add: Nil(3))
next
  case (Cons a as)
  note p = Cons.prems(3-8)
  have off: "off = a_startoff a" and info: "info_describes (img s) a" and chain: "infos_chain (img s) (a_nextoff a) as"
    using p(5) by auto
  have inv: "\<forall>c \<in> set as. media_inv (img s) c nf" using p(4) by simp
  have ga: "arena_geom sz nf lbs a" "media_inv (img s) a nf" "unat (a_external_nlba a) \<le> unat (b_nlba b)"
    using p(3,4,6) by auto
  show ?case
  proof (cases rule: read_arena_cases [OF p(1) ga(1,2) b ga(3) lane info, case_names ok torn])
    case (torn e s1)
    have "reloaded lbs nf (a # as) (img s) (img s1)"
      using reloaded_Cons(2) [OF p(2,3) inv torn(3)] torn(3) by (auto simp: reloaded_def recovers_def)
    with torn(1,2) show ?thesis by (intro Cons.prems(2) [of e s1]) (simp_all add: off)
  next
    case (ok a' s1)
    note rc = reloaded_Cons [OF p(2,3) inv ok(3)]
    have nx: "a_nextoff a' = a_nextoff a" using ok(4) geom_fields(8) [of a' a] by (simp add: loaded_as_def)
    have out: "\<forall>x. (\<forall>c \<in> set (a # as). outside_arena c nf x) \<longrightarrow> img s1 x = img s x"
      using ok(3) by (simp add: recovers_def)
    have "infos_chain (img s1) off (a # as)" by (rule infos_chain_frame [OF p(2,3,5) out])
    then have chain1: "infos_chain (img s1) (a_nextoff a) as" by simp
    have pre: "arenas_apart nf as" "\<forall>a \<in> set as. arena_geom sz nf lbs a"
      "\<forall>a \<in> set as. media_inv (img s1) a nf" "\<forall>a \<in> set as. unat (a_external_nlba a) \<le> unat (b_nlba b)"
      using p(2,3,6) rc(1) by (auto simp: arenas_apart_Cons)
    show ?thesis
    proof (rule Cons.IH [OF _ _ ok(2) pre(1-3) chain1 pre(4)])
      fix as' s' assume h: "read_arenas_loop cb b lane (length as) (a_nextoff a) s1 = (Inr as', s')" "alive s'"
        "reloaded lbs nf as (img s1) (img s')" "list_all2 (loaded_as lbs nf (img s')) as as'"
      have "loaded_as lbs nf (img s') a a'"
      proof -
        have g: "geom_of a' = geom_of a" using ok(4) by (simp add: loaded_as_def)
        have "\<forall>x. \<not> outside_arena a nf x \<longrightarrow> img s' x = img s1 x"
          using h(3) apart_outside(2) [OF p(2,3)] by (auto simp: reloaded_def)
        then have "\<forall>x. \<not> outside_arena a' nf x \<longrightarrow> img s' x = img s1 x"
          by (simp add: outside_arena_def geom_fields [OF g])
        then have "runtime_ok (img s1) a' nf \<Longrightarrow> runtime_ok (img s') a' nf"
          using ga(1) ok(3) using arena_frame(3) [of sz nf lbs a' "img s1" "img s'"] by (simp add: geom_inv [OF g] recovers_def)
        with ok(4) show ?thesis by (simp add: loaded_as_def)
      qed
      with h ok(1) nx rc(3) [OF h(3)] show thesis
        by (intro Cons.prems(1) [of "a' # as'" s']) (simp_all add: off)
    next
      fix e s' assume h: "read_arenas_loop cb b lane (length as) (a_nextoff a) s1 = (Inl e, s')" "\<not> alive s'"
        "reloaded lbs nf as (img s1) (img s')"
      with ok(1) nx rc(3) [OF h(3)] show thesis by (intro Cons.prems(2) [of e s']) (simp_all add: off)
    qed
  qed
qed

end

section \<open>The disk survives\<close>

text \<open>
  A namespace laid out as the arenas \<open>as\<close>, with or without pending updates: what a
  power failure leaves behind and what the loading starts from.
\<close>

definition layout_ok :: "nat \<Rightarrow> nat \<Rightarrow> nat \<Rightarrow> mem \<Rightarrow> arena list \<Rightarrow> bool" where
  "layout_ok n nf lbs m as \<longleftrightarrow> arenas_apart nf as \<and> infos_chain m 0 as \<and>
     (\<forall>a \<in> set as. arena_geom n nf lbs a \<and> media_inv m a nf)"

lemma handle_layout:
  "handle_ready n m b \<Longrightarrow> layout_ok n (unat (b_nfree b)) (unat (b_lbasize b)) m (b_arenas b)"
  by (simp add: handle_ready_def layout_ok_def arena_ready_def)

lemma layout_ok_geom:
  assumes "map geom_of as' = map geom_of as"
  shows "layout_ok n nf lbs m as' = layout_ok n nf lbs m as"
proof -
  have "(\<forall>a \<in> set as'. arena_geom n nf lbs a \<and> media_inv m a nf) =
      (\<forall>a \<in> set as. arena_geom n nf lbs a \<and> media_inv m a nf)"
    using assms
  proof (induction as' arbitrary: as)
    case Nil
    then show ?case by simp
  next
    case (Cons a' as')
    then obtain a as1 where as: "as = a # as1" "geom_of a' = geom_of a" "map geom_of as' = map geom_of as1" by auto
    show ?case using Cons.IH [OF as(3)] by (simp add: as(1) geom_inv [OF as(2)])
  qed
  then show ?thesis by (simp add: layout_ok_def arenas_apart_geom [OF assms] infos_chain_geom [OF assms])
qed

lemma handle_ready_media:
  assumes "handle_ready n m b" "same_handle b0 b"
  shows "media_ready m b0"
proof -
  have gm: "map geom_of (b_arenas b0) = map geom_of (b_arenas b)" and nf: "b_nfree b0 = b_nfree b"
    using assms(2) by (simp_all add: same_handle_def)
  have "layout_ok n (unat (b_nfree b)) (unat (b_lbasize b)) m (b_arenas b0)"
    using handle_layout [OF assms(1)] by (simp add: layout_ok_geom [OF gm])
  then show ?thesis by (simp add: media_ready_def layout_ok_def nf)
qed

text \<open>Stores inside the arenas that keep each arena in order keep the layout.\<close>

lemma layout_step:
  assumes "layout_ok n nf lbs m as" "\<forall>a \<in> set as. media_inv m' a nf"
    and "\<forall>x. (\<forall>a \<in> set as. outside_arena a nf x) \<longrightarrow> m' x = m x"
  shows "layout_ok n nf lbs m' as"
proof -
  have "infos_chain m' 0 as"
    by (rule infos_chain_frame [of nf as n lbs m]) (use assms in \<open>auto simp: layout_ok_def\<close>)
  with assms show ?thesis by (simp add: layout_ok_def)
qed

lemma reloaded_disk: "reloaded lbs nf as m m' \<Longrightarrow> disk lbs nf m' as = disk lbs nf m as"
  by (rule disk_same) (auto simp: reloaded_def)

lemma ext_le_total: "a \<in> set as \<Longrightarrow> unat (a_external_nlba a) \<le> sum_list (ext_sizes as)"
  by (auto simp: ext_sizes_def intro: member_le_sum_list)

context crash_namespace
begin

lemma read_arenas_cases:
  assumes alive: "alive s" and lay: "layout_ok sz nf lbs (img s) as" and b: "handle_for b nf lbs"
    and nlba: "unat (b_nlba b) = sum_list (ext_sizes as)" and narena: "b_narena b = length as" and lane: "lane < nf"
  obtains (ok) as' s' where
      "read_arenas cb b lane (length as) s = (Inr (), b\<lparr>b_arenas := as', b_laidout := True\<rparr>, s')" "alive s'"
      "handle_ready sz (img s') (b\<lparr>b_arenas := as', b_laidout := True\<rparr>)"
      "btt_disk (b\<lparr>b_arenas := as', b_laidout := True\<rparr>) (img s') = disk lbs nf (img s) as"
      "map geom_of as' = map geom_of as" "\<forall>x. (\<forall>a \<in> set as. outside_arena a nf x) \<longrightarrow> img s' x = img s x"
    | (torn) e b' s' where "read_arenas cb b lane (length as) s = (Inl e, b', s')" "\<not> alive s'"
      "layout_ok sz nf lbs (img s') as" "disk lbs nf (img s') as = disk lbs nf (img s) as"
      "\<forall>x. (\<forall>a \<in> set as. outside_arena a nf x) \<longrightarrow> img s' x = img s x"
proof -
  have p: "arenas_apart nf as" "\<forall>a \<in> set as. arena_geom sz nf lbs a" "\<forall>a \<in> set as. media_inv (img s) a nf"
    "infos_chain (img s) 0 as" "\<forall>a \<in> set as. unat (a_external_nlba a) \<le> unat (b_nlba b)"
    using lay ext_le_total by (auto simp: layout_ok_def nlba)
  show ?thesis
  proof (cases rule: read_arenas_loop_cases [OF alive p(1-4) b p(5) lane, case_names ok torn])
    case (torn e s')
    have "layout_ok sz nf lbs (img s') as"
      using torn(3) by (intro layout_step [OF lay]) (auto simp: reloaded_def)
    moreover have "\<forall>x. (\<forall>a \<in> set as. outside_arena a nf x) \<longrightarrow> img s' x = img s x"
      using torn(3) by (simp add: reloaded_def)
    ultimately show ?thesis using torn(1,2) reloaded_disk [OF torn(3)]
      by (intro that(2) [of e "b\<lparr>b_arenas := []\<rparr>" s']) (simp_all add: read_arenas_def)
  next
    case (ok as' s')
    let ?b = "b\<lparr>b_arenas := as', b_laidout := True\<rparr>"
    have gm: "map geom_of as' = map geom_of as"
      using ok(4) by (auto simp: list_all2_conv_all_nth loaded_as_def intro!: nth_equalityI)
    have lay': "layout_ok sz nf lbs (img s') as"
      using ok(3) by (intro layout_step [OF lay]) (auto simp: reloaded_def)
    have "arena_ready sz nf lbs (img s') a' \<and> rtt_idle a' \<and> locks_free a' \<and> a_flags a' AND BTTINFO_FLAG_ERROR_MASK = 0"
      if "a' \<in> set as'" for a'
    proof -
      obtain a where a: "a \<in> set as" "loaded_as lbs nf (img s') a a'"
        using ok(4) \<open>a' \<in> set as'\<close> by (metis in_set_conv_nth list_all2_conv_all_nth)
      then have g: "geom_of a' = geom_of a" by (simp add: loaded_as_def)
      have "arena_geom sz nf lbs a" "media_inv (img s') a nf" using lay' a(1) by (auto simp: layout_ok_def)
      with a(2) show ?thesis by (simp add: loaded_as_def arena_ready_def geom_inv [OF g])
    qed
    then have ready: "handle_ready sz (img s') ?b"
      using lay' b nlba narena ok(4) unfolding layout_ok_def handle_for_def
      by (auto simp: handle_ready_def disk_geom(2) [OF gm] arenas_apart_geom [OF gm] infos_chain_geom [OF gm]
          dest: list_all2_lengthD)
    have "btt_disk ?b (img s') = disk lbs nf (img s) as"
      using b reloaded_disk [OF ok(3)] by (simp add: btt_disk_def handle_for_def disk_geom(1) [OF gm])
    moreover have "\<forall>x. (\<forall>a \<in> set as. outside_arena a nf x) \<longrightarrow> img s' x = img s x"
      using ok(3) by (simp add: reloaded_def)
    ultimately show ?thesis using ok(1,2) ready gm by (intro that(1) [of as' s']) (simp_all add: read_arenas_def)
  qed
qed

end

end
