(* ===== verification/Btt_Open.thy ===== *)
theory Btt_Open
  imports Btt_Reload
begin

text \<open>
  Opening a laid-out namespace (\<open>btt_init\<close>): the info blocks are validated, the
  sizes are taken from them, and every arena is loaded and recovered.
\<close>

section \<open>Valid info blocks\<close>

definition info_valid :: "byte list \<Rightarrow> u32 \<Rightarrow> u32 \<Rightarrow> mem \<Rightarrow> arena \<Rightarrow> u64 \<Rightarrow> bool" where
  "info_valid puuid lbasize nfree m a nextoff =
     (case read_info puuid (rd m (unat (a_startoff a)) 4096) of
        None \<Rightarrow> False
      | Some info \<Rightarrow>
          i_external_lbasize info = lbasize \<and> i_nfree info = nfree \<and>
          i_external_nlba info = a_external_nlba a \<and> i_external_nlba info \<noteq> 0 \<and> i_nextoff info = nextoff)"

fun infos_valid :: "byte list \<Rightarrow> u32 \<Rightarrow> u32 \<Rightarrow> mem \<Rightarrow> u64 \<Rightarrow> u64 \<Rightarrow> arena list \<Rightarrow> bool" where
  "infos_valid puuid lbasize nfree m rawsize off [] = False"
| "infos_valid puuid lbasize nfree m rawsize off (a # as) =
     (rawsize \<ge> BTT_MIN_SIZE \<and> a_startoff a = off \<and>
      (if as = [] then info_valid puuid lbasize nfree m a 0
       else info_valid puuid lbasize nfree m a BTT_MAX_ARENA \<and> BTT_MAX_ARENA \<le> rawsize \<and>
         infos_valid puuid lbasize nfree m (rawsize - BTT_MAX_ARENA) (off + BTT_MAX_ARENA) as))"

lemma infos_valid_cong:
  assumes "\<And>a x. a \<in> set as \<Longrightarrow> unat (a_startoff a) \<le> x \<Longrightarrow> x < unat (a_startoff a) + 4096 \<Longrightarrow> m' x = m x"
  shows "infos_valid puuid lbasize nfree m rawsize off as \<Longrightarrow> infos_valid puuid lbasize nfree m' rawsize off as"
  using assms
proof (induction as arbitrary: rawsize off)
  case Nil
  then show ?case by simp
next
  case (Cons a as)
  have "rd m' (unat (a_startoff a)) 4096 = rd m (unat (a_startoff a)) 4096"
    using Cons.prems(2) [of a] by (intro rd_eqI) auto
  then have "info_valid puuid lbasize nfree m' a nx = info_valid puuid lbasize nfree m a nx" for nx
    by (simp add: info_valid_def)
  moreover have "infos_valid puuid lbasize nfree m' r off' as" if "infos_valid puuid lbasize nfree m r off' as" for r off'
    by (rule Cons.IH [OF that]) (use Cons.prems(2) in auto)
  ultimately show ?case using Cons.prems(1) by (auto split: if_splits)
qed

lemma infos_valid_geom:
  "map geom_of as' = map geom_of as \<Longrightarrow>
   infos_valid puuid lbasize nfree m rawsize off as' = infos_valid puuid lbasize nfree m rawsize off as"
proof (induction as' arbitrary: as rawsize off)
  case Nil
  then show ?case by simp
next
  case (Cons a' as')
  then obtain a as1 where as: "as = a # as1" "geom_of a' = geom_of a" "map geom_of as' = map geom_of as1" by auto
  note g = geom_fields [OF as(2)]
  have "(as' = []) = (as1 = [])" using as(3) by auto
  moreover have "info_valid puuid lbasize nfree m a' = info_valid puuid lbasize nfree m a"
    by (rule ext) (simp only: info_valid_def g)
  ultimately show ?case using Cons.IH [OF as(3)] by (simp add: as(1) g)
qed

lemma infos_valid_frame:
  assumes "layout_ok n nf lbs m as" "infos_valid puuid lbasize nfree m rawsize off as"
    and "\<forall>x. (\<forall>a \<in> set as. outside_arena a nf x) \<longrightarrow> m' x = m x"
  shows "infos_valid puuid lbasize nfree m' rawsize off as"
proof (rule infos_valid_cong [OF _ assms(2)])
  fix a x
  assume "a \<in> set as" "unat (a_startoff a) \<le> x" "x < unat (a_startoff a) + 4096"
  then have "\<forall>c \<in> set as. outside_arena c nf x"
    using assms(1) info_outside [of nf as n lbs a] by (auto simp: layout_ok_def)
  with assms(3) show "m' x = m x" by blast
qed

section \<open>Reading the layout\<close>

context crash_namespace
begin

lemma read_layout_loop_valid:
  assumes alive: "alive s" and geom: "\<forall>a \<in> set as. arena_geom sz nf lbs a"
    and valid: "infos_valid (b_parent_uuid b) (b_lbasize b) nfree (img s) rawsize off as"
    and nfree: "nfree \<noteq> 0" "nfree \<le> smallest"
  shows "read_layout_loop cb b lane rawsize off narena smallest nlba s =
    Inr (Some (narena + length as, nfree, nlba + of_nat (sum_list (ext_sizes as))))"
  using geom valid nfree(2)
proof (induction as arbitrary: rawsize off narena smallest nlba)
  case Nil
  then show ?case by simp
next
  case (Cons a as)
  have min: "rawsize \<ge> BTT_MIN_SIZE" and off: "a_startoff a = off" using Cons.prems(2) by simp_all
  have "arena_geom sz nf lbs a" using Cons.prems(1) by simp
  from arena_geomD(1-4) [OF this] have fits: "unat off + 4096 \<le> sz" by (simp add: off [symmetric])
  have read: "nsread cb s lane 4096 off = Inr (rd (img s) (unat off) 4096)" by (rule read_alive [OF alive fits])
  obtain info nx where info: "read_info (b_parent_uuid b) (rd (img s) (unat off) 4096) = Some info"
    "i_external_lbasize info = b_lbasize b" "i_nfree info = nfree" "i_external_nlba info = a_external_nlba a"
    "i_external_nlba info \<noteq> 0" "i_nextoff info = nx" "nx = (if as = [] then 0 else BTT_MAX_ARENA)"
    using Cons.prems(2) by (auto simp: info_valid_def off split: if_splits option.splits)
  have small: "\<not> nfree < smallest \<Longrightarrow> smallest = nfree" using Cons.prems(3) by auto
  note step = read_layout_loop.simps [of cb b lane rawsize off narena smallest nlba s]
  show ?case
  proof (cases "as = []")
    case True
    then show ?thesis
      using min nfree(1) small info
      by (subst step) (auto simp: read ext_sizes_def add.commute)
  next
    case False
    then have raw: "BTT_MAX_ARENA \<le> rawsize"
      "infos_valid (b_parent_uuid b) (b_lbasize b) nfree (img s) (rawsize - BTT_MAX_ARENA) (off + BTT_MAX_ARENA) as"
      using Cons.prems(2) by auto
    have nz: "BTT_MAX_ARENA \<noteq> 0" by (simp add: BTT_MAX_ARENA_def)
    have "read_layout_loop cb b lane rawsize off narena smallest nlba s =
        read_layout_loop cb b lane (rawsize - BTT_MAX_ARENA) (off + BTT_MAX_ARENA) (narena + 1) nfree
          (nlba + ucast (a_external_nlba a)) s"
      using min nfree(1) small info False raw(1) nz
      by (subst step) (auto simp: read not_less)
    also have "\<dots> = Inr (Some (narena + 1 + length as, nfree,
        nlba + ucast (a_external_nlba a) + of_nat (sum_list (ext_sizes as))))"
      using Cons.prems(1) raw(2) by (intro Cons.IH) simp_all
    finally show ?thesis by (simp add: ext_sizes_def add.assoc)
  qed
qed

text \<open>
  Opening, under any power schedule.  \<open>nfree\<close> is at most the default, which is what
  every layout this code writes has.
\<close>

lemma btt_init_cases:
  assumes alive: "alive s" and lay: "layout_ok sz (unat nfree) (unat lbasize) (img s) as"
    and valid: "infos_valid puuid lbasize nfree (img s) rawsize 0 as"
    and nfree: "nfree \<noteq> 0" "nfree \<le> BTT_DEFAULT_NFREE" and bound: "sum_list (ext_sizes as) < 2 ^ 64"
  obtains (ok) b s' where "btt_init cb rawsize lbasize puuid maxlane s = (Inr b, s')" "alive s'"
      "handle_ready sz (img s') b" "btt_disk b (img s') = disk (unat lbasize) (unat nfree) (img s) as"
      "b_nfree b = nfree" "b_lbasize b = lbasize" "b_rawsize b = rawsize" "b_parent_uuid b = puuid"
      "b_nlane b = (if maxlane \<noteq> 0 \<and> nfree > maxlane then maxlane else nfree)"
      "map geom_of (b_arenas b) = map geom_of as" "infos_valid puuid lbasize nfree (img s') rawsize 0 (b_arenas b)"
    | (torn) e s' where "btt_init cb rawsize lbasize puuid maxlane s = (Inl e, s')" "\<not> alive s'"
      "layout_ok sz (unat nfree) (unat lbasize) (img s') as"
      "disk (unat lbasize) (unat nfree) (img s') as = disk (unat lbasize) (unat nfree) (img s) as"
      "infos_valid puuid lbasize nfree (img s') rawsize 0 as"
proof -
  obtain a as1 where "as = a # as1" using valid by (cases as) auto
  then have min: "\<not> rawsize < BTT_MIN_SIZE" using valid by auto
  let ?b0 = "\<lparr> b_nlane = 0, b_laidout = False, b_uuid = replicate 16 0, b_parent_uuid = puuid,
    b_rawsize = rawsize, b_lbasize = lbasize, b_nfree = BTT_DEFAULT_NFREE, b_nlba = 0, b_narena = 0, b_arenas = [] \<rparr>"
  let ?b2 = "?b0\<lparr>b_narena := length as, b_nlba := of_nat (sum_list (ext_sizes as)), b_nfree := nfree\<rparr>"
  have geom: "\<forall>a \<in> set as. arena_geom sz (unat nfree) (unat lbasize) a" using lay by (simp add: layout_ok_def)
  have "read_layout_loop cb ?b0 0 rawsize 0 0 (- 1) 0 s =
      Inr (Some (0 + length as, nfree, 0 + of_nat (sum_list (ext_sizes as))))"
    by (rule read_layout_loop_valid [OF alive geom _ nfree(1)]) (use valid in simp_all)
  moreover have "nfree < BTT_DEFAULT_NFREE \<or> nfree = BTT_DEFAULT_NFREE" using nfree(2) by auto
  ultimately have step: "btt_init cb rawsize lbasize puuid maxlane s =
      (case read_arenas cb ?b2 0 (length as) s of (Inl e, b1, s1) \<Rightarrow> (Inl e, s1)
       | (Inr _, b1, s1) \<Rightarrow> (Inr (b1\<lparr>b_nlane := (if maxlane \<noteq> 0 \<and> b_nfree b1 > maxlane
                                        then maxlane else b_nfree b1)\<rparr>), s1))"
    using min by (auto simp: btt_init_def read_layout_def)
  have pre: "handle_for ?b2 (unat nfree) (unat lbasize)" "unat (b_nlba ?b2) = sum_list (ext_sizes as)"
    "b_narena ?b2 = length as" "0 < unat nfree"
    using bound nfree(1) by (simp_all add: handle_for_def unat_of_nat_small unat_gt_0)
  show ?thesis
  proof (cases rule: read_arenas_cases [OF alive lay pre, case_names ok torn])
    case (ok as' s')
    let ?b = "?b2\<lparr>b_arenas := as', b_laidout := True,
      b_nlane := (if maxlane \<noteq> 0 \<and> nfree > maxlane then maxlane else nfree)\<rparr>"
    have "handle_ready sz (img s') ?b" "btt_disk ?b (img s') = disk (unat lbasize) (unat nfree) (img s) as"
      using ok(3,4) by (simp_all add: handle_ready_def btt_disk_def)
    moreover have "infos_valid puuid lbasize nfree (img s') rawsize 0 as'"
      using infos_valid_frame [OF lay valid ok(6)] by (simp add: infos_valid_geom [OF ok(5)])
    ultimately show ?thesis using ok(1,2,5) by (intro that(1) [of ?b s']) (simp_all add: step)
  next
    case (torn e b' s')
    moreover have "infos_valid puuid lbasize nfree (img s') rawsize 0 as"
      by (rule infos_valid_frame [OF lay valid torn(5)])
    ultimately show ?thesis by (intro that(2) [of e s']) (simp_all add: step)
  qed
qed

end

end
