(* ===== verification/Btt_Frame.thy ===== *)
theory Btt_Frame
  imports Btt
begin

text \<open>
  The BTT reaches its namespace only through the callbacks: whatever the callbacks
  leave alone (the pool header, for instance) no operation of libpmemblk/btt.c
  changes.
\<close>

locale framed_namespace =
  fixes cb :: "'s ns_callback" and rest :: "'s \<Rightarrow> 'r"
  assumes write_rest: "nswrite cb s lane bs off = (r, s') \<Longrightarrow> rest s' = rest s"
    and zero_rest: "nszero cb s lane n off = (r, s') \<Longrightarrow> rest s' = rest s"
begin

lemma arena_setf_rest: "arena_setf cb laid lane a s f = (r, a', s') \<Longrightarrow> rest s' = rest s"
  unfolding arena_setf_def Let_def
  by (auto split: if_splits sum.splits prod.splits dest!: write_rest)

lemma set_arena_error_rest: "set_arena_error cb laid lane a s = (r, a', s') \<Longrightarrow> rest s' = rest s"
  unfolding set_arena_error_def by (rule arena_setf_rest)

lemma recover_map_entry_rest: "recover_map_entry cb lane a s cur = (r, s') \<Longrightarrow> rest s' = rest s"
  unfolding recover_map_entry_def Let_def
  by (auto split: if_splits sum.splits dest!: write_rest)

lemma read_flog_pair_rest: "read_flog_pair cb b lane a s off = (r, s') \<Longrightarrow> rest s' = rest s"
  unfolding read_flog_pair_def Let_def
  by (auto split: if_splits sum.splits option.splits elim!: bind_io_cases dest!: recover_map_entry_rest)

lemma read_flogs_loop_rest: "read_flogs_loop cb b lane n i off a s = (r, s') \<Longrightarrow> rest s' = rest s"
proof (induction n arbitrary: i off a s)
  case 0
  then show ?case by simp
next
  case (Suc n)
  then show ?case
    by (auto split: prod.splits sum.splits dest!: read_flog_pair_rest set_arena_error_rest)
qed

lemma read_arena_rest: "read_arena cb b lane off s = (r, s') \<Longrightarrow> rest s' = rest s"
  unfolding read_arena_def read_flogs_def
  by (auto split: sum.splits elim!: bind_io_cases dest!: read_flogs_loop_rest)

lemma read_arenas_loop_rest: "read_arenas_loop cb b lane n off s = (r, s') \<Longrightarrow> rest s' = rest s"
  by (induction n arbitrary: off s r s') (force elim!: bind_io_cases dest!: read_arena_rest)+

lemma read_arenas_rest: "read_arenas cb b lane n s = (r, b', s') \<Longrightarrow> rest s' = rest s"
  unfolding read_arenas_def by (auto split: prod.splits sum.splits dest!: read_arenas_loop_rest)

lemma write_flogs_rest: "write_flogs cb lane n i off lba s = (r, s') \<Longrightarrow> rest s' = rest s"
proof (induction n arbitrary: i off lba s)
  case 0
  then show ?case by simp
next
  case (Suc n)
  from Suc.prems show ?case
    by (auto simp: Let_def elim!: bind_io_cases dest!: write_rest Suc.IH)
qed

lemma write_arena_layout_rest: "write_arena_layout cb b lane info off s = (r, s') \<Longrightarrow> rest s' = rest s"
  unfolding write_arena_layout_def Let_def
  by (auto split: if_splits sum.splits prod.splits elim!: bind_io_cases
      dest!: write_rest zero_rest write_flogs_rest)

lemma write_layout_loop_rest:
  "write_layout_loop cb b lane wrt ilbs rawsize off nlba s = (r, s') \<Longrightarrow> rest s' = rest s"
proof (induction rawsize arbitrary: wrt off nlba s rule: measure_induct_rule [where f = unat])
  case (less rawsize)
  show ?case
  proof (cases "rawsize \<ge> BTT_MIN_SIZE")
    case False
    with less.prems show ?thesis by (simp add: write_layout_loop.simps)
  next
    case True
    note IH = less.IH [OF layout_rawsize_decreases [OF True]]
    from less.prems True show ?thesis
      by (subst (asm) write_layout_loop.simps)
        (auto simp: Let_def split: sum.splits if_splits prod.splits dest!: IH write_arena_layout_rest)
  qed
qed

lemma write_layout_rest: "write_layout cb gen b lane wrt s = (r, b', s') \<Longrightarrow> rest s' = rest s"
  unfolding write_layout_def Let_def
  by (auto split: if_splits sum.splits prod.splits dest!: write_layout_loop_rest read_arenas_rest)

lemma read_layout_rest: "read_layout cb b lane s = (r, b', s') \<Longrightarrow> rest s' = rest s"
  unfolding read_layout_def Let_def
  by (auto split: sum.splits option.splits prod.splits dest!: write_layout_rest read_arenas_rest)

lemma btt_init_rest: "btt_init cb rawsize lbasize puuid maxlane s = (r, s') \<Longrightarrow> rest s' = rest s"
  unfolding btt_init_def Let_def
  by (auto split: if_splits sum.splits prod.splits dest!: read_layout_rest)

lemma map_unlock_rest: "map_unlock cb nfree lane a s e p = (r, a', s') \<Longrightarrow> rest s' = rest s"
  unfolding map_unlock_def by (auto split: prod.splits dest!: write_rest)

lemma flog_update_rest: "flog_update cb lane a s p old new = (r, s') \<Longrightarrow> rest s' = rest s"
  unfolding flog_update_def Let_def by (auto elim!: bind_io_cases dest!: write_rest)

lemma btt_write_publish_rest: "btt_write_publish cb b lane a s p e = (r, a', s') \<Longrightarrow> rest s' = rest s"
  unfolding btt_write_publish_def
  by (auto split: sum.splits prod.splits dest!: map_unlock_rest flog_update_rest set_arena_error_rest)

lemma btt_write_arena_rest: "btt_write_arena cb b lane a s p buf = (r, a', s') \<Longrightarrow> rest s' = rest s"
  unfolding btt_write_arena_def Let_def
  by (auto split: if_splits sum.splits prod.splits dest!: write_rest btt_write_publish_rest)

lemma ensure_layout_rest: "ensure_layout cb gen b lane s = (r, b', s') \<Longrightarrow> rest s' = rest s"
  unfolding ensure_layout_def by (auto split: if_splits dest!: write_layout_rest)

lemma btt_write_rest: "btt_write cb gen b lane lba buf s = (r, b', s') \<Longrightarrow> rest s' = rest s"
  unfolding btt_write_def
  by (auto split: if_splits sum.splits prod.splits dest!: ensure_layout_rest btt_write_arena_rest)

lemma map_entry_setf_arena_rest: "map_entry_setf_arena cb b lane a s p f = (r, a', s') \<Longrightarrow> rest s' = rest s"
  unfolding map_entry_setf_arena_def
  by (auto split: if_splits sum.splits prod.splits dest!: map_unlock_rest)

lemma map_entry_setf_rest: "map_entry_setf cb gen b lane lba f s = (r, b', s') \<Longrightarrow> rest s' = rest s"
  unfolding map_entry_setf_def
  by (auto split: if_splits sum.splits prod.splits dest!: ensure_layout_rest map_entry_setf_arena_rest)

end

end
