(* ===== verification/Btt_Format.thy ===== *)
theory Btt_Format
  imports Btt_Open Btt_Frame
begin

text \<open>
  Formatting: the sizes and offsets \<open>btt_info_set\<close> computes keep the regions of an
  arena apart and never wrap, and the layout that \<open>write_layout\<close> writes is a disk
  of zero blocks, ready for use.
\<close>

section \<open>Sizes and offsets\<close>

lemma internal_lbasize_bounds:
  assumes "internal_lbasize l = r" "r \<noteq> 0"
  shows "512 \<le> unat r" "unat l \<le> unat r" "unat r \<le> 2 ^ 32 - 256" "256 dvd unat r"
proof -
  define k where "k = (if l < BTT_MIN_LBA_SIZE then BTT_MIN_LBA_SIZE else l)"
  have k: "512 \<le> unat k" "unat l \<le> unat k"
    by (auto simp: k_def BTT_MIN_LBA_SIZE_def word_less_nat_alt)
  have r: "r = (if roundup32 k 256 < 256 then 0 else roundup32 k 256)"
    unfolding assms(1) [symmetric] internal_lbasize_def Let_def k_def BTT_INTERNAL_LBA_ALIGNMENT_def by (rule refl)
  have nw: "unat k + 255 < 2 ^ 32"
  proof (rule ccontr)
    assume "\<not> unat k + 255 < 2 ^ 32"
    then have ge: "4294967296 \<le> unat k + 255" by simp
    obtain K where K: "unat k = K" "K < 4294967296" using unat_less(3) [of k] by blast
    have "unat (k + 255) = (K + 255) mod 4294967296" by (simp add: unat_word_ariths K(1))
    also have "\<dots> = K + 255 - 4294967296"
      by (rule mod_nat_eqI) (use ge K in simp_all)
    finally have "unat (k + 255) < 255" using ge K by simp
    then have "unat ((k + mask 8) AND NOT (mask 8)) = 0"
      unfolding unat_and_not_mask by (simp add: mask_eq_exp_minus_1)
    then have "roundup32 k 256 = 0"
      by (simp add: roundup32_def mask_eq_exp_minus_1 unat_eq_zero)
    with r assms(2) show False by simp
  qed
  have u: "unat (roundup32 k 256) = rup (unat k) 256"
    using unat_roundup32 [of 8 k] nw by (simp add: rup_def)
  have ge: "unat k \<le> unat (roundup32 k 256)" unfolding u by (rule rup_ge) simp
  then have "\<not> roundup32 k 256 < 256" using k by (simp add: word_less_nat_alt)
  then have ru: "unat r = rup (unat k) 256" using r u by simp
  then show "512 \<le> unat r" "unat l \<le> unat r" using k ge u by simp_all
  show d: "256 dvd unat r" by (simp add: ru)
  then obtain q where "unat r = 256 * q" by (auto elim: dvdE)
  with unat_less(3) [of r] show "unat r \<le> 2 ^ 32 - 256" by simp
qed

lemma unat_btt_flog_size:
  assumes "unat nfree \<le> 65536"
  shows "unat (btt_flog_size nfree) = rup (64 * unat nfree) 4096" "rup (64 * unat nfree) 4096 \<le> 2 ^ 22"
proof -
  have "roundup64 (2 * sizeof_btt_flog) BTT_FLOG_PAIR_ALIGN = 64"
    by (simp add: roundup64_def sizeof_btt_flog_def BTT_FLOG_PAIR_ALIGN_def)
  moreover have m: "unat (ucast nfree * 64 :: u64) = 64 * unat nfree"
    using assms by (subst unat_mult_small) simp_all
  ultimately show "unat (btt_flog_size nfree) = rup (64 * unat nfree) 4096"
    using unat_roundup64 [of 12 "ucast nfree * 64"] assms
    by (simp add: btt_flog_size_def BTT_ALIGNMENT_def rup_def)
  have "rup (64 * unat nfree) 4096 \<le> 64 * unat nfree + 4095" using rup_le [of 4096 "64 * unat nfree"] by simp
  moreover obtain q where "rup (64 * unat nfree) 4096 = 4096 * q" using rup_dvd by (metis dvdE)
  ultimately show "rup (64 * unat nfree) 4096 \<le> 2 ^ 22" using assms by simp
qed

lemma unat_btt_map_size:
  assumes "unat n \<le> 2 ^ 30 - 1"
  shows "unat (btt_map_size n) = rup (4 * unat n) 4096"
proof -
  have m: "unat (n * BTT_MAP_ENTRY_SIZE) = 4 * unat n"
    using assms by (subst unat_mult_small) (simp_all add: BTT_MAP_ENTRY_SIZE_def)
  then show ?thesis
    using unat_roundup64 [of 12 "ucast (n * BTT_MAP_ENTRY_SIZE)"] assms
    by (simp add: btt_map_size_def BTT_ALIGNMENT_def rup_def)
qed

text \<open>The number of blocks of an arena of \<open>R\<close> bytes, on natural numbers.\<close>

definition layout_nlba :: "nat \<Rightarrow> nat \<Rightarrow> nat \<Rightarrow> nat" where
  "layout_nlba R N L = (R - 12288 - rup (64 * N) 4096) div (L + 4)"

lemma btt_info_set_params_eq:
  assumes R: "2 ^ 24 \<le> unat R" "unat R \<le> 2 ^ 39" and N: "unat N \<le> 65536"
    and L: "512 \<le> unat L" "unat L \<le> 2 ^ 32 - 256"
  defines "I \<equiv> layout_nlba (unat R) (unat N) (unat L)"
  shows "btt_info_set_params info0 l L N R =
     (if I < 2 * unat N then Inl EINVAL
      else Inr (info0\<lparr>i_external_lbasize := l, i_internal_lbasize := L, i_nfree := N, i_infosize := 4096,
                     i_internal_nlba := of_nat I, i_external_nlba := of_nat (I - unat N)\<rparr>))"
    and "I < 2 ^ 30"
proof -
  let ?F = "rup (64 * unat N) 4096"
  note F = unat_btt_flog_size [OF N]
  have "unat (btt_arena_datasize R N) = unat R - 8192 - ?F"
    using R F by (simp add: btt_arena_datasize_def sizeof_btt_info_def unat_sub_small)
  then have d: "unat (btt_arena_datasize R N - BTT_ALIGNMENT) = unat R - 12288 - ?F"
    using R F by (subst unat_sub_small) (simp_all add: BTT_ALIGNMENT_def)
  have l4: "unat (L + BTT_MAP_ENTRY_SIZE) = unat L + 4"
    using L by (subst unat_add_small) (simp_all add: BTT_MAP_ENTRY_SIZE_def)
  have q: "unat ((btt_arena_datasize R N - BTT_ALIGNMENT) div ucast (L + BTT_MAP_ENTRY_SIZE)) = I"
    by (simp add: unat_div_distrib d l4 I_def layout_nlba_def)
  show I: "I < 2 ^ 30"
  proof -
    have "I \<le> (unat R - 12288 - ?F) div 516" using L unfolding I_def layout_nlba_def by (intro div_le_mono2) simp_all
    also have "\<dots> \<le> 2 ^ 39 div 516" using R by (intro div_le_mono) simp
    finally show ?thesis by simp
  qed
  have n2: "unat (2 * N) = 2 * unat N"
    using N by (simp add: unat_mult_small)
  have cast: "(ucast ((btt_arena_datasize R N - BTT_ALIGNMENT) div ucast (L + BTT_MAP_ENTRY_SIZE)) :: u32) = of_nat I"
    using q by (metis of_nat_unat)
  have sub: "of_nat I - N = (of_nat (I - unat N) :: u32)" if "2 * unat N \<le> I"
    using that by (simp add: of_nat_diff)
  show "btt_info_set_params info0 l L N R =
     (if I < 2 * unat N then Inl EINVAL
      else Inr (info0\<lparr>i_external_lbasize := l, i_internal_lbasize := L, i_nfree := N, i_infosize := 4096,
                     i_internal_nlba := of_nat I, i_external_nlba := of_nat (I - unat N)\<rparr>))"
    unfolding btt_info_set_params_def Let_def
    using sub by (simp add: word_less_nat_alt q n2 cast)
qed

text \<open>An info block as \<open>write_layout\<close> fills it in, before the identification fields.\<close>

definition layout_info :: "u32 \<Rightarrow> u32 \<Rightarrow> u32 \<Rightarrow> u64 \<Rightarrow> u64 \<Rightarrow> btt_info" where
  "layout_info l L N R sl =
     btt_info_set_offs
       (zero_info\<lparr>i_external_lbasize := l, i_internal_lbasize := L, i_nfree := N, i_infosize := 4096,
                  i_internal_nlba := of_nat (layout_nlba (unat R) (unat N) (unat L)),
                  i_external_nlba := of_nat (layout_nlba (unat R) (unat N) (unat L) - unat N)\<rparr>) R sl"

lemma layout_info_fields:
  fixes l :: u32 and sl :: u64
  assumes R: "2 ^ 24 \<le> unat R" "unat R \<le> 2 ^ 39" and N: "unat N \<le> 65536"
    and L: "512 \<le> unat L" "unat L \<le> 2 ^ 32 - 256"
  defines "I \<equiv> layout_nlba (unat R) (unat N) (unat L)"
  assumes I: "2 * unat N \<le> I"
  defines "info \<equiv> layout_info l L N R sl"
  shows "unat (i_internal_nlba info) = I" "unat (i_external_nlba info) = I - unat N"
    "i_internal_lbasize info = L" "i_external_lbasize info = l" "i_nfree info = N"
    "unat (i_dataoff info) = 4096" "unat (i_infooff info) = unat R - 4096"
    "unat (i_flogoff info) = unat R - 4096 - rup (64 * unat N) 4096"
    "unat (i_mapoff info) = unat R - 4096 - rup (64 * unat N) 4096 - rup (4 * (I - unat N)) 4096"
    "4096 + I * unat L + rup (4 * (I - unat N)) 4096 \<le> unat R - 4096 - rup (64 * unat N) 4096"
    "I < 2 ^ 30"
proof -
  let ?F = "rup (64 * unat N) 4096" and ?M = "rup (4 * (I - unat N)) 4096"
  note F = unat_btt_flog_size [OF N]
  show I30: "I < 2 ^ 30" using btt_info_set_params_eq(2) [OF R N L] by (simp add: I_def)
  have uI: "unat (of_nat I :: u32) = I" "unat (of_nat (I - unat N) :: u32) = I - unat N"
    using I30 by (simp_all add: unat_of_nat_small)
  have ms: "unat (btt_map_size (of_nat (I - unat N))) = ?M"
    using I30 by (subst unat_btt_map_size) (simp_all add: uI)
  have "I * (unat L + 4) \<le> unat R - 12288 - ?F" unfolding I_def layout_nlba_def by (rule div_times_less_eq_dividend)
  then have IL: "I * unat L + 4 * I \<le> unat R - 12288 - ?F" by (simp add: algebra_simps)
  have M: "?M \<le> 4 * (I - unat N) + 4095" using rup_le [of 4096 "4 * (I - unat N)"] by simp
  have "12288 + ?F \<le> unat R" using R(1) F(2) by simp
  then obtain X where X: "unat R = 12288 + ?F + X" by (metis le_Suc_ex)
  show fit: "4096 + I * unat L + ?M \<le> unat R - 4096 - ?F" using IL M unfolding X by simp
  note defs = info_def layout_info_def btt_info_set_offs_def Let_def
  show "unat (i_internal_nlba info) = I" "unat (i_external_nlba info) = I - unat N"
    "i_internal_lbasize info = L" "i_external_lbasize info = l" "i_nfree info = N" "unat (i_dataoff info) = 4096"
    using uI by (simp_all add: defs flip: I_def)
  have io: "unat (R - sizeof_btt_info) = unat R - 4096"
    using R by (simp add: unat_sub_small sizeof_btt_info_def)
  then show "unat (i_infooff info) = unat R - 4096" by (simp add: defs)
  have fo: "unat (R - sizeof_btt_info - btt_flog_size N) = unat R - 4096 - ?F"
    using R F io by (subst unat_sub_small) simp_all
  then show "unat (i_flogoff info) = unat R - 4096 - ?F" by (simp add: defs)
  show "unat (i_mapoff info) = unat R - 4096 - ?F - ?M"
    using fo ms fit by (simp add: defs unat_sub_small flip: I_def)
qed

lemma geom_arith:
  fixes N F E M X R n off :: nat
  assumes "64 * N \<le> F" "E \<le> M" "4096 + X + M \<le> R - 4096 - F" "off + R \<le> n"
  shows "off + 4096 \<le> off + 4096" "off + 4096 + X \<le> off + (R - 4096 - F - M)"
    "off + (R - 4096 - F - M) + E \<le> off + (R - 4096 - F)" "off + (R - 4096 - F) + 64 * N \<le> n"
  using assms by simp_all

lemma layout_geom:
  assumes R: "2 ^ 24 \<le> unat R" "unat R \<le> 2 ^ 39" "4096 dvd unat R" and N: "unat N \<le> 65536"
    and L: "512 \<le> unat L" "unat L \<le> 2 ^ 32 - 256" "unat l \<le> unat L"
    and I: "2 * unat N \<le> layout_nlba (unat R) (unat N) (unat L)"
    and off: "unat off + unat R \<le> n" "n < 2 ^ 64" "4096 dvd unat off"
  shows "arena_geom n (unat N) (unat l) (arena_of_info off (layout_info l L N R sl))"
proof -
  note f = layout_info_fields [OF R(1,2) N L(1,2) I]
  let ?F = "rup (64 * unat N) 4096" and ?I = "layout_nlba (unat R) (unat N) (unat L)"
  let ?M = "rup (4 * (?I - unat N)) 4096"
  have ge: "64 * unat N \<le> ?F" "4 * (?I - unat N) \<le> ?M" by (simp_all add: rup_ge)
  have u: "unat (off + x) = unat off + unat x" if "unat x \<le> unat R" for x
    using that off by (subst unat_add_small) simp_all
  have le: "unat R - 4096 - ?F \<le> unat R" "unat R - 4096 - ?F - ?M \<le> unat R" by simp_all
  have addr: "unat (off + i_dataoff (layout_info l L N R sl)) = unat off + 4096"
    "unat (off + i_mapoff (layout_info l L N R sl)) = unat off + (unat R - 4096 - ?F - ?M)"
    "unat (off + i_flogoff (layout_info l L N R sl)) = unat off + (unat R - 4096 - ?F)"
    using R(1) f(6,8,9) le by (simp_all add: u)
  have "4096 dvd unat off + (unat R - 4096 - ?F)" "4096 dvd unat off + (unat R - 4096 - ?F - ?M)"
    using R(3) off(3) by (intro dvd_add dvd_diff_nat; simp)+
  moreover have "(8 :: nat) dvd 4096" "(4 :: nat) dvd 4096" by simp_all
  ultimately have dvd: "8 dvd unat off + (unat R - 4096 - ?F)" "4 dvd unat off + (unat R - 4096 - ?F - ?M)"
    by (meson dvd_trans)+
  have "unat (a_internal_nlba (arena_of_info off (layout_info l L N R sl))) = ?I"
    "unat (a_external_nlba (arena_of_info off (layout_info l L N R sl))) = ?I - unat N"
    "a_internal_lbasize (arena_of_info off (layout_info l L N R sl)) = L"
    using f by (simp_all add: arena_of_info_def zero_arena_def)
  moreover have "a_startoff (arena_of_info off (layout_info l L N R sl)) = off"
    "a_dataoff (arena_of_info off (layout_info l L N R sl)) = off + i_dataoff (layout_info l L N R sl)"
    "a_mapoff (arena_of_info off (layout_info l L N R sl)) = off + i_mapoff (layout_info l L N R sl)"
    "a_flogoff (arena_of_info off (layout_info l L N R sl)) = off + i_flogoff (layout_info l L N R sl)"
    by (simp_all add: arena_of_info_def zero_arena_def)
  ultimately show ?thesis
    unfolding arena_geom_def
    using addr geom_arith [OF ge f(10) off(1)] f(11) I L(3) off(2) dvd by (simp only:) simp
qed

section \<open>A freshly formatted arena\<close>

definition initial_flog :: "nat \<Rightarrow> nat \<Rightarrow> btt_flog" where
  "initial_flog i lba =
     \<lparr> flog_lba = of_nat i, flog_old_map = of_nat lba OR BTT_MAP_ENTRY_ZERO,
       flog_new_map = of_nat lba OR BTT_MAP_ENTRY_ZERO, flog_seq = 1 \<rparr>"

lemma entry_block_zero_flag: "n < 2 ^ 30 \<Longrightarrow> entry_block (of_nat n OR BTT_MAP_ENTRY_ZERO) = n"
proof -
  assume n: "n < 2 ^ 30"
  have z: "BTT_MAP_ENTRY_ZERO AND BTT_MAP_ENTRY_LBA_MASK = 0" by (simp add: btt_const_defs)
  have "(of_nat n OR BTT_MAP_ENTRY_ZERO) AND BTT_MAP_ENTRY_LBA_MASK = (of_nat n AND BTT_MAP_ENTRY_LBA_MASK) OR
      (BTT_MAP_ENTRY_ZERO AND BTT_MAP_ENTRY_LBA_MASK)"
    by (rule bit_word_eqI) (auto simp: bit_simps)
  then have "entry_block (of_nat n OR BTT_MAP_ENTRY_ZERO) = entry_block (of_nat n)"
    by (simp add: entry_block_def z)
  with n show ?thesis by (simp add: entry_block_mod unat_of_nat_small)
qed

lemma initial_media:
  assumes geom: "arena_geom n nf lbs a" and nf: "nf \<le> unat (a_external_nlba a)"
    and raw: "\<And>i. i < unat (a_external_nlba a) \<Longrightarrow> map_raw m a i = 0"
    and flogs: "\<And>l. l < nf \<Longrightarrow> flog_fst m a l = initial_flog l (unat (a_external_nlba a) + l)"
      "\<And>l. l < nf \<Longrightarrow> flog_snd m a l = Zflog"
  shows "media_inv m a nf" "i < unat (a_external_nlba a) \<Longrightarrow> block_at lbs m a nf i = DataBlock (replicate lbs 0)"
proof -
  note g = arena_geomD [OF geom]
  let ?E = "unat (a_external_nlba a)"
  have lba: "unat (of_nat l :: u32) = l" if "l < ?E" for l
    using that g(6,7) by (intro unat_of_nat_small) simp
  have valid: "btt_flog_get_valid (flog_fst m a l) (flog_snd m a l) = Some (initial_flog l (?E + l), 1)" if "l < nf" for l
    using that by (simp add: flogs btt_flog_get_valid_def initial_flog_def Zflog_def)
  then have cur: "flog_cur m a l = initial_flog l (?E + l)" if "l < nf" for l
    using that by (simp add: flog_cur_def)
  have np: "\<not> pending m a l" if "l < nf" for l
    by (simp add: pending_def cur [OF that] initial_flog_def Let_def)
  have wf: "flog_pair_wf m a l" if "l < nf" for l
    using that nf lba [of l] by (simp add: flog_pair_wf_def flogs initial_flog_def Zflog_def seq_pair_ok_def)
  have eff: "eff_entry m a nf i = 0" if "i < ?E" for i
    using that np raw by (subst eff_entry_raw) auto
  have ini: "map_entry_is_initial 0" "map_entry_is_zero_or_initial 0" "\<not> map_entry_is_error 0"
    by (simp_all add: map_entry_is_initial_def map_entry_is_zero_or_initial_def map_entry_is_error_def btt_const_defs)
  have blk: "eff_block m a nf i = i" if "i < ?E" for i
    using that g(6,7) lba [OF that] by (simp add: eff_block_def eff entry_block_norm ini)
  have free: "free_block m a l = ?E + l" if "l < nf" for l
    using that g(6,7) by (simp add: free_block_def cur initial_flog_def entry_block_zero_flag flip: of_nat_add)
  have "used_blocks m a nf = [0..<?E] @ map (\<lambda>l. ?E + l) [0..<nf]"
    unfolding used_blocks_def using blk free by (auto intro!: map_idI)
  also have "map (\<lambda>l. ?E + l) [0..<nf] = [?E..<?E + nf]"
    by (simp add: map_add_upt add.commute)
  finally have "used_blocks m a nf = [0..<?E + nf]" by (simp add: upt_add_eq_append [of 0 ?E nf])
  then show "media_inv m a nf" using wf np g(6) by (simp add: media_inv_def)
  show "block_at lbs m a nf i = DataBlock (replicate lbs 0)" if "i < ?E"
    using that by (simp add: block_at_def eff block_of_entry_def ini)
qed

section \<open>Writing the flogs\<close>

text \<open>A namespace that can also be zeroed, with steady power.\<close>

locale format_namespace = steady_namespace cb img alive sz steady
  for cb :: "'s ns_callback" and img alive sz steady +
  assumes zero_steady: "steady s \<Longrightarrow> unat off + unat n \<le> sz \<Longrightarrow>
    \<exists>s'. nszero cb s lane n off = (Inr (), s') \<and> img s' = wr (img s) (unat off) (replicate (unat n) 0)"
    and zero_keeps: "nszero cb s lane n off = (r, s') \<Longrightarrow> steady s' = steady s"

sublocale format_namespace \<subseteq> keep: framed_namespace cb steady
  by unfold_locales (erule steady_write, erule zero_keeps)

lemma unat_next_flog:
  assumes "64 dvd unat off" "unat off + 64 < 2 ^ 64"
  shows "unat (roundup64 (off + sizeof_btt_flog + sizeof_btt_flog) BTT_FLOG_PAIR_ALIGN) = unat off + 64"
    "unat (off + sizeof_btt_flog) = unat off + 16"
proof -
  obtain q where q: "unat off = 64 * q" using assms(1) by (auto elim: dvdE)
  show "unat (off + sizeof_btt_flog) = unat off + 16"
    using assms(2) by (subst unat_add_small) (simp_all add: sizeof_btt_flog_def)
  have u: "unat (off + 32) = unat off + 32" using assms(2) by (subst unat_add_small) simp_all
  have "unat (roundup64 (off + 32) (2 ^ 6)) = 2 ^ 6 * ((unat (off + 32) + 2 ^ 6 - 1) div 2 ^ 6)"
  proof (rule unat_roundup64)
    show "unat (off + 32) + 2 ^ 6 - 1 < 2 ^ 64" using assms(2) q u by simp
  qed simp
  also have "\<dots> = unat off + 64" using u q by simp
  finally show "unat (roundup64 (off + sizeof_btt_flog + sizeof_btt_flog) BTT_FLOG_PAIR_ALIGN) = unat off + 64"
    by (simp add: sizeof_btt_flog_def BTT_FLOG_PAIR_ALIGN_def add.assoc)
qed

context steady_namespace
begin

lemma write_steady:
  assumes "steady s" "unat off + length bs \<le> sz"
  obtains s' where "nswrite cb s lane bs off = (Inr (), s')" "steady s'" "img s' = wr (img s) (unat off) bs"
proof (cases rule: write_cases [OF steady_alive [OF assms(1)] assms(2), of lane, case_names ok torn])
  case (ok s')
  then show ?thesis using steady_write [OF ok(1)] assms(1) that by blast
next
  case (torn e s' sel)
  then show ?thesis using steady_alive [of s'] steady_write [OF torn(1)] assms(1) by simp
qed

lemma write_flogs_ok:
  assumes "steady s" "64 dvd unat off" "unat off + 64 * n \<le> sz" "unat off + 64 * n + 64 < 2 ^ 64"
    and "lba + n < 2 ^ 32"
  shows "\<exists>s'. write_flogs cb lane n (of_nat i) off (of_nat lba) s = (Inr (), s') \<and> steady s' \<and>
    (\<forall>x. x < unat off \<or> unat off + 64 * n \<le> x \<longrightarrow> img s' x = img s x) \<and>
    (\<forall>l < n. flog_at (img s') (unat off + 64 * l) = initial_flog (i + l) (lba + l) \<and>
             flog_at (img s') (unat off + 64 * l + 16) = Zflog)"
  using assms
proof (induction n arbitrary: i off lba s)
  case 0
  then show ?case by simp
next
  case (Suc n)
  let ?f = "btt_flog_convert2le (initial_flog i lba)" and ?z = "btt_flog_convert2le Zflog"
  define off' where "off' = roundup64 (off + sizeof_btt_flog + sizeof_btt_flog) BTT_FLOG_PAIR_ALIGN"
  have "unat off + 64 < 2 ^ 64" using Suc.prems(4) by simp
  note nx = unat_next_flog [OF Suc.prems(2) this, folded off'_def]
  have "unat off + length ?f \<le> sz" using Suc.prems(3) by simp
  then obtain s1 where s1: "nswrite cb s lane ?f off = (Inr (), s1)" "steady s1" "img s1 = wr (img s) (unat off) ?f"
    by (rule write_steady [OF Suc.prems(1)])
  have "unat (off + sizeof_btt_flog) + length ?z \<le> sz" using Suc.prems(3) by (simp add: nx)
  then obtain s2 where s2: "nswrite cb s1 lane ?z (off + sizeof_btt_flog) = (Inr (), s2)" "steady s2"
    "img s2 = wr (img s1) (unat off + 16) ?z"
    using write_steady [OF s1(2), of "off + sizeof_btt_flog" ?z lane] nx(2) by metis
  have "\<exists>s'. write_flogs cb lane n (of_nat (Suc i)) off' (of_nat (Suc lba)) s2 = (Inr (), s') \<and> steady s' \<and>
      (\<forall>x. x < unat off' \<or> unat off' + 64 * n \<le> x \<longrightarrow> img s' x = img s2 x) \<and>
      (\<forall>l < n. flog_at (img s') (unat off' + 64 * l) = initial_flog (Suc i + l) (Suc lba + l) \<and>
               flog_at (img s') (unat off' + 64 * l + 16) = Zflog)"
    using Suc.prems by (intro Suc.IH [OF s2(2)]) (simp_all add: nx)
  then obtain s' where s': "write_flogs cb lane n (of_nat (Suc i)) off' (of_nat (Suc lba)) s2 = (Inr (), s')" "steady s'"
    "\<And>x. x < unat off + 64 \<or> unat off + 64 + 64 * n \<le> x \<Longrightarrow> img s' x = img s2 x"
    "\<And>l. l < n \<Longrightarrow> flog_at (img s') (unat off + 64 + 64 * l) = initial_flog (Suc i + l) (Suc lba + l) \<and>
               flog_at (img s') (unat off + 64 + 64 * l + 16) = Zflog"
    by (auto simp: nx)
  have step: "write_flogs cb lane (Suc n) (of_nat i) off (of_nat lba) s = (Inr (), s')"
    using s1(1) s2(1) s'(1) unfolding off'_def by (simp add: Let_def initial_flog_def add.commute)
  have out: "img s' x = img s x" if "x < unat off \<or> unat off + 64 * Suc n \<le> x" for x
    using s'(3) [of x] that by (auto simp: s2(3) s1(3) wr_def)
  have at: "flog_at (img s') (unat off) = initial_flog i lba" "flog_at (img s') (unat off + 16) = Zflog"
  proof -
    have eq: "rd (img s') (unat off + 16 * k) 16 = rd (img s2) (unat off + 16 * k) 16" if "k \<le> 1" for k
      by (rule rd_eqI) (use that s'(3) in auto)
    have "rd (img s2) (unat off) 16 = ?f" "rd (img s2) (unat off + 16) 16 = ?z"
      by (simp_all add: s2(3) s1(3) mem_simps disjoint_ranges_def)
    then show "flog_at (img s') (unat off) = initial_flog i lba" "flog_at (img s') (unat off + 16) = Zflog"
      using eq [of 0] eq [of 1] by (simp_all add: flog_at_def)
  qed
  have "flog_at (img s') (unat off + 64 * l) = initial_flog (i + l) (lba + l) \<and>
      flog_at (img s') (unat off + 64 * l + 16) = Zflog" if "l < Suc n" for l
    using that at s'(4) [of "l - 1"] by (cases l) (auto simp: add.assoc)
  with step s'(2) out show ?case by blast
qed

end

section \<open>Writing one arena\<close>

text \<open>The info block with the identification fields of the handle.\<close>

definition full_info :: "btt \<Rightarrow> btt_info \<Rightarrow> btt_info" where
  "full_info b info = info\<lparr>i_sig := Sig, i_uuid := b_uuid b, i_parent_uuid := b_parent_uuid b,
     i_major := BTTINFO_MAJOR_VERSION, i_minor := BTTINFO_MINOR_VERSION\<rparr>"

lemma arena_of_full_info: "geom_of (arena_of_info off ((full_info b info)\<lparr>i_checksum := c\<rparr>)) = geom_of (arena_of_info off info)"
  by (simp add: arena_of_info_def full_info_def geom_of_def)

lemma layout_info_misc:
  "i_flags (layout_info l L N R sl) = 0" "length (i_unused (layout_info l L N R sl)) = 3968"
  "i_nextoff (layout_info l L N R 0) = 0"
  by (simp_all add: layout_info_def btt_info_set_offs_def zero_info_def Let_def BTT_MIN_SIZE_def)

lemma Sig_length [simp]: "length Sig = 16"
  by (simp add: Sig_def)

lemma full_info_wf:
  "length (b_uuid b) = 16 \<Longrightarrow> length (b_parent_uuid b) = 16 \<Longrightarrow> info_wf (full_info b (layout_info l L N R sl))"
  by (simp add: info_wf_def full_info_def layout_info_misc)

text \<open>
  A medium on which \<open>write_arena_layout\<close> has written an arena of \<open>R\<close> bytes at address 0:
  zero map, initial flogs, valid info block.
\<close>

lemma fresh_layout:
  assumes R: "2 ^ 24 \<le> unat R" "unat R \<le> 2 ^ 39" "4096 dvd unat R" "unat R \<le> n" "n < 2 ^ 64" and N: "unat N \<le> 65536" "N \<noteq> 0"
    and L: "512 \<le> unat L" "unat L \<le> 2 ^ 32 - 256" "unat l \<le> unat L"
    and I: "2 * unat N \<le> layout_nlba (unat R) (unat N) (unat L)"
  defines "info \<equiv> layout_info l L N R 0" and "a \<equiv> arena_of_info 0 (layout_info l L N R 0)"
  assumes info: "rd m 0 4096 = btt_info_convert2le ((full_info b info)\<lparr>i_checksum := c\<rparr>)"
    "read_info puuid (btt_info_convert2le ((full_info b info)\<lparr>i_checksum := c\<rparr>)) = Some ((full_info b info)\<lparr>i_checksum := c\<rparr>)"
    and wf: "info_wf (full_info b info)"
    and zero: "\<And>x. unat (i_mapoff info) \<le> x \<Longrightarrow> x < unat (i_flogoff info) \<Longrightarrow> m x = 0"
    and flogs: "\<And>k. k < unat N \<Longrightarrow>
      flog_at m (unat (i_flogoff info) + 64 * k) = initial_flog k (unat (i_external_nlba info) + k) \<and>
      flog_at m (unat (i_flogoff info) + 64 * k + 16) = Zflog"
  shows "layout_ok n (unat N) (unat l) m [a]" "infos_valid puuid l N m R 0 [a]"
    and "disk (unat l) (unat N) m [a] = replicate (unat (a_external_nlba a)) (DataBlock (replicate (unat l) 0))"
proof -
  note f = layout_info_fields [OF R(1,2) N(1) L(1,2) I]
  have geom: "arena_geom n (unat N) (unat l) a"
    unfolding a_def by (rule layout_geom) (use R N L I in simp_all)
  have fld: "a_startoff a = 0" "a_mapoff a = i_mapoff info" "a_flogoff a = i_flogoff info"
    "a_external_nlba a = i_external_nlba info" "a_flags a = 0"
    by (simp_all add: a_def info_def arena_of_info_def zero_arena_def layout_info_misc)
  have E: "unat (i_external_nlba info) = layout_nlba (unat R) (unat N) (unat L) - unat N"
    using f(2) by (simp add: info_def)
  have nf: "unat N \<le> unat (a_external_nlba a)" "0 < unat N" using I N by (simp_all add: fld E unat_gt_0)
  have raw: "map_raw m a i = 0" if "i < unat (a_external_nlba a)" for i
  proof -
    have "rd m (map_addr a i) 4 = replicate 4 0"
      using arena_geomD(3) [OF geom] that
      by (intro nth_equalityI) (auto simp: fld map_addr_def intro!: zero)
    then show ?thesis by (simp add: map_raw_def unle32_def numeral_eq_Suc)
  qed
  have fl: "flog_fst m a k = initial_flog k (unat (a_external_nlba a) + k)" "flog_snd m a k = Zflog" if "k < unat N" for k
    using flogs [OF that] by (simp_all add: flog_fst_def flog_snd_def flog_addr_def fld)
  note im = initial_media [OF geom nf(1) raw fl]
  have h: "btt_info_convert2h (rd m 0 4096) = (full_info b info)\<lparr>i_checksum := c\<rparr>"
    unfolding info(1) by (rule info_h_le) (use wf in \<open>simp add: info_wf_def\<close>)
  have "info_describes m a"
    unfolding info_describes_def Let_def
    by (simp add: fld h arena_of_full_info)
      (simp add: a_def info_def arena_of_info_def zero_arena_def full_info_def layout_info_misc)
  then show "layout_ok n (unat N) (unat l) m [a]"
    using geom im(1) by (simp add: layout_ok_def arenas_apart_def fld)
  have "R \<ge> BTT_MIN_SIZE" using R(1) by (simp add: BTT_MIN_SIZE_def word_le_nat_alt)
  moreover have "i_external_nlba info \<noteq> 0" using nf by (auto simp: fld)
  ultimately show "infos_valid puuid l N m R 0 [a]"
    using f(4,5) by (simp add: infos_valid.simps info_valid_def fld info)
      (simp add: full_info_def info_def layout_info_misc)
  show "disk (unat l) (unat N) m [a] = replicate (unat (a_external_nlba a)) (DataBlock (replicate (unat l) 0))"
    unfolding disk_def arena_blocks_def using im(2)
    by (simp add: map_replicate_trivial [symmetric] del: map_replicate_trivial cong: map_cong)
qed

context format_namespace
begin

lemma write_arena_layout_ok:
  assumes st: "steady s" and R: "2 ^ 24 \<le> unat R" "unat R \<le> 2 ^ 39" "4096 dvd unat R" "unat R \<le> sz"
    and N: "unat (b_nfree b) \<le> 65536" "b_nfree b \<noteq> 0"
    and L: "512 \<le> unat L" "unat L \<le> 2 ^ 32 - 256" "unat (b_lbasize b) \<le> unat L"
    and I: "2 * unat (b_nfree b) \<le> layout_nlba (unat R) (unat (b_nfree b)) (unat L)"
    and uuids: "length (b_uuid b) = 16" "length (b_parent_uuid b) = 16"
  defines "info \<equiv> layout_info (b_lbasize b) L (b_nfree b) R 0"
    and "a \<equiv> arena_of_info 0 (layout_info (b_lbasize b) L (b_nfree b) R 0)"
  assumes zeroed: "ns_is_zeroed cb \<Longrightarrow>
      (\<forall>x. unat (i_mapoff info) \<le> x \<and> x < unat (i_flogoff info) \<longrightarrow> img s x = 0)"
  shows "\<exists>s'. write_arena_layout cb b lane info 0 s = (Inr (), s') \<and> steady s' \<and>
    layout_ok sz (unat (b_nfree b)) (unat (b_lbasize b)) (img s') [a] \<and>
    infos_valid (b_parent_uuid b) (b_lbasize b) (b_nfree b) (img s') R 0 [a] \<and>
    disk (unat (b_lbasize b)) (unat (b_nfree b)) (img s') [a] =
      replicate (unat (a_external_nlba a)) (DataBlock (replicate (unat (b_lbasize b)) 0))"
proof -
  let ?N = "unat (b_nfree b)" and ?I = "layout_nlba (unat R) (unat (b_nfree b)) (unat L)"
  let ?F = "rup (64 * ?N) 4096" and ?M = "rup (4 * (?I - ?N)) 4096"
  note f = layout_info_fields [OF R(1,2) N(1) L(1,2) I]
  have E: "unat (i_external_nlba info) = ?I - ?N" "i_external_nlba info = of_nat (?I - ?N)"
    using f(2) by (simp add: info_def) (simp add: info_def layout_info_def btt_info_set_offs_def Let_def)
  have flogoff: "unat (i_flogoff info) = unat R - 4096 - ?F" and mapoff: "unat (i_mapoff info) = unat R - 4096 - ?F - ?M"
    and infooff: "unat (i_infooff info) = unat R - 4096"
    using f(7-9) by (simp_all add: info_def)
  have fit: "4096 + ?M + ?F + 4096 \<le> unat R" using f(10) R(1) by simp
  have d: "4096 dvd unat R - 4096 - ?F" using R(3) by (intro dvd_diff_nat) simp_all
  have F: "64 * ?N \<le> ?F" "64 dvd unat R - 4096 - ?F"
  proof -
    show "64 * ?N \<le> ?F" by (rule rup_ge) simp
    show "64 dvd unat R - 4096 - ?F" by (rule dvd_trans [OF _ d]) simp
  qed
  have ms: "unat (btt_map_size (i_external_nlba info)) = ?M" using f(11) by (simp add: unat_btt_map_size E(1))
  obtain s1 where s1: "(if ns_is_zeroed cb then (Inr (), s)
      else nszero cb s lane (btt_map_size (i_external_nlba info)) (i_mapoff info)) = (Inr (), s1)" "steady s1"
    "\<And>x. unat (i_mapoff info) \<le> x \<Longrightarrow> x < unat (i_flogoff info) \<Longrightarrow> img s1 x = 0"
  proof (cases "ns_is_zeroed cb")
    case True
    then show ?thesis using zeroed st that by auto
  next
    case False
    have "unat (i_mapoff info) + unat (btt_map_size (i_external_nlba info)) \<le> sz"
      using fit R(4) by (simp add: ms mapoff)
    from zero_steady [OF st this, of lane] obtain s1 where
      "nszero cb s lane (btt_map_size (i_external_nlba info)) (i_mapoff info) = (Inr (), s1)" "steady s1"
      "img s1 = wr (img s) (unat (i_mapoff info)) (replicate ?M 0)" using st by (auto simp: ms zero_keeps)
    then show ?thesis using False fit by (intro that [of s1]) (auto simp: wr_def mapoff flogoff)
  qed
  have pre: "64 dvd unat (i_flogoff info)" "unat (i_flogoff info) + 64 * ?N \<le> sz"
    "unat (i_flogoff info) + 64 * ?N + 64 < 2 ^ 64" "?I - ?N + ?N < 2 ^ 32"
    using F fit R(2,4) f(11) I by (simp_all add: flogoff)
  obtain s2 where s2: "write_flogs cb lane ?N 0 (i_flogoff info) (i_external_nlba info) s1 = (Inr (), s2)" "steady s2"
    "\<And>x. x < unat (i_flogoff info) \<or> unat (i_flogoff info) + 64 * ?N \<le> x \<Longrightarrow> img s2 x = img s1 x"
    "\<And>k. k < ?N \<Longrightarrow> flog_at (img s2) (unat (i_flogoff info) + 64 * k) = initial_flog k (?I - ?N + k) \<and>
      flog_at (img s2) (unat (i_flogoff info) + 64 * k + 16) = Zflog"
    using write_flogs_ok [OF s1(2) pre, of lane 0] by (auto simp: E(2))
  have wf: "info_wf (full_info b info)" unfolding info_def by (rule full_info_wf [OF uuids])
  obtain c where c: "util_checksum (btt_info_convert2le (full_info b info)) checksum_off True 0 =
      Inr (True, btt_info_convert2le ((full_info b info)\<lparr>i_checksum := c\<rparr>))"
    "read_info (b_parent_uuid b) (btt_info_convert2le ((full_info b info)\<lparr>i_checksum := c\<rparr>)) =
      Some ((full_info b info)\<lparr>i_checksum := c\<rparr>)"
    by (rule read_info_valid [OF wf, of "b_parent_uuid b"])
      (simp_all add: full_info_def BTTINFO_MAJOR_VERSION_def)
  let ?bs = "btt_info_convert2le ((full_info b info)\<lparr>i_checksum := c\<rparr>)"
  have len: "length ?bs = 4096" by (rule length_info_bytes) (use wf in \<open>simp add: info_wf_def\<close>)
  have "unat (0 :: u64) + length ?bs \<le> sz" using R(1,4) len by simp
  then obtain s3 where s3: "nswrite cb s2 lane ?bs 0 = (Inr (), s3)" "steady s3" "img s3 = wr (img s2) 0 ?bs"
    using write_steady [OF s2(2), of 0 ?bs lane] by auto
  have "unat (i_infooff info) + length ?bs \<le> sz" using R(1,4) len by (simp add: infooff)
  then obtain s4 where s4: "nswrite cb s3 lane ?bs (i_infooff info) = (Inr (), s4)" "steady s4"
    "img s4 = wr (img s3) (unat (i_infooff info)) ?bs"
    by (rule write_steady [OF s3(2)])
  have step: "write_arena_layout cb b lane info 0 s = (Inr (), s4)"
    using s1(1) s2(1) c(1) s3(1) s4(1)
    by (simp add: write_arena_layout_def Let_def full_info_def [symmetric])
  have low: "img s4 x = img s2 x" if "4096 \<le> x" "x < unat R - 4096" for x
    using that len by (simp add: s4(3) s3(3) wr_def infooff)
  have bs: "rd (img s4) 0 4096 = ?bs"
    using fit len by (simp add: s4(3) s3(3) mem_simps disjoint_ranges_def infooff)
  have z4: "img s4 x = 0" if "unat (i_mapoff info) \<le> x" "x < unat (i_flogoff info)" for x
  proof -
    have "4096 \<le> x" "x < unat R - 4096" using that f(10) by (simp_all add: mapoff flogoff)
    with low s2(3) s1(3) that show ?thesis by simp
  qed
  have fl4: "flog_at (img s4) (unat (i_flogoff info) + 64 * k) = initial_flog k (unat (i_external_nlba info) + k) \<and>
      flog_at (img s4) (unat (i_flogoff info) + 64 * k + 16) = Zflog" if k: "k < ?N" for k
  proof -
    have "rd (img s4) (unat (i_flogoff info) + 64 * k + d) 16 = rd (img s2) (unat (i_flogoff info) + 64 * k + d) 16"
      if "d \<le> 16" for d
    proof (rule rd_eqI)
      fix j :: nat assume "j < 16"
      then show "img s4 (unat (i_flogoff info) + 64 * k + d + j) = img s2 (unat (i_flogoff info) + 64 * k + d + j)"
        using k that F(1) fit by (intro low) (simp_all add: flogoff)
    qed
    from this [of 0] this [of 16] s2(4) [OF k] show ?thesis by (simp add: flog_at_def E(1))
  qed
  note fresh = fresh_layout [OF R size_bound N L I, folded info_def a_def, OF bs c(2) wf z4 fl4]
  show ?thesis using step s4(2) fresh by blast
qed

end

section \<open>Writing the layout\<close>

text \<open>The parameters with which a namespace of one arena can be formatted.\<close>

definition format_params :: "btt \<Rightarrow> nat \<Rightarrow> bool" where
  "format_params b n \<longleftrightarrow>
     BTT_MIN_SIZE \<le> b_rawsize b \<and> b_rawsize b \<le> BTT_MAX_ARENA \<and> 4096 dvd unat (b_rawsize b) \<and>
     unat (b_rawsize b) \<le> n \<and> unat (b_nfree b) \<le> 65536 \<and> b_nfree b \<noteq> 0 \<and>
     internal_lbasize (b_lbasize b) \<noteq> 0 \<and> length (b_parent_uuid b) = 16 \<and>
     2 * unat (b_nfree b) \<le> layout_nlba (unat (b_rawsize b)) (unat (b_nfree b)) (unat (internal_lbasize (b_lbasize b)))"

definition format_arena :: "btt \<Rightarrow> arena" where
  "format_arena b = arena_of_info 0 (layout_info (b_lbasize b) (internal_lbasize (b_lbasize b)) (b_nfree b) (b_rawsize b) 0)"

text \<open>The map area must be zero if the namespace claims to be zeroed.\<close>

definition map_zeroed :: "btt \<Rightarrow> mem \<Rightarrow> bool" where
  "map_zeroed b m \<longleftrightarrow> (\<forall>x. unat (a_mapoff (format_arena b)) \<le> x \<and> x < unat (a_flogoff (format_arena b)) \<longrightarrow> m x = 0)"

lemma format_paramsD:
  assumes "format_params b n"
  defines "L \<equiv> internal_lbasize (b_lbasize b)" and "R \<equiv> b_rawsize b"
  shows "2 ^ 24 \<le> unat R" "unat R \<le> 2 ^ 39" "4096 dvd unat R" "unat R \<le> n"
    "512 \<le> unat L" "unat L \<le> 2 ^ 32 - 256" "unat (b_lbasize b) \<le> unat L"
    "2 * unat (b_nfree b) \<le> layout_nlba (unat R) (unat (b_nfree b)) (unat L)"
    "unat (b_nfree b) \<le> 65536" "b_nfree b \<noteq> 0" "length (b_parent_uuid b) = 16"
    "layout_arena_rawsize R = R" "layout_narena R = 1"
proof -
  show r: "2 ^ 24 \<le> unat R" "unat R \<le> 2 ^ 39"
    using assms(1) by (simp_all add: format_params_def R_def BTT_MIN_SIZE_def BTT_MAX_ARENA_def word_le_nat_alt)
  show "512 \<le> unat L" "unat L \<le> 2 ^ 32 - 256" "unat (b_lbasize b) \<le> unat L"
    using assms(1) internal_lbasize_bounds [of "b_lbasize b" L] by (simp_all add: format_params_def L_def)
  show "layout_arena_rawsize R = R"
    using r by (simp add: layout_arena_rawsize_def BTT_MAX_ARENA_def word_less_nat_alt)
  show "layout_narena R = 1"
  proof (cases "unat R = 2 ^ 39")
    case True
    then have "R = BTT_MAX_ARENA" by (simp add: BTT_MAX_ARENA_def word_unat_eq_iff)
    then show ?thesis by (simp add: layout_narena_def BTT_MAX_ARENA_def BTT_MIN_SIZE_def)
  next
    case False
    with r have lt: "unat R < unat BTT_MAX_ARENA" by (simp add: BTT_MAX_ARENA_def)
    then have "R div BTT_MAX_ARENA = 0" "R mod BTT_MAX_ARENA = R"
      by (simp_all add: word_unat_eq_iff unat_div_distrib unat_mod_distrib)
    with r show ?thesis by (simp add: layout_narena_def BTT_MIN_SIZE_def word_le_nat_alt)
  qed
qed (use assms(1) in \<open>simp_all add: format_params_def L_def R_def\<close>)

context format_namespace
begin

lemma write_layout_ok:
  assumes st: "steady s" and fp: "format_params b sz" and uuid: "length uuid = 16" and lane: "lane < unat (b_nfree b)"
    and zeroed: "ns_is_zeroed cb \<Longrightarrow> map_zeroed b (img s)"
  obtains b' s' where "write_layout cb (Inr uuid) b lane True s = (Inr (), b', s')" "steady s'"
    "handle_ready sz (img s') b'"
    "btt_disk b' (img s') = replicate (unat (a_external_nlba (format_arena b))) (DataBlock (replicate (unat (b_lbasize b)) 0))"
    "infos_valid (b_parent_uuid b) (b_lbasize b) (b_nfree b) (img s') (b_rawsize b) 0 (b_arenas b')"
    "map geom_of (b_arenas b') = [geom_of (format_arena b)]" "b_nlane b' = b_nlane b" "b_nfree b' = b_nfree b"
    "b_lbasize b' = b_lbasize b" "b_rawsize b' = b_rawsize b" "b_parent_uuid b' = b_parent_uuid b"
proof -
  note p = format_paramsD [OF fp]
  let ?R = "b_rawsize b" and ?L = "internal_lbasize (b_lbasize b)"
  let ?b1 = "b\<lparr>b_uuid := uuid, b_narena := 1\<rparr>" and ?a = "format_arena b"
  let ?info = "layout_info (b_lbasize b) ?L (b_nfree b) ?R 0"
  have z: "ns_is_zeroed cb \<Longrightarrow> \<forall>x. unat (i_mapoff ?info) \<le> x \<and> x < unat (i_flogoff ?info) \<longrightarrow> img s x = 0"
    using zeroed by (simp add: map_zeroed_def format_arena_def arena_of_info_def zero_arena_def)
  have b1: "b_nfree ?b1 = b_nfree b" "b_lbasize ?b1 = b_lbasize b" "b_parent_uuid ?b1 = b_parent_uuid b"
    "b_uuid ?b1 = uuid" by simp_all
  obtain s1 where s1: "write_arena_layout cb ?b1 lane ?info 0 s = (Inr (), s1)" "steady s1"
    "layout_ok sz (unat (b_nfree b)) (unat (b_lbasize b)) (img s1) [?a]"
    "infos_valid (b_parent_uuid b) (b_lbasize b) (b_nfree b) (img s1) ?R 0 [?a]"
    "disk (unat (b_lbasize b)) (unat (b_nfree b)) (img s1) [?a] =
      replicate (unat (a_external_nlba ?a)) (DataBlock (replicate (unat (b_lbasize b)) 0))"
    using write_arena_layout_ok [of s ?R ?b1 ?L lane, unfolded b1, OF st p(1-4) p(9,10) p(5-8) uuid p(11) z]
    unfolding format_arena_def by blast
  have params: "btt_info_set_params zero_info (b_lbasize b) ?L (b_nfree b) ?R =
      Inr (zero_info\<lparr>i_external_lbasize := b_lbasize b, i_internal_lbasize := ?L, i_nfree := b_nfree b, i_infosize := 4096,
        i_internal_nlba := of_nat (layout_nlba (unat ?R) (unat (b_nfree b)) (unat ?L)),
        i_external_nlba := of_nat (layout_nlba (unat ?R) (unat (b_nfree b)) (unat ?L) - unat (b_nfree b))\<rparr>)"
    using p(8) by (simp add: btt_info_set_params_eq(1) [OF p(1,2,9,5,6)])
  have min: "BTT_MIN_SIZE \<le> ?R" "\<not> BTT_MIN_SIZE \<le> (0 :: u64)" using fp by (simp_all add: format_params_def BTT_MIN_SIZE_def)
  have ext: "i_external_nlba ?info = a_external_nlba ?a"
    by (simp add: format_arena_def arena_of_info_def zero_arena_def)
  have ext': "i_external_nlba ?info = of_nat (layout_nlba (unat ?R) (unat (b_nfree b)) (unat ?L) - unat (b_nfree b))"
    by (simp add: layout_info_def btt_info_set_offs_def Let_def)
  have "write_layout_loop cb ?b1 lane True ?L ?R 0 0 s = write_layout_loop cb ?b1 lane True ?L 0
      (0 + i_nextoff ?info) (0 + ucast (i_external_nlba ?info)) s1"
    using min(1) params s1(1) ext'
    by (subst write_layout_loop.simps) (simp add: p(12) Let_def layout_info_def)
  also have "\<dots> = (Inr (ucast (a_external_nlba ?a)), s1)"
    using min(2) by (subst write_layout_loop.simps) (simp add: ext)
  finally have loop: "write_layout_loop cb ?b1 lane True ?L ?R 0 0 s = (Inr (ucast (a_external_nlba ?a)), s1)" .
  let ?b2 = "?b1\<lparr>b_nlba := ucast (a_external_nlba ?a)\<rparr>"
  have lz: "?L \<noteq> 0" using fp by (simp add: format_params_def)
  have step: "write_layout cb (Inr uuid) b lane True s = read_arenas cb ?b2 lane 1 s1"
    using loop lz by (simp add: write_layout_def Let_def p(13))
  have pre: "handle_for ?b2 (unat (b_nfree b)) (unat (b_lbasize b))" "unat (b_nlba ?b2) = sum_list (ext_sizes [?a])"
    "b_narena ?b2 = length [?a]"
    by (simp_all add: handle_for_def ext_sizes_def)
  show ?thesis
  proof (cases rule: read_arenas_cases [OF steady_alive [OF s1(2)] s1(3) pre lane, case_names ok torn])
    case (ok as' s')
    let ?b' = "?b2\<lparr>b_arenas := as', b_laidout := True\<rparr>"
    have run: "write_layout cb (Inr uuid) b lane True s = (Inr (), ?b', s')" using ok(1) by (simp add: step)
    have "infos_valid (b_parent_uuid b) (b_lbasize b) (b_nfree b) (img s') ?R 0 as'"
      using infos_valid_frame [OF s1(3,4) ok(6)] by (simp only: infos_valid_geom [OF ok(5)])
    moreover have "steady s'" using keep.read_arenas_rest [of ?b2 lane 1 s1] ok(1) s1(2) by simp
    ultimately show ?thesis using run ok(3-5) s1(5) by (intro that [of ?b' s']) simp_all
  next
    case (torn e b' s')
    then have "steady s'" using keep.read_arenas_rest [of ?b2 lane 1 s1] s1(2) by simp
    then show ?thesis using torn(2) steady_alive by blast
  qed
qed

end

end
