(* ===== verification/Medium.thy ===== *)
theory Medium
  imports Prelude
begin

text \<open>
  Persistent memory that may lose power.  A store that is flushed before the code
  goes on (\<open>pmem_persist\<close>, \<open>pmem_drain\<close> after non-temporal stores, \<open>pmem_msync\<close>) is
  one step \<open>persist\<close>.  Stores that are not flushed at once (\<open>pmem_memcpy_nodrain\<close>,
  plain stores before a flush) wait in a list until \<open>drain\<close>.  \<open>md_power\<close> counts the
  steps until power fails: then, of the stores that are not yet persistent, exactly
  the 8-byte words selected by \<open>md_torn\<close> have reached the medium (its first argument
  is the position of the store among them), and from then on nothing does.  With
  \<open>None\<close> the power never fails.
\<close>

record medium =
  md_img :: mem
  md_power :: "nat option"
  md_torn :: "nat \<Rightarrow> nat \<Rightarrow> bool"

definition powered :: "medium \<Rightarrow> bool" where
  "powered s \<longleftrightarrow> md_power s \<noteq> Some 0"

definition steady :: "medium \<Rightarrow> bool" where
  "steady s \<longleftrightarrow> md_power s = None"

definition persist :: "medium \<Rightarrow> nat \<Rightarrow> byte list \<Rightarrow> (err + unit) \<times> medium" where
  "persist s off bs =
     (case md_power s of
        None \<Rightarrow> (Inr (), s\<lparr>md_img := wr (md_img s) off bs\<rparr>)
      | Some n \<Rightarrow>
          (if n = 0 then (Inl POWERLOSS, s)
           else if n = 1 then
             (Inl POWERLOSS, s\<lparr>md_img := wr_torn (md_torn s 0) (md_img s) off bs, md_power := Some 0\<rparr>)
           else (Inr (), s\<lparr>md_img := wr (md_img s) off bs, md_power := Some (n - 1)\<rparr>)))"

text \<open>A load; the program does not run any more when power is gone.\<close>

definition load :: "medium \<Rightarrow> nat \<Rightarrow> nat \<Rightarrow> err + byte list" where
  "load s off n = (if powered s then Inr (rd (md_img s) off n) else Inl POWERLOSS)"

lemma persist_steady: "steady s \<Longrightarrow> persist s off bs = (Inr (), s\<lparr>md_img := wr (md_img s) off bs\<rparr>)"
  by (simp add: persist_def steady_def)

lemma persist_keeps_steady: "persist s off bs = (r, s') \<Longrightarrow> steady s' = steady s"
  by (auto simp: persist_def steady_def split: option.splits if_splits)

lemma steady_powered: "steady s \<Longrightarrow> powered s"
  by (simp add: steady_def powered_def)

lemma persist_cases:
  assumes "powered s"
  obtains (ok) s' where "persist s off bs = (Inr (), s')" "powered s'" "md_img s' = wr (md_img s) off bs"
    | (torn) s' where "persist s off bs = (Inl POWERLOSS, s')" "\<not> powered s'"
        "md_img s' = wr_torn (md_torn s 0) (md_img s) off bs"
proof (cases "md_power s")
  case None
  then show ?thesis by (intro that(1)) (simp add: persist_def powered_def)+
next
  case (Some n)
  with assms have "n \<noteq> 0" by (simp add: powered_def)
  show ?thesis
  proof (cases "n = 1")
    case True
    with Some show ?thesis by (intro that(2)) (simp add: persist_def powered_def)+
  next
    case False
    with Some \<open>n \<noteq> 0\<close> show ?thesis by (intro that(1)) (simp add: persist_def powered_def)+
  qed
qed

lemma persist_dead: "\<not> powered s \<Longrightarrow> persist s off bs = (Inl POWERLOSS, s)"
  by (simp add: persist_def powered_def)

lemma load_powered: "powered s \<Longrightarrow> load s off n = Inr (rd (md_img s) off n)"
  by (simp add: load_def)


section \<open>Stores that wait for a drain\<close>

type_synonym pending = "(nat \<times> byte list) list"

fun wr_all :: "mem \<Rightarrow> pending \<Rightarrow> mem" where
  "wr_all m [] = m"
| "wr_all m ((off, bs) # ps) = wr_all (wr m off bs) ps"

fun wr_some :: "(nat \<Rightarrow> nat \<Rightarrow> bool) \<Rightarrow> mem \<Rightarrow> pending \<Rightarrow> mem" where
  "wr_some sel m [] = m"
| "wr_some sel m ((off, bs) # ps) = wr_some (\<lambda>i. sel (Suc i)) (wr_torn (sel 0) m off bs) ps"

text \<open>A step with stores pending: it is done, or power fails during it.\<close>

definition tick :: "medium \<Rightarrow> pending \<Rightarrow> (err + unit) \<times> medium" where
  "tick s ps =
     (case md_power s of
        None \<Rightarrow> (Inr (), s)
      | Some n \<Rightarrow>
          (if n = 0 then (Inl POWERLOSS, s)
           else if n = 1 then (Inl POWERLOSS, s\<lparr>md_img := wr_some (md_torn s) (md_img s) ps, md_power := Some 0\<rparr>)
           else (Inr (), s\<lparr>md_power := Some (n - 1)\<rparr>)))"

definition nodrain :: "medium \<Rightarrow> pending \<Rightarrow> nat \<Rightarrow> byte list \<Rightarrow> (err + pending) \<times> medium" where
  "nodrain s ps off bs = bind_io (tick s (ps @ [(off, bs)])) (\<lambda>_ s1. (Inr (ps @ [(off, bs)]), s1))"

definition drain :: "medium \<Rightarrow> pending \<Rightarrow> (err + unit) \<times> medium" where
  "drain s ps = bind_io (tick s ps) (\<lambda>_ s1. (Inr (), s1\<lparr>md_img := wr_all (md_img s1) ps\<rparr>))"

text \<open>Persisting is storing and draining in one step.\<close>

lemma persist_drain: "persist s off bs = drain s [(off, bs)]"
  by (simp add: persist_def drain_def tick_def split: option.split)

lemma tick_cases:
  assumes "powered s"
  obtains (ok) s' where "tick s ps = (Inr (), s')" "powered s'" "md_img s' = md_img s" "md_torn s' = md_torn s"
        "md_power s' = map_option (\<lambda>n. n - 1) (md_power s)"
    | (torn) s' where "tick s ps = (Inl POWERLOSS, s')" "\<not> powered s'" "md_img s' = wr_some (md_torn s) (md_img s) ps"
        "md_power s = Some 1"
proof (cases "md_power s")
  case None
  then show ?thesis by (intro that(1) [of s]) (simp_all add: tick_def powered_def)
next
  case (Some n)
  with assms have "n \<noteq> 0" by (simp add: powered_def)
  show ?thesis
  proof (cases "n = 1")
    case True
    with Some show ?thesis
      by (intro that(2) [of "s\<lparr>md_img := wr_some (md_torn s) (md_img s) ps, md_power := Some 0\<rparr>"])
        (simp_all add: tick_def powered_def)
  next
    case False
    with Some \<open>n \<noteq> 0\<close> show ?thesis
      by (intro that(1) [of "s\<lparr>md_power := Some (n - 1)\<rparr>"]) (simp_all add: tick_def powered_def)
  qed
qed

lemma tick_dead: "\<not> powered s \<Longrightarrow> tick s ps = (Inl POWERLOSS, s)"
  by (simp add: tick_def powered_def)

lemma tick_steady: "tick s ps = (r, s') \<Longrightarrow> steady s' = steady s"
  by (auto simp: tick_def steady_def split: option.splits if_splits)

text \<open>Pending stores change nothing outside their ranges.\<close>

definition covers :: "pending \<Rightarrow> nat \<Rightarrow> bool" where
  "covers ps x \<longleftrightarrow> (\<exists>(off, bs) \<in> set ps. off \<le> x \<and> x < off + length bs)"

lemma wr_all_outside: "\<not> covers ps x \<Longrightarrow> wr_all m ps x = m x"
  by (induction m ps rule: wr_all.induct) (auto simp: covers_def wr_outside not_le)

lemma wr_some_outside: "\<not> covers ps x \<Longrightarrow> wr_some sel m ps x = m x"
  by (induction sel m ps rule: wr_some.induct) (auto simp: covers_def wr_torn_outside not_le)

lemma wr_all_snoc: "wr_all m (ps @ [(off, bs)]) = wr (wr_all m ps) off bs"
  by (induction m ps rule: wr_all.induct) simp_all

lemma covers_snoc [simp]: "covers (ps @ [(off, bs)]) x \<longleftrightarrow> covers ps x \<or> off \<le> x \<and> x < off + length bs"
  by (auto simp: covers_def)

lemma covers_Nil [simp]: "\<not> covers [] x"
  by (simp add: covers_def)

lemma nodrain_cases:
  assumes "powered s"
  obtains (ok) s' where "nodrain s ps off bs = (Inr (ps @ [(off, bs)]), s')" "powered s'" "md_img s' = md_img s"
    | (torn) s' where "nodrain s ps off bs = (Inl POWERLOSS, s')" "\<not> powered s'"
      "\<And>x. \<not> covers (ps @ [(off, bs)]) x \<Longrightarrow> md_img s' x = md_img s x"
proof (cases rule: tick_cases [OF assms, of "ps @ [(off, bs)]", case_names ok torn])
  case (ok s')
  then show ?thesis by (intro that(1) [of s']) (simp_all add: nodrain_def)
next
  case (torn s')
  then show ?thesis by (intro that(2) [of s']) (simp_all add: nodrain_def wr_some_outside)
qed

lemma drain_cases:
  assumes "powered s"
  obtains (ok) s' where "drain s ps = (Inr (), s')" "powered s'" "md_img s' = wr_all (md_img s) ps"
    | (torn) s' where "drain s ps = (Inl POWERLOSS, s')" "\<not> powered s'"
      "\<And>x. \<not> covers ps x \<Longrightarrow> md_img s' x = md_img s x"
proof (cases rule: tick_cases [OF assms, of ps, case_names ok torn])
  case (ok s')
  then show ?thesis
    by (intro that(1) [of "s'\<lparr>md_img := wr_all (md_img s') ps\<rparr>"]) (simp_all add: drain_def powered_def)
next
  case (torn s')
  then show ?thesis by (intro that(2) [of s']) (simp_all add: drain_def wr_some_outside)
qed

lemma nodrain_steady: "nodrain s ps off bs = (r, s') \<Longrightarrow> steady s' = steady s"
  by (auto simp: nodrain_def dest: tick_steady elim: bind_io_cases)

lemma drain_steady: "drain s ps = (r, s') \<Longrightarrow> steady s' = steady s"
proof -
  assume "drain s ps = (r, s')"
  then obtain r1 s1 where "tick s ps = (r1, s1)" "md_power s' = md_power s1"
    by (auto simp: drain_def elim: bind_io_cases)
  then show ?thesis by (auto simp: steady_def dest: tick_steady [unfolded steady_def])
qed

end
