(* ===== verification/Blk.thy ===== *)
theory Blk
  imports Btt_Format Medium
begin

text \<open>
  Block memory pools (libpmemblk/blk.c, blk.h).  The pool is one persistent memory;
  the BTT works in its data area through the callbacks \<open>nsread\<close>, \<open>nswrite\<close>,
  \<open>nszero\<close>, \<open>nsmap\<close>.  The pool set functions of common/set.c are inputs: \<open>pool_set\<close> is
  what they return.  The callbacks are shown to provide the namespace interface of
  the BTT, power failure included, so that everything proved there holds here.
\<close>

section \<open>The pool\<close>

definition BLK_DATA_OFF :: nat where "BLK_DATA_OFF = 8192"
definition BLK_BSIZE_OFF :: nat where "BLK_BSIZE_OFF = 4096"
definition BLK_ZEROED_OFF :: nat where "BLK_ZEROED_OFF = 4100"

text \<open>
  The fields of \<open>struct pmemblk\<close>.  The pool header, the block size and the zeroed flag are
  read from the medium; the run-time fields, which the code keeps behind them in the same
  mapped page and sets anew whenever the pool is opened, are the handle.  The bytes of the
  medium from 4104 to 8192 are thus not those of the mapped page.
\<close>

record pmemblk =
  pb_size :: u64
  pb_is_pmem :: bool
  pb_is_dev_dax :: bool
  pb_rdonly :: bool
  pb_is_zeroed :: bool
  pb_datasize :: u64
  pb_poolset_uuid :: "byte list"
  pb_bttp :: btt
  pb_nlane :: u32
  pb_next_lane :: u32
  pb_locks :: "bool list"

record pool_set =
  ps_nreplicas :: nat
  ps_repsize :: u64
  ps_is_pmem :: bool
  ps_is_dev_dax :: bool
  ps_rdonly :: bool
  ps_zeroed :: bool
  ps_poolset_uuid :: "byte list"

section \<open>Lanes\<close>

text \<open>
  \<open>lane_enter\<close> takes the next lane, round robin, and its lock.  A single thread
  that finds the lock taken waits forever.
\<close>

definition lane_enter :: "pmemblk \<Rightarrow> (err + nat) \<times> pmemblk" where
  "lane_enter pbp =
     (if pb_nlane pbp = 0 then (Inl ABORT, pbp)
      else (let mylane = unat (pb_next_lane pbp mod pb_nlane pbp);
                pbp1 = pbp\<lparr>pb_next_lane := pb_next_lane pbp + 1\<rparr>
            in if pb_locks pbp ! mylane then (Inl HANG, pbp1)
               else (Inr mylane, pbp1\<lparr>pb_locks := (pb_locks pbp)[mylane := True]\<rparr>)))"

definition lane_exit :: "pmemblk \<Rightarrow> nat \<Rightarrow> pmemblk" where
  "lane_exit pbp mylane = pbp\<lparr>pb_locks := (pb_locks pbp)[mylane := False]\<rparr>"

section \<open>Namespace callbacks\<close>

text \<open>
  The callbacks get the size of the data area from the handle and work on the pool's memory.
  Their bounds checks are sums of \<open>size_t\<close> values, which wrap around.  If a check passes only
  because its sum wrapped, the code goes on with an address outside the data area, possibly
  outside the mapping: such a call is \<open>ABORT\<close>.
\<close>

definition blk_nsread :: "u64 \<Rightarrow> medium \<Rightarrow> nat \<Rightarrow> nat \<Rightarrow> u64 \<Rightarrow> err + byte list" where
  "blk_nsread datasize s lane count off =
     (if off + of_nat count > datasize then Inl EINVAL
      else if unat off + count > unat datasize then Inl ABORT
      else load s (BLK_DATA_OFF + unat off) count)"

definition blk_nswrite :: "u64 \<Rightarrow> medium \<Rightarrow> nat \<Rightarrow> byte list \<Rightarrow> u64 \<Rightarrow> (err + unit) \<times> medium" where
  "blk_nswrite datasize s lane buf off =
     (if off + of_nat (length buf) > datasize then (Inl EINVAL, s)
      else if unat off + length buf > unat datasize then (Inl ABORT, s)
      else persist s (BLK_DATA_OFF + unat off) buf)"

definition blk_nsmap :: "u64 \<Rightarrow> medium \<Rightarrow> nat \<Rightarrow> nat \<Rightarrow> u64 \<Rightarrow> err + byte list" where
  "blk_nsmap datasize s lane len off =
     (if off + of_nat len \<ge> datasize then Inl EINVAL
      else if unat off + len > unat datasize then Inl ABORT
      else load s (BLK_DATA_OFF + unat off) len)"

definition blk_nszero :: "u64 \<Rightarrow> medium \<Rightarrow> nat \<Rightarrow> u64 \<Rightarrow> u64 \<Rightarrow> (err + unit) \<times> medium" where
  "blk_nszero datasize s lane count off =
     (if off + count > datasize then (Inl EINVAL, s)
      else if unat off + unat count > unat datasize then (Inl ABORT, s)
      else persist s (BLK_DATA_OFF + unat off) (replicate (unat count) 0))"

text \<open>
  In the code the table of callbacks is one static variable, and opening a pool sets its
  \<open>ns_is_zeroed\<close>, for all pools that are open.  The model is of one pool; with a second one the
  flag of the pool opened last decides.
\<close>

definition ns_cb :: "u64 \<Rightarrow> bool \<Rightarrow> medium ns_callback" where
  "ns_cb datasize zeroed =
     \<lparr> nsread = blk_nsread datasize, nswrite = blk_nswrite datasize, nszero = blk_nszero datasize,
       nsmap = blk_nsmap datasize, ns_is_zeroed = zeroed \<rparr>"

text \<open>The callbacks of an open pool.\<close>

definition pool_cb :: "pmemblk \<Rightarrow> medium ns_callback" where
  "pool_cb pbp = ns_cb (pb_datasize pbp) (pb_is_zeroed pbp)"

section \<open>Creating and opening\<close>

text \<open>\<open>blk_descr_create\<close>: two persisted stores into the pool header page.\<close>

definition blk_descr_create :: "medium \<Rightarrow> u32 \<Rightarrow> bool \<Rightarrow> (err + unit) \<times> medium" where
  "blk_descr_create s bsize zeroed =
     bind_io (persist s BLK_BSIZE_OFF (le32 bsize)) (\<lambda>_ s1.
       persist s1 BLK_ZEROED_OFF (le32 (if zeroed then 1 else 0)))"

definition blk_descr_check :: "medium \<Rightarrow> u64 \<Rightarrow> err + u64" where
  "blk_descr_check s bsize =
     (case load s BLK_BSIZE_OFF 4 of
        Inl e \<Rightarrow> Inl e
      | Inr bs \<Rightarrow>
          (let hdr_bsize = ucast (unle32 bs) :: u64
           in if bsize \<noteq> 0 \<and> bsize \<noteq> hdr_bsize then Inl EINVAL else Inr hdr_bsize))"

text \<open>
  \<open>blk_runtime_init\<close>: the data area, the BTT in it, one lock per lane.  \<open>ncpus\<close> is
  the answer of sysconf.
\<close>

definition blk_runtime_init ::
  "pmemblk \<Rightarrow> u64 \<Rightarrow> bool \<Rightarrow> int \<Rightarrow> medium \<Rightarrow> (err + pmemblk) \<times> medium" where
  "blk_runtime_init pbp bsize rdonly ncpus s =
     (case load s BLK_ZEROED_OFF 4 of
        Inl e \<Rightarrow> (Inl e, s)
      | Inr z \<Rightarrow>
          (let zeroed = (unle32 z \<noteq> 0);
               pbp1 = pbp\<lparr>pb_rdonly := rdonly, pb_is_zeroed := zeroed,
                          pb_datasize := pb_size pbp - of_nat BLK_DATA_OFF\<rparr>;
               cpus = (if ncpus < 1 then 1 else ncpus)
           in case btt_init (ns_cb (pb_datasize pbp1) zeroed) (pb_datasize pbp1) (ucast bsize)
                     (pb_poolset_uuid pbp) (word_of_int cpus * 2) s of
                (Inl e, s1) \<Rightarrow> (Inl e, s1)
              | (Inr b, s1) \<Rightarrow>
                  (Inr (pbp1\<lparr>pb_bttp := b, pb_nlane := btt_nlane b, pb_next_lane := 0,
                             pb_locks := replicate (unat (btt_nlane b)) False\<rparr>), s1)))"

definition blk_handle :: "pool_set \<Rightarrow> btt \<Rightarrow> pmemblk" where
  "blk_handle ps b =
     \<lparr> pb_size = ps_repsize ps, pb_is_pmem = ps_is_pmem ps, pb_is_dev_dax = ps_is_dev_dax ps,
       pb_rdonly = False, pb_is_zeroed = False, pb_datasize = 0,
       pb_poolset_uuid = ps_poolset_uuid ps, pb_bttp = b, pb_nlane = 0, pb_next_lane = 0, pb_locks = [] \<rparr>"

definition no_btt :: btt where
  "no_btt = \<lparr> b_nlane = 0, b_laidout = False, b_uuid = [], b_parent_uuid = [], b_rawsize = 0, b_lbasize = 0,
     b_nfree = 0, b_nlba = 0, b_narena = 0, b_arenas = [] \<rparr>"

text \<open>
  \<open>pmemblk_createU\<close>: \<open>pset\<close> is the result of \<open>util_pool_create\<close>, \<open>chmod\<close> the one of
  \<open>util_poolset_chmod\<close>.
\<close>

definition pmemblk_create ::
  "u64 \<Rightarrow> err + pool_set \<Rightarrow> err + unit \<Rightarrow> int \<Rightarrow> medium \<Rightarrow> (err + pmemblk) \<times> medium" where
  "pmemblk_create bsize pset chmod ncpus s =
     (if bsize = 0 then (Inl EINVAL, s)
      else if bsize > 0xFFFFFFFF then (Inl EINVAL, s)
      else (case pset of
              Inl e \<Rightarrow> (Inl e, s)
            | Inr ps \<Rightarrow>
                bind_io (blk_descr_create s (ucast bsize) (ps_zeroed ps)) (\<lambda>_ s1.
                bind_io (blk_runtime_init (blk_handle ps no_btt) bsize False ncpus s1) (\<lambda>pbp s2.
                  (case chmod of Inl e \<Rightarrow> (Inl e, s2) | Inr _ \<Rightarrow> (Inr pbp, s2))))))"

text \<open>\<open>blk_open_common\<close> (and \<open>pmemblk_open\<close>): \<open>pset\<close> is the result of \<open>util_pool_open\<close>.\<close>

definition blk_open_common ::
  "u64 \<Rightarrow> err + pool_set \<Rightarrow> int \<Rightarrow> medium \<Rightarrow> (err + pmemblk) \<times> medium" where
  "blk_open_common bsize pset ncpus s =
     (case pset of
        Inl e \<Rightarrow> (Inl e, s)
      | Inr ps \<Rightarrow>
          (if ps_nreplicas ps > 1 then (Inl ENOTSUP, s)
           else (case blk_descr_check s bsize of
                   Inl e \<Rightarrow> (Inl e, s)
                 | Inr bsize' \<Rightarrow> blk_runtime_init (blk_handle ps no_btt) bsize' (ps_rdonly ps) ncpus s)))"

section \<open>Block operations\<close>

definition pmemblk_bsize :: "medium \<Rightarrow> err + u64" where
  "pmemblk_bsize s = (case load s BLK_BSIZE_OFF 4 of Inl e \<Rightarrow> Inl e | Inr bs \<Rightarrow> Inr (ucast (unle32 bs)))"

definition pmemblk_nblock :: "pmemblk \<Rightarrow> u64" where
  "pmemblk_nblock pbp = btt_nlba (pb_bttp pbp)"

definition pmemblk_read :: "pmemblk \<Rightarrow> int \<Rightarrow> medium \<Rightarrow> (err + byte list) \<times> pmemblk" where
  "pmemblk_read pbp blockno s =
     (if blockno < 0 then (Inl EINVAL, pbp)
      else (case lane_enter pbp of
              (Inl e, pbp1) \<Rightarrow> (Inl e, pbp1)
            | (Inr lane, pbp1) \<Rightarrow>
                (case btt_read_seq (pool_cb pbp1) (pb_bttp pbp1) lane (word_of_int blockno) s of
                   (r, b) \<Rightarrow> (r, lane_exit (pbp1\<lparr>pb_bttp := b\<rparr>) lane))))"

text \<open>
  \<open>pmemblk_write\<close>, \<open>pmemblk_set_zero\<close> and \<open>pmemblk_set_error\<close> check their arguments,
  then run one BTT operation in a lane.
\<close>

definition blk_in_lane ::
  "pmemblk \<Rightarrow> int \<Rightarrow> (btt \<Rightarrow> nat \<Rightarrow> u64 \<Rightarrow> medium \<Rightarrow> (err + unit) \<times> btt \<times> medium) \<Rightarrow> medium \<Rightarrow>
     (err + unit) \<times> pmemblk \<times> medium" where
  "blk_in_lane pbp blockno oper s =
     (if pb_rdonly pbp then (Inl EROFS, pbp, s)
      else if blockno < 0 then (Inl EINVAL, pbp, s)
      else (case lane_enter pbp of
              (Inl e, pbp1) \<Rightarrow> (Inl e, pbp1, s)
            | (Inr lane, pbp1) \<Rightarrow>
                (case oper (pb_bttp pbp1) lane (word_of_int blockno) s of
                   (r, b, s1) \<Rightarrow> (r, lane_exit (pbp1\<lparr>pb_bttp := b\<rparr>) lane, s1))))"

definition pmemblk_write ::
  "err + byte list \<Rightarrow> pmemblk \<Rightarrow> byte list \<Rightarrow> int \<Rightarrow> medium \<Rightarrow> (err + unit) \<times> pmemblk \<times> medium" where
  "pmemblk_write gen pbp buf blockno s =
     blk_in_lane pbp blockno (\<lambda>b lane lba. btt_write (pool_cb pbp) gen b lane lba buf) s"

definition pmemblk_set_zero ::
  "err + byte list \<Rightarrow> pmemblk \<Rightarrow> int \<Rightarrow> medium \<Rightarrow> (err + unit) \<times> pmemblk \<times> medium" where
  "pmemblk_set_zero gen pbp blockno s =
     blk_in_lane pbp blockno (\<lambda>b lane lba. btt_set_zero (pool_cb pbp) gen b lane lba) s"

definition pmemblk_set_error ::
  "err + byte list \<Rightarrow> pmemblk \<Rightarrow> int \<Rightarrow> medium \<Rightarrow> (err + unit) \<times> pmemblk \<times> medium" where
  "pmemblk_set_error gen pbp blockno s =
     blk_in_lane pbp blockno (\<lambda>b lane lba. btt_set_error (pool_cb pbp) gen b lane lba) s"

definition pmemblk_check ::
  "u64 \<Rightarrow> err + pool_set \<Rightarrow> int \<Rightarrow> medium \<Rightarrow> err + bool" where
  "pmemblk_check bsize pset ncpus s =
     (case blk_open_common bsize pset ncpus s of
        (Inl e, _) \<Rightarrow> Inl e
      | (Inr pbp, s1) \<Rightarrow> btt_check (pool_cb pbp) (pb_bttp pbp) s1)"

section \<open>The callbacks provide the namespace interface\<close>

definition data_img :: "medium \<Rightarrow> mem" where
  "data_img s = (\<lambda>x. md_img s (BLK_DATA_OFF + x))"

lemma rd_data_img: "rd (md_img s) (BLK_DATA_OFF + off) n = rd (data_img s) off n"
  by (rule rd_eqI) (simp add: data_img_def add.assoc)

lemma wr_data_img: "(\<lambda>x. wr m (BLK_DATA_OFF + off) bs (BLK_DATA_OFF + x)) = wr (\<lambda>x. m (BLK_DATA_OFF + x)) off bs"
  by (rule ext) (simp add: wr_def)

lemma wr_torn_data_img:
  "(\<lambda>x. wr_torn sel m (BLK_DATA_OFF + off) bs (BLK_DATA_OFF + x)) =
   wr_torn (\<lambda>w. sel (BLK_DATA_OFF div 8 + w)) (\<lambda>x. m (BLK_DATA_OFF + x)) off bs"
proof (rule ext)
  fix x
  have "(BLK_DATA_OFF + x) div 8 = BLK_DATA_OFF div 8 + x div 8" by (simp add: BLK_DATA_OFF_def)
  then show "wr_torn sel m (BLK_DATA_OFF + off) bs (BLK_DATA_OFF + x) =
      wr_torn (\<lambda>w. sel (BLK_DATA_OFF div 8 + w)) (\<lambda>x. m (BLK_DATA_OFF + x)) off bs x"
    by (simp add: wr_torn_def)
qed

lemma in_data_area:
  assumes "unat off + n \<le> unat (datasize :: u64)"
  shows "\<not> off + of_nat n > datasize" "unat (off + of_nat n) = unat off + n"
proof -
  have lt: "unat off + n < 2 ^ 64" using assms by (rule le_less_trans) simp
  then have n: "unat (of_nat n :: u64) = n" by (intro unat_of_nat_small) simp
  with lt show "unat (off + of_nat n) = unat off + n" by (subst unat_add_small) simp_all
  with assms show "\<not> off + of_nat n > datasize" by (simp add: word_less_nat_alt)
qed

interpretation blk: crash_namespace "ns_cb datasize zeroed" data_img powered "unat datasize"
  for datasize :: u64 and zeroed :: bool
proof (unfold_locales, goal_cases)
  case 1
  show ?case by simp
next
  case (2 s off n lane)
  then show ?case by (simp add: ns_cb_def blk_nsread_def in_data_area load_powered rd_data_img)
next
  case (3 s lane n off)
  then show ?case by (simp add: ns_cb_def blk_nsread_def load_def)
next
  case (4 s lane bs off)
  then show ?case by (simp add: ns_cb_def blk_nswrite_def persist_dead)
next
  case (5 s off bs lane)
  have eq: "nswrite (ns_cb datasize zeroed) s lane bs off = persist s (BLK_DATA_OFF + unat off) bs"
    using in_data_area(1) [OF 5(2)] 5(2) by (simp add: ns_cb_def blk_nswrite_def)
  show ?case
  proof (cases rule: persist_cases [OF 5(1), of "BLK_DATA_OFF + unat off" bs, case_names ok torn])
    case (ok s')
    have "data_img s' = wr (data_img s) (unat off) bs" by (simp add: data_img_def ok(3) wr_data_img)
    with ok(1,2) eq show ?thesis by auto
  next
    case (torn s')
    have "data_img s' = wr_torn (\<lambda>w. md_torn s 0 (BLK_DATA_OFF div 8 + w)) (data_img s) (unat off) bs"
      by (simp add: data_img_def torn(3) wr_torn_data_img)
    with torn(1,2) eq show ?thesis by auto
  qed
qed

interpretation blk_format: format_namespace "ns_cb datasize zeroed" data_img powered "unat datasize" steady
  for datasize :: u64 and zeroed :: bool
proof (unfold_locales, goal_cases)
  case (1 s)
  then show ?case by (rule steady_powered)
next
  case (2 s lane bs off r s')
  then show ?case
    by (auto simp: ns_cb_def blk_nswrite_def split: if_splits dest: persist_keeps_steady)
next
  case (3 s off n lane)
  have "\<not> off + of_nat (unat n) > datasize" by (rule in_data_area(1)) (use 3(2) in simp)
  with 3 show ?case
    by (auto simp: ns_cb_def blk_nszero_def persist_steady data_img_def wr_data_img)
next
  case (4 s lane n off r s')
  then show ?case
    by (auto simp: ns_cb_def blk_nszero_def split: if_splits dest: persist_keeps_steady)
qed

interpretation blk_map: mapped_namespace "ns_cb datasize zeroed" data_img powered "unat datasize"
  for datasize :: u64 and zeroed :: bool
proof (unfold_locales, goal_cases)
  case (1 s off n lane)
  then have "unat (off + of_nat n) = unat off + n" by (intro in_data_area(2) [of _ _ datasize]) simp
  with 1 show ?case
    by (simp add: ns_cb_def blk_nsmap_def load_powered rd_data_img word_le_nat_alt)
qed

text \<open>The pool header, which lies before the data area.\<close>

definition header_img :: "medium \<Rightarrow> mem" where
  "header_img s = (\<lambda>x. if x < BLK_DATA_OFF then md_img s x else 0)"

lemma persist_header: "persist s (BLK_DATA_OFF + off) bs = (r, s') \<Longrightarrow> header_img s' = header_img s"
  by (auto simp: persist_def header_img_def wr_def wr_torn_def split: option.splits if_splits)

interpretation blk_frame: framed_namespace "ns_cb datasize zeroed" header_img
  for datasize :: u64 and zeroed :: bool
proof (unfold_locales, goal_cases)
  case (1 s lane bs off r s')
  then show ?case by (auto simp: ns_cb_def blk_nswrite_def split: if_splits dest: persist_header)
next
  case (2 s lane n off r s')
  then show ?case by (auto simp: ns_cb_def blk_nszero_def split: if_splits dest: persist_header)
qed

lemma rd_header: "off + n \<le> BLK_DATA_OFF \<Longrightarrow> rd (md_img s) off n = rd (header_img s) off n"
  by (rule rd_eqI) (simp add: header_img_def)

end
