(* ===== verification/Blk_Props.thy ===== *)
theory Blk_Props
  imports Blk
begin

text \<open>
  What libpmemblk promises: a pool is a list of blocks; reads and writes are list
  operations on it; a write is atomic with respect to power failure; the calls
  reject bad arguments without touching the pool.
\<close>

section \<open>Pools in use\<close>

definition lanes_ok :: "pmemblk \<Rightarrow> bool" where
  "lanes_ok pbp \<longleftrightarrow> pb_nlane pbp \<noteq> 0 \<and> length (pb_locks pbp) = unat (pb_nlane pbp) \<and>
     pb_nlane pbp \<le> b_nfree (pb_bttp pbp) \<and> True \<notin> set (pb_locks pbp)"

text \<open>
  The pool as it is on the medium: header fields, valid info blocks, arenas in
  order.  This is what survives a power failure.
\<close>

definition pool_image :: "pmemblk \<Rightarrow> medium \<Rightarrow> bool" where
  "pool_image pbp s \<longleftrightarrow>
     (let b = pb_bttp pbp; m = data_img s
      in layout_ok (unat (pb_datasize pbp)) (unat (b_nfree b)) (unat (b_lbasize b)) m (b_arenas b) \<and>
         infos_valid (pb_poolset_uuid pbp) (b_lbasize b) (b_nfree b) m (pb_datasize pbp) 0 (b_arenas b) \<and>
         b_nfree b \<noteq> 0 \<and> b_nfree b \<le> BTT_DEFAULT_NFREE \<and>
         sum_list (ext_sizes (b_arenas b)) < 2 ^ 64 \<and>
         pb_size pbp - of_nat BLK_DATA_OFF = pb_datasize pbp \<and>
         unle32 (rd (header_img s) BLK_BSIZE_OFF 4) = b_lbasize b)"

definition pool_ready :: "pmemblk \<Rightarrow> medium \<Rightarrow> bool" where
  "pool_ready pbp s \<longleftrightarrow> powered s \<and> lanes_ok pbp \<and> pool_image pbp s \<and>
     handle_ready (unat (pb_datasize pbp)) (data_img s) (pb_bttp pbp)"

text \<open>The blocks of a pool, as a client sees them.\<close>

definition pool_blocks :: "pmemblk \<Rightarrow> medium \<Rightarrow> block list" where
  "pool_blocks pbp s = btt_disk (pb_bttp pbp) (data_img s)"

definition pool_bsize :: "pmemblk \<Rightarrow> nat" where
  "pool_bsize pbp = unat (b_lbasize (pb_bttp pbp))"

lemma length_pool_blocks: "pool_ready pbp s \<Longrightarrow> length (pool_blocks pbp s) = unat (b_nlba (pb_bttp pbp))"
  by (simp add: pool_ready_def pool_blocks_def btt_disk_def length_disk handle_ready_def)

lemma lane_enter_ok:
  assumes "lanes_ok pbp"
  obtains lane where "lane < unat (pb_nlane pbp)" "lane < unat (b_nfree (pb_bttp pbp))"
    "lane_enter pbp = (Inr lane, pbp\<lparr>pb_next_lane := pb_next_lane pbp + 1, pb_locks := (pb_locks pbp)[lane := True]\<rparr>)"
    "(pb_locks pbp)[lane := False] = pb_locks pbp"
proof -
  let ?lane = "unat (pb_next_lane pbp mod pb_nlane pbp)"
  have nz: "0 < unat (pb_nlane pbp)" using assms by (simp add: lanes_ok_def unat_gt_0)
  then have lt: "?lane < unat (pb_nlane pbp)" by (simp add: unat_mod_distrib)
  then have "\<not> pb_locks pbp ! ?lane" using assms by (metis lanes_ok_def nth_mem)
  moreover from this have "(pb_locks pbp)[?lane := False] = pb_locks pbp"
    by (metis (full_types) list_update_id)
  moreover have "?lane < unat (b_nfree (pb_bttp pbp))"
    using lt assms by (auto simp: lanes_ok_def word_le_nat_alt intro: order_less_le_trans)
  ultimately show ?thesis using assms lt by (intro that [of ?lane]) (simp_all add: lane_enter_def lanes_ok_def Let_def)
qed

lemma unat_word_of_int_u64: "0 \<le> i \<Longrightarrow> i < 2 ^ 64 \<Longrightarrow> unat (word_of_int i :: u64) = nat i"
  by (simp add: unat_eq_nat_uint uint_word_of_int_eq take_bit_int_eq_self)

lemma valid_blockno:
  assumes "0 \<le> blockno" "nat blockno < unat (b_nlba b)"
  shows "\<not> invalid_lba b (word_of_int blockno)" "unat (word_of_int blockno :: u64) = nat blockno"
proof -
  have "nat blockno < 2 ^ 64" using assms(2) by (rule less_trans) simp
  then have "blockno < 2 ^ 64" using assms(1) by simp
  with assms(1) show u: "unat (word_of_int blockno :: u64) = nat blockno" by (rule unat_word_of_int_u64)
  with assms show "\<not> invalid_lba b (word_of_int blockno)" by (simp add: invalid_lba_def word_le_nat_alt)
qed

text \<open>The pool after an operation that replaced the BTT handle and released its lane.\<close>

definition pool_after :: "pmemblk \<Rightarrow> btt \<Rightarrow> pmemblk" where
  "pool_after pbp b = pbp\<lparr>pb_next_lane := pb_next_lane pbp + 1, pb_bttp := b\<rparr>"

lemma pool_after_fields [simp]:
  "pb_bttp (pool_after pbp b) = b" "pb_datasize (pool_after pbp b) = pb_datasize pbp"
  "pb_rdonly (pool_after pbp b) = pb_rdonly pbp" "pb_is_zeroed (pool_after pbp b) = pb_is_zeroed pbp"
  by (simp_all add: pool_after_def)

lemma lane_exit_after:
  assumes "(pb_locks pbp)[lane := False] = pb_locks pbp"
  shows "lane_exit (pbp\<lparr>pb_next_lane := n, pb_locks := (pb_locks pbp)[lane := True], pb_bttp := b\<rparr>) lane
    = pbp\<lparr>pb_next_lane := n, pb_bttp := b\<rparr>"
  using assms by (simp add: lane_exit_def)

lemma lanes_ok_after: "lanes_ok pbp \<Longrightarrow> same_handle (pb_bttp pbp) b \<Longrightarrow> lanes_ok (pool_after pbp b)"
  by (simp add: lanes_ok_def pool_after_def same_handle_def)

text \<open>Run the lane protocol around a BTT operation.\<close>

lemma blk_in_lane_ok:
  assumes "lanes_ok pbp" "\<not> pb_rdonly pbp" "0 \<le> blockno"
  obtains lane where "lane < unat (b_nfree (pb_bttp pbp))"
    "\<And>oper. blk_in_lane pbp blockno oper s =
      (case oper (pb_bttp pbp) lane (word_of_int blockno) s of (r, b, s1) \<Rightarrow> (r, pool_after pbp b, s1))"
proof -
  obtain lane where l: "lane < unat (b_nfree (pb_bttp pbp))"
    "lane_enter pbp = (Inr lane, pbp\<lparr>pb_next_lane := pb_next_lane pbp + 1, pb_locks := (pb_locks pbp)[lane := True]\<rparr>)"
    "(pb_locks pbp)[lane := False] = pb_locks pbp"
    using lane_enter_ok [OF assms(1)] by metis
  show ?thesis
    by (rule that [OF l(1)]) (use assms(2,3) l(2) lane_exit_after [OF l(3)] in
        \<open>simp add: blk_in_lane_def pool_after_def split: prod.split\<close>)
qed

text \<open>Changes inside the arenas keep the image of a pool.\<close>

lemma pool_image_step:
  assumes "pool_image pbp s" "media_ready (data_img s') (pb_bttp pbp)"
    and "\<forall>x. outside_arenas (pb_bttp pbp) x \<longrightarrow> data_img s' x = data_img s x" "header_img s' = header_img s"
  shows "pool_image pbp s'"
proof -
  let ?b = "pb_bttp pbp"
  have lay: "layout_ok (unat (pb_datasize pbp)) (unat (b_nfree ?b)) (unat (b_lbasize ?b)) (data_img s) (b_arenas ?b)"
    using assms(1) by (simp add: pool_image_def Let_def)
  have out: "\<forall>x. (\<forall>a \<in> set (b_arenas ?b). outside_arena a (unat (b_nfree ?b)) x) \<longrightarrow> data_img s' x = data_img s x"
    using assms(3) by (simp add: outside_arenas_def)
  show ?thesis
    using assms(1,4) layout_step [OF lay _ out] infos_valid_frame [OF lay _ out] assms(2)
    by (simp add: pool_image_def Let_def media_ready_def)
qed

lemma pool_image_after:
  assumes "pool_image pbp s" "same_handle (pb_bttp pbp) b"
  shows "pool_image (pool_after pbp b) s"
proof -
  have gm: "map geom_of (b_arenas b) = map geom_of (b_arenas (pb_bttp pbp))"
    using assms(2) by (simp add: same_handle_def)
  show ?thesis
    using assms unfolding pool_image_def Let_def same_handle_def
    by (simp add: pool_after_def infos_valid_geom [OF gm] layout_ok_geom [OF gm] disk_geom(2) [OF gm])
qed

lemma pool_ready_after:
  assumes "pool_ready pbp s" "same_handle (pb_bttp pbp) b" "powered s'" "header_img s' = header_img s"
    and ready: "handle_ready (unat (pb_datasize pbp)) (data_img s') b"
    and out: "\<forall>x. outside_arenas (pb_bttp pbp) x \<longrightarrow> data_img s' x = data_img s x"
  shows "pool_ready (pool_after pbp b) s'"
proof -
  have "media_ready (data_img s') (pb_bttp pbp)"
    using ready assms(2) by (rule handle_ready_media)
  then have "pool_image pbp s'" using assms(1,4) out by (intro pool_image_step [of pbp s s']) (auto simp: pool_ready_def)
  then have "pool_image (pool_after pbp b) s'" by (rule pool_image_after [OF _ assms(2)])
  then show ?thesis using assms lanes_ok_after [OF _ assms(2)] by (simp add: pool_ready_def)
qed

text \<open>
  A write under any power schedule: it completes with the power on, or power is
  lost and the medium holds the old blocks or the new ones.
\<close>

lemma pmemblk_write_cases:
  assumes ready: "pool_ready pbp s" and rw: "\<not> pb_rdonly pbp"
    and no: "0 \<le> blockno" "nat blockno < length (pool_blocks pbp s)" and buf: "length buf = pool_bsize pbp"
  obtains (ok) pbp' s' where "pmemblk_write gen pbp buf blockno s = (Inr (), pbp', s')" "pool_ready pbp' s'"
      "pool_blocks pbp' s' = (pool_blocks pbp s)[nat blockno := DataBlock buf]"
      "pbp' = pool_after pbp (pb_bttp pbp')" "same_handle (pb_bttp pbp) (pb_bttp pbp')"
    | (torn) e pbp' s' where "pmemblk_write gen pbp buf blockno s = (Inl e, pbp', s')" "\<not> powered s'"
      "pool_image pbp s'"
      "pool_blocks pbp s' \<in> {pool_blocks pbp s, (pool_blocks pbp s)[nat blockno := DataBlock buf]}"
proof -
  let ?b = "pb_bttp pbp" and ?cb = "ns_cb (pb_datasize pbp) (pb_is_zeroed pbp)"
  have r: "powered s" "handle_ready (unat (pb_datasize pbp)) (data_img s) ?b" "lanes_ok pbp" "pool_image pbp s"
    using ready by (simp_all add: pool_ready_def)
  have lba: "\<not> invalid_lba ?b (word_of_int blockno)" "unat (word_of_int blockno :: u64) = nat blockno"
    using valid_blockno [OF no(1)] no(2) length_pool_blocks [OF ready] by auto
  obtain lane where lane: "lane < unat (b_nfree ?b)" and
    run: "\<And>oper. blk_in_lane pbp blockno oper s =
      (case oper ?b lane (word_of_int blockno) s of (r, b, s1) \<Rightarrow> (r, pool_after pbp b, s1))"
    using blk_in_lane_ok [OF r(3) rw no(1)] by metis
  have step: "pmemblk_write gen pbp buf blockno s =
      (case btt_write ?cb gen ?b lane (word_of_int blockno) buf s of (r, b, s1) \<Rightarrow> (r, pool_after pbp b, s1))"
    by (simp add: pmemblk_write_def run pool_cb_def)
  show ?thesis
  proof (cases rule: blk.btt_write_cases [where zeroed = "pb_is_zeroed pbp" and gen = gen,
        OF r(1,2) lba(1) lane buf [unfolded pool_bsize_def], case_names ok torn])
    case (ok b' s')
    have "pool_ready (pool_after pbp b') s'"
      by (rule pool_ready_after [OF ready ok(4,2) blk_frame.btt_write_rest [OF ok(1)] ok(3,6)])
    then show ?thesis
      using ok lba(2) by (intro that(1) [of "pool_after pbp b'" s']) (simp_all add: step pool_blocks_def)
  next
    case (torn e b' s')
    have "pool_image pbp s'"
      by (rule pool_image_step [OF r(4) torn(3,4) blk_frame.btt_write_rest [OF torn(1)]])
    then show ?thesis
      using torn lba(2) by (intro that(2) [of e "pool_after pbp b'" s']) (simp_all add: step pool_blocks_def)
  qed
qed

lemma pmemblk_setf_cases:
  fixes gen :: "err + byte list"
  assumes ready: "pool_ready pbp s" and rw: "\<not> pb_rdonly pbp"
    and no: "0 \<le> blockno" "nat blockno < length (pool_blocks pbp s)"
    and setf: "setf \<in> {BTT_MAP_ENTRY_ZERO, BTT_MAP_ENTRY_ERROR}"
  defines "run \<equiv> blk_in_lane pbp blockno (\<lambda>b lane lba. map_entry_setf (pool_cb pbp) gen b lane lba setf) s"
    and "new \<equiv> (pool_blocks pbp s)[nat blockno := setf_block (pool_bsize pbp) setf]"
  obtains (ok) pbp' s' where "run = (Inr (), pbp', s')" "pool_ready pbp' s'" "pool_blocks pbp' s' = new"
      "pbp' = pool_after pbp (pb_bttp pbp')" "same_handle (pb_bttp pbp) (pb_bttp pbp')"
    | (torn) e pbp' s' where "run = (Inl e, pbp', s')" "\<not> powered s'" "pool_image pbp s'"
      "pool_blocks pbp s' \<in> {pool_blocks pbp s, new}"
proof -
  let ?b = "pb_bttp pbp"
  have r: "powered s" "handle_ready (unat (pb_datasize pbp)) (data_img s) ?b" "lanes_ok pbp" "pool_image pbp s"
    using ready by (simp_all add: pool_ready_def)
  have lba: "\<not> invalid_lba ?b (word_of_int blockno)" "unat (word_of_int blockno :: u64) = nat blockno"
    using valid_blockno [OF no(1)] no(2) length_pool_blocks [OF ready] by auto
  obtain lane where lane: "\<And>oper. blk_in_lane pbp blockno oper s =
      (case oper ?b lane (word_of_int blockno) s of (r, b, s1) \<Rightarrow> (r, pool_after pbp b, s1))"
    using blk_in_lane_ok [OF r(3) rw no(1)] by metis
  note step = run_def lane pool_cb_def
  show ?thesis
  proof (cases rule: blk.map_entry_setf_cases [where zeroed = "pb_is_zeroed pbp" and gen = gen and lane = lane,
        OF r(1,2) lba(1) setf, case_names ok torn])
    case (ok b' s')
    have "pool_ready (pool_after pbp b') s'"
      by (rule pool_ready_after [OF ready ok(4,2) blk_frame.map_entry_setf_rest [OF ok(1)] ok(3,6)])
    then show ?thesis using ok lba(2)
      by (intro that(1) [of "pool_after pbp b'" s']) (simp_all add: step pool_blocks_def new_def pool_bsize_def)
  next
    case (torn e b' s')
    have "pool_image pbp s'"
      by (rule pool_image_step [OF r(4) torn(3,4) blk_frame.map_entry_setf_rest [OF torn(1)]])
    then show ?thesis using torn lba(2)
      by (intro that(2) [of e "pool_after pbp b'" s']) (simp_all add: step pool_blocks_def new_def pool_bsize_def)
  qed
qed

lemma pmemblk_read_ok:
  assumes ready: "pool_ready pbp s" and no: "0 \<le> blockno" "nat blockno < length (pool_blocks pbp s)"
  obtains pbp' where "pmemblk_read pbp blockno s = (read_result (pool_blocks pbp s ! nat blockno), pbp')"
    "pool_ready pbp' s" "pool_blocks pbp' s = pool_blocks pbp s"
proof -
  let ?b = "pb_bttp pbp"
  have r: "powered s" "handle_ready (unat (pb_datasize pbp)) (data_img s) ?b" "lanes_ok pbp"
    using ready by (simp_all add: pool_ready_def)
  have lba: "\<not> invalid_lba ?b (word_of_int blockno)" "unat (word_of_int blockno :: u64) = nat blockno"
    using valid_blockno [OF no(1)] no(2) length_pool_blocks [OF ready] by auto
  obtain lane where l: "lane_enter pbp =
      (Inr lane, pbp\<lparr>pb_next_lane := pb_next_lane pbp + 1, pb_locks := (pb_locks pbp)[lane := True]\<rparr>)"
    "(pb_locks pbp)[lane := False] = pb_locks pbp"
    using lane_enter_ok [OF r(3)] by metis
  obtain b' where b': "btt_read_seq (pool_cb pbp) ?b lane (word_of_int blockno) s =
      (read_result (btt_disk ?b (data_img s) ! nat blockno), b')"
    "handle_ready (unat (pb_datasize pbp)) (data_img s) b'" "btt_disk b' = btt_disk ?b" "same_handle ?b b'"
    using blk.btt_read_seq_disk [where zeroed = "pb_is_zeroed pbp" and lane = lane, OF r(1,2) lba(1)] lba(2)
    by (auto simp: pool_cb_def)
  have "pool_ready (pool_after pbp b') s" by (rule pool_ready_after [OF ready b'(4) r(1) refl b'(2)]) simp
  then show ?thesis
    using no(1) l(1) b' lane_exit_after [OF l(2)]
    by (intro that [of "pool_after pbp b'"])
      (simp_all add: pmemblk_read_def pool_after_def pool_blocks_def pool_cb_def)
qed

section \<open>Opening a pool\<close>

text \<open>The pool set that \<open>util_pool_open\<close> returns for a pool.\<close>

definition same_pool :: "pool_set \<Rightarrow> pmemblk \<Rightarrow> bool" where
  "same_pool ps pbp \<longleftrightarrow> ps_nreplicas ps \<le> 1 \<and> ps_repsize ps = pb_size pbp \<and>
     ps_poolset_uuid ps = pb_poolset_uuid pbp"

lemma ucast_up_down: "ucast (ucast (l :: u32) :: u64) = l"
  by (rule bit_word_eqI) (auto simp: bit_simps)

lemma blk_open_cases:
  assumes image: "pool_image pbp s" and on: "powered s" and ps: "same_pool ps pbp"
    and bsize: "bsize = 0 \<or> bsize = ucast (b_lbasize (pb_bttp pbp))"
  obtains (ok) pbp' s' where "blk_open_common bsize (Inr ps) ncpus s = (Inr pbp', s')" "pool_ready pbp' s'"
      "pool_blocks pbp' s' = pool_blocks pbp s" "pb_rdonly pbp' = ps_rdonly ps" "pool_bsize pbp' = pool_bsize pbp"
      "pb_size pbp' = pb_size pbp" "pb_poolset_uuid pbp' = pb_poolset_uuid pbp"
    | (torn) e s' where "blk_open_common bsize (Inr ps) ncpus s = (Inl e, s')" "\<not> powered s'"
      "pool_image pbp s'" "pool_blocks pbp s' = pool_blocks pbp s"
proof -
  let ?b = "pb_bttp pbp" and ?l = "b_lbasize (pb_bttp pbp)" and ?nf = "b_nfree (pb_bttp pbp)"
  let ?ds = "pb_datasize pbp" and ?uuid = "pb_poolset_uuid pbp" and ?as = "b_arenas (pb_bttp pbp)"
  define cpus where "cpus = (if ncpus < 1 then 1 else ncpus)"
  let ?cpus = "word_of_int cpus * 2 :: u32"
  have im: "layout_ok (unat ?ds) (unat ?nf) (unat ?l) (data_img s) ?as" "infos_valid ?uuid ?l ?nf (data_img s) ?ds 0 ?as"
    "?nf \<noteq> 0" "?nf \<le> BTT_DEFAULT_NFREE" "sum_list (ext_sizes ?as) < 2 ^ 64"
    "pb_size pbp - of_nat BLK_DATA_OFF = ?ds" "unle32 (rd (header_img s) BLK_BSIZE_OFF 4) = ?l"
    using image by (simp_all add: pool_image_def Let_def)
  define zeroed where "zeroed = (unle32 (rd (md_img s) BLK_ZEROED_OFF 4) \<noteq> 0)"
  have "rd (md_img s) BLK_BSIZE_OFF 4 = rd (header_img s) BLK_BSIZE_OFF 4"
    by (rule rd_header) (simp add: BLK_BSIZE_OFF_def BLK_DATA_OFF_def)
  then have chk: "blk_descr_check s bsize = Inr (ucast ?l)"
    using bsize on im(7) by (auto simp: blk_descr_check_def load_powered)
  define pbp1 where "pbp1 = (blk_handle ps no_btt)\<lparr>pb_rdonly := ps_rdonly ps, pb_is_zeroed := zeroed, pb_datasize := ?ds\<rparr>"
  have sz: "ps_repsize ps - of_nat BLK_DATA_OFF = ?ds" using ps im(6) by (simp add: same_pool_def)
  have step: "blk_open_common bsize (Inr ps) ncpus s =
      (case btt_init (ns_cb ?ds zeroed) ?ds ?l ?uuid ?cpus s of (Inl e, s1) \<Rightarrow> (Inl e, s1)
       | (Inr b, s1) \<Rightarrow> (Inr (pbp1\<lparr>pb_bttp := b, pb_nlane := btt_nlane b, pb_next_lane := 0,
                                 pb_locks := replicate (unat (btt_nlane b)) False\<rparr>), s1))"
    using ps chk on sz
    by (simp add: blk_open_common_def blk_runtime_init_def load_powered same_pool_def blk_handle_def Let_def
        zeroed_def pbp1_def ucast_up_down del: if_split split: prod.split sum.split flip: cpus_def)
  show ?thesis
  proof (cases rule: blk.btt_init_cases [where zeroed = zeroed and maxlane = ?cpus, OF on im(1-5), case_names ok torn])
    case (ok b s')
    let ?p = "pbp1\<lparr>pb_bttp := b, pb_nlane := btt_nlane b, pb_next_lane := 0,
      pb_locks := replicate (unat (btt_nlane b)) False\<rparr>"
    have hdr: "header_img s' = header_img s" by (rule blk_frame.btt_init_rest [OF ok(1)])
    have ln: "lanes_ok ?p" using ok(5,9) im(3) by (auto simp: lanes_ok_def btt_nlane_def pbp1_def split: if_splits)
    have "layout_ok (unat ?ds) (unat ?nf) (unat ?l) (data_img s') (b_arenas b)"
      using handle_layout [OF ok(3)] ok(5,6) by simp
    moreover have "sum_list (ext_sizes (b_arenas b)) < 2 ^ 64" using im(5) by (simp add: disk_geom(2) [OF ok(10)])
    ultimately have "pool_image ?p s'"
      using ok(5,6,11) im(3,4,7) hdr ps sz by (simp add: pool_image_def Let_def pbp1_def blk_handle_def same_pool_def)
    then have "pool_ready ?p s'" using ok(2,3) ln by (simp add: pool_ready_def pbp1_def)
    then show ?thesis
      using ok(1,4,6) ps by (intro that(1) [of ?p s'])
        (simp_all add: step pool_blocks_def btt_disk_def pbp1_def blk_handle_def pool_bsize_def same_pool_def)
  next
    case (torn e s')
    have hdr: "header_img s' = header_img s" by (rule blk_frame.btt_init_rest [OF torn(1)])
    have "pool_image pbp s'" using torn(3,5) im(3-7) hdr by (simp add: pool_image_def Let_def)
    then show ?thesis using torn(1,2,4)
      by (intro that(2) [of e s']) (simp_all add: step pool_blocks_def btt_disk_def)
  qed
qed

end
