(* ===== verification/Blk_Fresh.thy ===== *)
theory Blk_Fresh
  imports Blk_Props
begin

text \<open>
  Pools that have no BTT layout yet: what \<open>pmemblk_create\<close> gives, and the first
  write, which formats the data area before it stores the block.
\<close>

section \<open>Pools without a layout\<close>

definition pool_fresh :: "pmemblk \<Rightarrow> medium \<Rightarrow> bool" where
  "pool_fresh pbp s \<longleftrightarrow>
     (let b = pb_bttp pbp
      in steady s \<and> lanes_ok pbp \<and> \<not> b_laidout b \<and> format_params b (unat (pb_datasize pbp)) \<and>
         b_rawsize b = pb_datasize pbp \<and> b_parent_uuid b = pb_poolset_uuid pbp \<and>
         b_nfree b \<le> BTT_DEFAULT_NFREE \<and> b_nlba b = ucast (a_external_nlba (format_arena b)) \<and>
         pb_size pbp - of_nat BLK_DATA_OFF = pb_datasize pbp \<and>
         unle32 (rd (header_img s) BLK_BSIZE_OFF 4) = b_lbasize b \<and>
         (pb_is_zeroed pbp \<longrightarrow> map_zeroed b (data_img s)))"

text \<open>The blocks of a formatted pool before the first write.\<close>

definition fresh_blocks :: "pmemblk \<Rightarrow> block list" where
  "fresh_blocks pbp = replicate (unat (b_nlba (pb_bttp pbp))) (DataBlock (replicate (pool_bsize pbp) 0))"

text \<open>Formatting makes a pool without a layout ready.\<close>

lemma fresh_format:
  assumes fresh: "pool_fresh pbp s" and uuid: "length uuid = 16" and lane: "lane < unat (b_nfree (pb_bttp pbp))"
  obtains b' s' where "write_layout (pool_cb pbp) (Inr uuid) (pb_bttp pbp) lane True s = (Inr (), b', s')" "steady s'"
    "pool_ready (pbp\<lparr>pb_bttp := b'\<rparr>) s'" "pool_blocks (pbp\<lparr>pb_bttp := b'\<rparr>) s' = fresh_blocks pbp"
    "b_nlba b' = b_nlba (pb_bttp pbp)" "b_lbasize b' = b_lbasize (pb_bttp pbp)" "b_nfree b' = b_nfree (pb_bttp pbp)"
proof -
  let ?b = "pb_bttp pbp" and ?n = "unat (pb_datasize pbp)"
  have f: "steady s" "lanes_ok pbp" "format_params ?b ?n" "b_rawsize ?b = pb_datasize pbp"
    "b_parent_uuid ?b = pb_poolset_uuid pbp" "b_nfree ?b \<le> BTT_DEFAULT_NFREE"
    "b_nlba ?b = ucast (a_external_nlba (format_arena ?b))" "pb_size pbp - of_nat BLK_DATA_OFF = pb_datasize pbp"
    "unle32 (rd (header_img s) BLK_BSIZE_OFF 4) = b_lbasize ?b" "pb_is_zeroed pbp \<Longrightarrow> map_zeroed ?b (data_img s)"
    using fresh by (simp_all add: pool_fresh_def Let_def)
  have z: "ns_is_zeroed (ns_cb (pb_datasize pbp) (pb_is_zeroed pbp)) \<Longrightarrow> map_zeroed ?b (data_img s)"
    using f(10) by (simp add: ns_cb_def)
  show ?thesis
  proof (rule blk_format.write_layout_ok [OF f(1,3) uuid lane z], assumption)
    fix b' s'
    assume w: "write_layout (ns_cb (pb_datasize pbp) (pb_is_zeroed pbp)) (Inr uuid) ?b lane True s = (Inr (), b', s')"
      "steady s'" "handle_ready ?n (data_img s') b'"
      "btt_disk b' (data_img s') = replicate (unat (a_external_nlba (format_arena ?b)))
        (DataBlock (replicate (unat (b_lbasize ?b)) 0))"
      "infos_valid (b_parent_uuid ?b) (b_lbasize ?b) (b_nfree ?b) (data_img s') (b_rawsize ?b) 0 (b_arenas b')"
      "map geom_of (b_arenas b') = [geom_of (format_arena ?b)]" "b_nlane b' = b_nlane ?b" "b_nfree b' = b_nfree ?b"
      "b_lbasize b' = b_lbasize ?b" "b_rawsize b' = b_rawsize ?b" "b_parent_uuid b' = b_parent_uuid ?b"
    let ?p = "pbp\<lparr>pb_bttp := b'\<rparr>"
    have hdr: "header_img s' = header_img s" by (rule blk_frame.write_layout_rest [OF w(1)])
    have "unat (b_nlba b') = length (btt_disk b' (data_img s'))"
      using w(3) by (simp add: btt_disk_def length_disk handle_ready_def)
    then have "unat (b_nlba b') = unat (b_nlba ?b)" by (simp add: w(4) f(7))
    then have n: "b_nlba b' = b_nlba ?b" by (simp add: word_unat_eq_iff)
    have sum: "sum_list (ext_sizes (b_arenas b')) < 2 ^ 64"
    proof -
      have "sum_list (ext_sizes (b_arenas b')) = sum_list (ext_sizes [format_arena ?b])"
        by (simp add: disk_geom(2) [of "b_arenas b'" "[format_arena ?b]"] w(6))
      then have "sum_list (ext_sizes (b_arenas b')) = unat (a_external_nlba (format_arena ?b))"
        by (simp add: ext_sizes_def)
      also have "\<dots> < 2 ^ 32" by (rule less_le_trans [OF unat_less(3)]) simp
      finally show ?thesis by simp
    qed
    have nz: "b_nfree ?b \<noteq> 0" using f(3) by (simp add: format_params_def)
    have "pool_image ?p s'"
      using handle_layout [OF w(3)] w(5,8-11) f(4,5,6,8,9) hdr sum nz by (simp add: pool_image_def Let_def)
    then have "pool_ready ?p s'" using w(2,3,8) f(2) by (simp add: pool_ready_def steady_powered lanes_ok_def)
    moreover have "pool_blocks ?p s' = fresh_blocks pbp"
      using w(4) by (simp add: pool_blocks_def fresh_blocks_def f(7) pool_bsize_def)
    ultimately show ?thesis using w(1,2,8,9) n by (intro that [of b' s']) (simp_all add: pool_cb_def)
  qed
qed

section \<open>The first write\<close>

lemma btt_write_formats:
  assumes "write_layout cb gen b lane True s = (Inr (), b', s')" "\<not> b_laidout b" "b_laidout b'" "b_nlba b' = b_nlba b" "\<not> invalid_lba b lba"
  shows "btt_write cb gen b lane lba buf s = btt_write cb gen b' lane lba buf s'"
  using assms by (simp add: btt_write_def ensure_layout_def invalid_lba_def)

lemma fresh_laidout: "pool_ready pbp s \<Longrightarrow> b_laidout (pb_bttp pbp)"
  by (simp add: pool_ready_def handle_ready_def)

text \<open>
  The first write to a pool without a layout is a write to the formatted pool.
\<close>

lemma fresh_write:
  assumes fresh: "pool_fresh pbp s" and rw: "\<not> pb_rdonly pbp" and uuid: "length uuid = 16"
    and no: "0 \<le> blockno" "nat blockno < unat (b_nlba (pb_bttp pbp))" and buf: "length buf = pool_bsize pbp"
  obtains pbp' s' where "pmemblk_write (Inr uuid) pbp buf blockno s = (Inr (), pbp', s')"
    "pool_ready pbp' s'" "steady s'" "pool_blocks pbp' s' = (fresh_blocks pbp)[nat blockno := DataBlock buf]"
    "pb_size pbp' = pb_size pbp" "pb_poolset_uuid pbp' = pb_poolset_uuid pbp" "pb_rdonly pbp' = pb_rdonly pbp"
    "b_lbasize (pb_bttp pbp') = b_lbasize (pb_bttp pbp)"
proof -
  let ?b = "pb_bttp pbp"
  have f: "lanes_ok pbp" "\<not> b_laidout ?b" using fresh by (simp_all add: pool_fresh_def Let_def)
  obtain lane where lane: "lane < unat (b_nfree ?b)"
    "lane_enter pbp = (Inr lane, pbp\<lparr>pb_next_lane := pb_next_lane pbp + 1, pb_locks := (pb_locks pbp)[lane := True]\<rparr>)"
    "(pb_locks pbp)[lane := False] = pb_locks pbp"
    using lane_enter_ok [OF f(1)] by metis
  obtain b1 s1 where w: "write_layout (pool_cb pbp) (Inr uuid) ?b lane True s = (Inr (), b1, s1)" "steady s1"
    "pool_ready (pbp\<lparr>pb_bttp := b1\<rparr>) s1" "pool_blocks (pbp\<lparr>pb_bttp := b1\<rparr>) s1 = fresh_blocks pbp"
    "b_nlba b1 = b_nlba ?b" "b_lbasize b1 = b_lbasize ?b" "b_nfree b1 = b_nfree ?b"
    by (rule fresh_format [OF fresh uuid lane(1)])
  let ?p = "pbp\<lparr>pb_bttp := b1\<rparr>"
  have cb: "pool_cb ?p = pool_cb pbp" by (simp add: pool_cb_def)
  have en: "lane_enter ?p = (Inr lane, ?p\<lparr>pb_next_lane := pb_next_lane pbp + 1, pb_locks := (pb_locks pbp)[lane := True]\<rparr>)"
    using lane(2) by (auto simp: lane_enter_def Let_def split: if_splits)
  have eq: "btt_write (pool_cb pbp) (Inr uuid) ?b lane (word_of_int blockno) buf s =
      btt_write (pool_cb pbp) (Inr uuid) b1 lane (word_of_int blockno) buf s1"
    by (rule btt_write_formats [OF w(1) f(2) _ w(5) valid_blockno(1) [OF no]]) (use fresh_laidout [OF w(3)] in simp)
  have run: "pmemblk_write (Inr uuid) pbp buf blockno s = pmemblk_write (Inr uuid) ?p buf blockno s1"
    using rw no(1) lane(2) en
    by (simp add: pmemblk_write_def blk_in_lane_def eq cb lane_exit_def split: prod.split)
  have len: "nat blockno < length (pool_blocks ?p s1)" using no(2) by (simp add: w(4) fresh_blocks_def)
  have bs: "length buf = pool_bsize ?p" using buf by (simp add: pool_bsize_def w(6))
  have rw': "\<not> pb_rdonly ?p" using rw by simp
  have keep: "steady s2 = steady s1" if "pmemblk_write (Inr uuid) ?p buf blockno s1 = (r, p2, s2)" for r p2 s2
  proof -
    have "\<exists>r b2. btt_write (pool_cb pbp) (Inr uuid) b1 lane (word_of_int blockno) buf s1 = (r, b2, s2)"
      using that rw no(1) en by (auto simp: pmemblk_write_def blk_in_lane_def cb split: prod.splits)
    then show ?thesis by (auto simp: pool_cb_def dest: blk_format.keep.btt_write_rest)
  qed
  show ?thesis
  proof (cases rule: pmemblk_write_cases [where gen = "Inr uuid", OF w(3) rw' no(1) len bs, case_names ok torn])
    case (ok pbp' s')
    have "pbp' = pool_after ?p (pb_bttp pbp')" by (rule ok(4))
    then obtain b2 where b2: "pbp' = pool_after ?p b2" by blast
    show ?thesis using run w(2,4,6) keep [OF ok(1)] ok(1,2,3,5)
      by (intro that [of pbp' s']) (simp_all add: b2 same_handle_def, simp_all add: pool_after_def)
  next
    case (torn e pbp' s')
    then show ?thesis using keep [OF torn(1)] w(2) steady_powered by blast
  qed
qed

text \<open>A read before the first write returns zeros and changes nothing on the medium.\<close>

lemma fresh_read:
  assumes fresh: "pool_fresh pbp s" and no: "0 \<le> blockno" "nat blockno < unat (b_nlba (pb_bttp pbp))"
  obtains pbp' where "pmemblk_read pbp blockno s = (Inr (replicate (pool_bsize pbp) 0), pbp')" "pool_fresh pbp' s"
proof -
  let ?b = "pb_bttp pbp"
  have f: "lanes_ok pbp" "\<not> b_laidout ?b" using fresh by (simp_all add: pool_fresh_def Let_def)
  obtain lane where l: "lane_enter pbp =
      (Inr lane, pbp\<lparr>pb_next_lane := pb_next_lane pbp + 1, pb_locks := (pb_locks pbp)[lane := True]\<rparr>)"
    "(pb_locks pbp)[lane := False] = pb_locks pbp"
    using lane_enter_ok [OF f(1)] by metis
  have "\<not> invalid_lba ?b (word_of_int blockno)" by (rule valid_blockno [OF no])
  then have rd: "btt_read_seq cb ?b lane (word_of_int blockno) s = (Inr (replicate (pool_bsize pbp) 0), ?b)" for cb
    using f(2) by (simp add: btt_read_seq_def btt_read_def zero_block_def pool_bsize_def)
  have "pool_fresh (pool_after pbp ?b) s"
    using fresh by (simp add: pool_fresh_def Let_def pool_after_def lanes_ok_def)
  then show ?thesis
    using no(1) l(1) rd lane_exit_after [OF l(2)]
    by (intro that [of "pool_after pbp ?b"]) (simp_all add: pmemblk_read_def pool_after_def)
qed


section \<open>Creating a pool\<close>

text \<open>The handle that \<open>btt_init\<close> builds over a namespace without a valid layout.\<close>

definition fresh_btt :: "u64 \<Rightarrow> u32 \<Rightarrow> byte list \<Rightarrow> u32 \<Rightarrow> btt" where
  "fresh_btt rawsize lbasize puuid maxlane =
     (let b = \<lparr> b_nlane = (if maxlane \<noteq> 0 \<and> BTT_DEFAULT_NFREE > maxlane then maxlane else BTT_DEFAULT_NFREE),
                b_laidout = False, b_uuid = replicate 16 0, b_parent_uuid = puuid, b_rawsize = rawsize,
                b_lbasize = lbasize, b_nfree = BTT_DEFAULT_NFREE, b_nlba = 0, b_narena = 1, b_arenas = [] \<rparr>
      in b\<lparr>b_nlba := ucast (a_external_nlba (format_arena b))\<rparr>)"

lemma format_arena_cong:
  "b_lbasize b = b_lbasize b' \<Longrightarrow> b_nfree b = b_nfree b' \<Longrightarrow> b_rawsize b = b_rawsize b' \<Longrightarrow>
   format_arena b = format_arena b'"
  by (simp add: format_arena_def)

text \<open>Without writing, \<open>write_layout\<close> only computes the number of blocks.\<close>

lemma write_layout_dry:
  assumes fp: "format_params b n"
  shows "write_layout cb gen b lane False s =
    (Inr (), b\<lparr>b_narena := 1, b_nlba := ucast (a_external_nlba (format_arena b))\<rparr>, s)"
proof -
  note p = format_paramsD [OF fp]
  let ?R = "b_rawsize b" and ?L = "internal_lbasize (b_lbasize b)" and ?b1 = "b\<lparr>b_narena := Suc 0\<rparr>"
  have params: "btt_info_set_params zero_info (b_lbasize b) ?L (b_nfree b) ?R =
      Inr (zero_info\<lparr>i_external_lbasize := b_lbasize b, i_internal_lbasize := ?L, i_nfree := b_nfree b, i_infosize := 4096,
        i_internal_nlba := of_nat (layout_nlba (unat ?R) (unat (b_nfree b)) (unat ?L)),
        i_external_nlba := of_nat (layout_nlba (unat ?R) (unat (b_nfree b)) (unat ?L) - unat (b_nfree b))\<rparr>)"
    using p(8) by (simp add: btt_info_set_params_eq(1) [OF p(1,2,9,5,6)])
  have min: "BTT_MIN_SIZE \<le> ?R" "\<not> BTT_MIN_SIZE \<le> (0 :: u64)" using fp by (simp_all add: format_params_def BTT_MIN_SIZE_def)
  have ext: "a_external_nlba (format_arena b) = of_nat (layout_nlba (unat ?R) (unat (b_nfree b)) (unat ?L) - unat (b_nfree b))"
    by (simp add: format_arena_def arena_of_info_def zero_arena_def layout_info_def btt_info_set_offs_def Let_def)
  have "write_layout_loop cb ?b1 lane False ?L ?R 0 0 s =
      write_layout_loop cb ?b1 lane False ?L 0 0 (0 + ucast (a_external_nlba (format_arena b))) s"
    using min(1) params by (subst write_layout_loop.simps) (simp add: p(12) Let_def ext)
  also have "\<dots> = (Inr (ucast (a_external_nlba (format_arena b))), s)"
    using min(2) by (subst write_layout_loop.simps) simp
  finally have "write_layout_loop cb ?b1 lane False ?L ?R 0 0 s = (Inr (ucast (a_external_nlba (format_arena b))), s)" .
  moreover have "?L \<noteq> 0" using fp by (simp add: format_params_def)
  ultimately show ?thesis by (simp add: write_layout_def Let_def p(13))
qed

lemma btt_init_fresh:
  assumes fp: "format_params (fresh_btt R l puuid maxlane) (unat R)" and on: "powered s"
    and sig: "rd (data_img s) 0 16 \<noteq> Sig"
  shows "btt_init (ns_cb R zeroed) R l puuid maxlane s = (Inr (fresh_btt R l puuid maxlane), s)"
proof -
  let ?b = "\<lparr> b_nlane = 0, b_laidout = False, b_uuid = replicate 16 0, b_parent_uuid = puuid, b_rawsize = R,
    b_lbasize = l, b_nfree = BTT_DEFAULT_NFREE, b_nlba = 0, b_narena = 0, b_arenas = [] \<rparr>"
  have fp': "format_params ?b (unat R)" using fp by (simp add: format_params_def fresh_btt_def Let_def)
  have min: "BTT_MIN_SIZE \<le> R" using fp' by (simp add: format_params_def)
  have "unat (0 :: u64) + 4096 \<le> unat R" using format_paramsD(1) [OF fp'] by simp
  then have "nsread (ns_cb R zeroed) s 0 4096 0 = Inr (rd (data_img s) 0 4096)"
    using blk.read_alive [OF on, of 0 4096 R zeroed 0] by simp
  moreover have "field (rd (data_img s) 0 4096) 0 16 = rd (data_img s) 0 16" by (simp add: field_def take_rd)
  ultimately have "read_layout_loop (ns_cb R zeroed) ?b 0 R 0 0 (- 1) 0 s = Inr None"
    using min sig by (subst read_layout_loop.simps) (simp add: read_info_def BTTINFO_SIG_LEN_def)
  then show ?thesis
    using min by (auto simp: btt_init_def read_layout_def Let_def write_layout_dry [OF fp'] fresh_btt_def
        format_arena_def)
qed


text \<open>
  The arguments with which \<open>pmemblk_create\<close> succeeds: the data area holds one arena
  with at least 512 internal blocks, and no BTT signature is left in it.
\<close>

definition maxlane_of :: "int \<Rightarrow> u32" where
  "maxlane_of ncpus = word_of_int (if ncpus < 1 then 1 else ncpus) * 2"

definition creatable :: "u64 \<Rightarrow> pool_set \<Rightarrow> int \<Rightarrow> medium \<Rightarrow> bool" where
  "creatable bsize ps ncpus s \<longleftrightarrow>
     (let R = ps_repsize ps - of_nat BLK_DATA_OFF;
          b = fresh_btt R (ucast bsize) (ps_poolset_uuid ps) (maxlane_of ncpus)
      in bsize \<noteq> 0 \<and> bsize \<le> 0xFFFFFFFF \<and> format_params b (unat R) \<and> rd (data_img s) 0 16 \<noteq> Sig \<and>
         (ps_zeroed ps \<longrightarrow> map_zeroed b (data_img s)))"

lemma pmemblk_create_fresh:
  assumes st: "steady s" and c: "creatable bsize ps ncpus s"
  obtains pbp s' where "pmemblk_create bsize (Inr ps) (Inr ()) ncpus s = (Inr pbp, s')" "pool_fresh pbp s'"
    "\<not> pb_rdonly pbp" "pool_bsize pbp = unat bsize" "data_img s' = data_img s"
    "pb_size pbp = ps_repsize ps" "pb_poolset_uuid pbp = ps_poolset_uuid ps"
    "pb_bttp pbp = fresh_btt (ps_repsize ps - of_nat BLK_DATA_OFF) (ucast bsize) (ps_poolset_uuid ps) (maxlane_of ncpus)"
proof -
  define R where "R = ps_repsize ps - of_nat BLK_DATA_OFF"
  define b where "b = fresh_btt R (ucast bsize) (ps_poolset_uuid ps) (maxlane_of ncpus)"
  have p: "bsize \<noteq> 0" "bsize \<le> 0xFFFFFFFF" "format_params b (unat R)" "rd (data_img s) 0 16 \<noteq> Sig"
    "ps_zeroed ps \<Longrightarrow> map_zeroed b (data_img s)"
    using c by (simp_all add: creatable_def Let_def R_def b_def)
  let ?z = "if ps_zeroed ps then 1 else 0 :: u32"
  define m1 where "m1 = wr (wr (md_img s) BLK_BSIZE_OFF (le32 (ucast bsize))) BLK_ZEROED_OFF (le32 ?z)"
  define s1 where "s1 = s\<lparr>md_img := m1\<rparr>"
  have st1: "steady s1" using st by (simp add: s1_def steady_def)
  have descr: "blk_descr_create s (ucast bsize) (ps_zeroed ps) = (Inr (), s1)"
  proof -
    have "steady (s\<lparr>md_img := m\<rparr>)" for m using st by (simp add: steady_def)
    then show ?thesis using st by (simp add: blk_descr_create_def persist_steady s1_def m1_def)
  qed
  have data: "data_img s1 = data_img s"
    by (rule ext) (simp add: data_img_def s1_def m1_def wr_def BLK_DATA_OFF_def BLK_BSIZE_OFF_def BLK_ZEROED_OFF_def)
  have zf: "rd (md_img s1) BLK_ZEROED_OFF 4 = le32 ?z" by (simp add: s1_def m1_def mem_simps)
  have "rd (md_img s1) BLK_BSIZE_OFF 4 = le32 (ucast bsize)"
    by (simp add: s1_def m1_def mem_simps disjoint_ranges_def BLK_BSIZE_OFF_def BLK_ZEROED_OFF_def)
  then have bf: "rd (header_img s1) BLK_BSIZE_OFF 4 = le32 (ucast bsize)"
    by (simp flip: rd_header add: BLK_BSIZE_OFF_def BLK_DATA_OFF_def)
  have init: "btt_init (ns_cb R (ps_zeroed ps)) R (ucast bsize) (ps_poolset_uuid ps) (maxlane_of ncpus) s1 = (Inr b, s1)"
    unfolding b_def by (rule btt_init_fresh) (use p(3,4) st1 data in \<open>simp_all add: b_def steady_powered\<close>)
  define pbp where "pbp = (blk_handle ps no_btt)\<lparr>pb_is_zeroed := ps_zeroed ps, pb_datasize := R, pb_bttp := b,
    pb_nlane := btt_nlane b, pb_locks := replicate (unat (btt_nlane b)) False\<rparr>"
  have z: "unle32 (rd (md_img s1) BLK_ZEROED_OFF 4) \<noteq> 0 \<longleftrightarrow> ps_zeroed ps" by (simp add: zf)
  have rt: "blk_runtime_init (blk_handle ps no_btt) bsize False ncpus s1 = (Inr pbp, s1)"
    using init st1 z
    by (simp add: blk_runtime_init_def load_powered steady_powered Let_def blk_handle_def pbp_def
        flip: R_def maxlane_of_def del: if_split)
  have run: "pmemblk_create bsize (Inr ps) (Inr ()) ncpus s = (Inr pbp, s1)"
    using p(1,2) descr rt by (simp add: pmemblk_create_def not_less)
  have lanes: "lanes_ok pbp"
    by (auto simp: lanes_ok_def pbp_def b_def fresh_btt_def btt_nlane_def Let_def BTT_DEFAULT_NFREE_def)
  have "b_nlba b = ucast (a_external_nlba (format_arena b))"
    by (simp add: b_def fresh_btt_def Let_def format_arena_def)
  then have "pool_fresh pbp s1"
    using st1 p(3,5) lanes bf data
    by (simp add: pool_fresh_def Let_def pbp_def blk_handle_def b_def fresh_btt_def R_def)
  moreover have "unat bsize \<le> unat (0xFFFFFFFF :: u64)" using p(2) by (simp only: word_le_nat_alt)
  then have "unat (ucast bsize :: u32) = unat bsize" by (simp add: unsigned_ucast_eq take_bit_nat_eq_self)
  ultimately show ?thesis
    using run data by (intro that [of pbp s1])
      (simp_all add: pbp_def blk_handle_def pool_bsize_def b_def fresh_btt_def Let_def R_def)
qed

end
