(* ===== verification/Durable.thy ===== *)
theory Durable
  imports Medium
begin

text \<open>
  The contract of a pool whose operations are atomic with respect to power failure,
  stated once for the block pools and the log pools.  A pool has a view (its blocks,
  its log), a specification that maps an operation and a view to the new view or to
  an error, and an identity that no operation changes.
\<close>

section \<open>Sequences of operations\<close>

text \<open>
  Execute operations until power is lost.  The list of results holds the operations
  that returned; the one during which power failed is not among them.
\<close>

fun run_ops ::
  "('op \<Rightarrow> 'h \<Rightarrow> medium \<Rightarrow> (err + unit) \<times> 'h \<times> medium) \<Rightarrow> 'op list \<Rightarrow> 'h \<Rightarrow> medium \<Rightarrow>
     (err + unit) list \<times> 'h \<times> medium" where
  "run_ops step [] h s = ([], h, s)"
| "run_ops step (x # xs) h s =
     (case step x h s of
        (r, h1, s1) \<Rightarrow>
          (if powered s1 then (case run_ops step xs h1 s1 of (rs, h2, s2) \<Rightarrow> (r # rs, h2, s2))
           else ([], h, s1)))"

text \<open>The same sequence on views.\<close>

fun spec_run :: "('op \<Rightarrow> 'v \<Rightarrow> err + 'v) \<Rightarrow> 'op list \<Rightarrow> 'v \<Rightarrow> (err + unit) list \<times> 'v" where
  "spec_run spec [] v = ([], v)"
| "spec_run spec (x # xs) v =
     (case spec x v of
        Inl e \<Rightarrow> (case spec_run spec xs v of (rs, w) \<Rightarrow> (Inl e # rs, w))
      | Inr v1 \<Rightarrow> (case spec_run spec xs v1 of (rs, w) \<Rightarrow> (Inr () # rs, w)))"

text \<open>
  What a run may leave behind: all operations done, or power lost after the
  operations that returned, with the interrupted one done or not.
\<close>

definition run_outcome ::
  "('op \<Rightarrow> 'v \<Rightarrow> err + 'v) \<Rightarrow> 'op list \<Rightarrow> 'v \<Rightarrow> (err + unit) list \<Rightarrow> bool \<Rightarrow> 'v \<Rightarrow> bool" where
  "run_outcome spec xs v rs on w \<longleftrightarrow>
     (if on then spec_run spec xs v = (rs, w)
      else length rs < length xs \<and> fst (spec_run spec (take (length rs) xs) v) = rs \<and>
           (w = snd (spec_run spec (take (length rs) xs) v) \<or>
            w = snd (spec_run spec (take (Suc (length rs)) xs) v)))"

lemma run_outcome_Cons:
  assumes "run_outcome spec xs v1 rs on w"
    and "spec x v = Inr v1 \<and> r = Inr () \<or> spec x v = Inl e \<and> r = Inl e \<and> v1 = v"
  shows "run_outcome spec (x # xs) v (r # rs) on w"
  using assms by (auto simp: run_outcome_def split: if_splits prod.splits)

section \<open>The interface\<close>

locale durable =
  fixes step :: "'op \<Rightarrow> 'h \<Rightarrow> medium \<Rightarrow> (err + unit) \<times> 'h \<times> medium"
    and ready :: "'h \<Rightarrow> medium \<Rightarrow> bool" and image :: "'h \<Rightarrow> medium \<Rightarrow> bool"
    and view :: "'h \<Rightarrow> medium \<Rightarrow> 'v" and ident :: "'h \<Rightarrow> 'i"
    and wf :: "'i \<Rightarrow> 'op \<Rightarrow> bool" and spec :: "'i \<Rightarrow> 'op \<Rightarrow> 'v \<Rightarrow> err + 'v"
  assumes ready_image: "ready h s \<Longrightarrow> image h s" and ready_powered: "ready h s \<Longrightarrow> powered s"
    and step_law: "ready h s \<Longrightarrow> wf (ident h) x \<Longrightarrow> step x h s = (r, h', s') \<Longrightarrow>
      (powered s' \<and> ready h' s' \<and> ident h' = ident h \<and>
        (case spec (ident h) x (view h s) of
           Inr v \<Rightarrow> r = Inr () \<and> view h' s' = v
         | Inl e \<Rightarrow> r = Inl e \<and> view h' s' = view h s)) \<or>
      (\<not> powered s' \<and> image h s' \<and>
        (view h s' = view h s \<or> spec (ident h) x (view h s) = Inr (view h s')))"
begin

text \<open>Any sequence of operations, under any power schedule, has an outcome the specification allows.\<close>

lemma run_refines:
  assumes "ready h s" "\<forall>x \<in> set xs. wf (ident h) x" "run_ops step xs h s = (rs, h', s')"
  shows "run_outcome (spec (ident h)) xs (view h s) rs (powered s') (view h' s') \<and> image h' s' \<and>
    ident h' = ident h \<and> (powered s' \<longrightarrow> ready h' s')"
  using assms
proof (induction xs arbitrary: h s rs)
  case Nil
  then show ?case by (auto simp: run_outcome_def ready_image dest: ready_powered)
next
  case (Cons x xs)
  obtain r h1 s1 where st: "step x h s = (r, h1, s1)" by (metis prod_cases3)
  note law = step_law [OF Cons.prems(1) _ st] Cons.prems(2,3)
  show ?case
  proof (cases "powered s1")
    case False
    then have "rs = []" "h' = h" "s' = s1" using Cons.prems(3) st by auto
    then show ?thesis using law False
      by (auto simp: run_outcome_def split: sum.splits)
  next
    case True
    obtain rs1 where r1: "run_ops step xs h1 s1 = (rs1, h', s')" "rs = r # rs1"
      using Cons.prems(3) st True by (auto split: prod.splits)
    have l: "ready h1 s1" "ident h1 = ident h"
      "case spec (ident h) x (view h s) of Inr v \<Rightarrow> r = Inr () \<and> view h1 s1 = v
       | Inl e \<Rightarrow> r = Inl e \<and> view h1 s1 = view h s"
      using law True by auto
    have ih: "run_outcome (spec (ident h)) xs (view h1 s1) rs1 (powered s') (view h' s') \<and> image h' s' \<and>
        ident h' = ident h \<and> (powered s' \<longrightarrow> ready h' s')"
      using Cons.IH [OF l(1) _ r1(1)] Cons.prems(2) l(2) by simp
    moreover have "run_outcome (spec (ident h)) (x # xs) (view h s) rs (powered s') (view h' s')"
      unfolding r1(2) using ih l(3)
      by (intro run_outcome_Cons [of _ _ "view h1 s1" _ _ _ _ _ _ "projl r"]) (auto split: sum.splits)
    ultimately show ?thesis by simp
  qed
qed

end

section \<open>Reopening after power failures\<close>

text \<open>
  Attempts to open the pool, each ended or not by another power failure: the number
  of persist steps until it fails and the words of the last one that survive.
\<close>

fun open_attempts ::
  "(medium \<Rightarrow> (err + 'h) \<times> medium) \<Rightarrow> (nat \<times> (nat \<Rightarrow> nat \<Rightarrow> bool)) list \<Rightarrow> medium \<Rightarrow> medium" where
  "open_attempts opn [] s = s"
| "open_attempts opn ((n, sel) # ps) s =
     open_attempts opn ps (snd (opn (s\<lparr>md_power := Some n, md_torn := sel\<rparr>)))"

definition power_on :: "medium \<Rightarrow> medium" where
  "power_on s = s\<lparr>md_power := None\<rparr>"

lemma steady_power_on [simp]: "steady (power_on s)"
  by (simp add: steady_def power_on_def)

lemma outcome_lost:
  "\<not> powered s1 \<Longrightarrow> run_outcome spec xs v rs (powered s1) w \<Longrightarrow>
   \<exists>k \<le> Suc (length rs). length rs \<le> k \<and> k \<le> length xs \<and> w = snd (spec_run spec (take k xs) v) \<and>
     rs = fst (spec_run spec (take (length rs) xs) v)"
  by (auto simp: run_outcome_def intro: exI [of _ "length rs"] exI [of _ "Suc (length rs)"])

lemma outcome_done:
  assumes "powered s1" "run_outcome spec xs v rs (powered s1) w"
  shows "\<exists>k \<le> Suc (length rs). length rs \<le> k \<and> k \<le> length xs \<and> w = snd (spec_run spec (take k xs) v) \<and>
     rs = fst (spec_run spec (take (length rs) xs) v)"
proof -
  have len: "length (fst (spec_run spec xs v)) = length xs"
    by (induction xs arbitrary: v) (simp_all split: sum.split prod.split, metis fst_conv)
  have "length rs = length xs" using assms len by (simp add: run_outcome_def)
  with assms show ?thesis by (intro exI [of _ "length rs"]) (simp add: run_outcome_def)
qed

locale recoverable = durable step ready image view ident wf spec
  for step :: "'op \<Rightarrow> 'h \<Rightarrow> medium \<Rightarrow> (err + unit) \<times> 'h \<times> medium"
    and ready :: "'h \<Rightarrow> medium \<Rightarrow> bool" and image :: "'h \<Rightarrow> medium \<Rightarrow> bool"
    and view :: "'h \<Rightarrow> medium \<Rightarrow> 'v" and ident :: "'h \<Rightarrow> 'i"
    and wf :: "'i \<Rightarrow> 'op \<Rightarrow> bool" and spec :: "'i \<Rightarrow> 'op \<Rightarrow> 'v \<Rightarrow> err + 'v" +
  fixes opn :: "'c \<Rightarrow> medium \<Rightarrow> (err + 'h) \<times> medium" and fits :: "'c \<Rightarrow> 'i \<Rightarrow> bool"
  assumes image_power: "image h (s\<lparr>md_power := p, md_torn := sel\<rparr>) = image h s"
      "view h (s\<lparr>md_power := p, md_torn := sel\<rparr>) = view h s"
    and open_law: "image h s \<Longrightarrow> fits c (ident h) \<Longrightarrow> opn c s = (r, s') \<Longrightarrow>
      (\<exists>h'. r = Inr h' \<and> powered s' \<and> ready h' s' \<and> ident h' = ident h \<and> view h' s' = view h s) \<or>
      (\<not> powered s' \<and> image h s' \<and> view h s' = view h s)"
    and open_steady: "opn c s = (r, s') \<Longrightarrow> steady s' = steady s"
begin

lemma attempts_keep:
  assumes "image h s" "fits c (ident h)"
  shows "\<exists>h'. image h' (open_attempts (opn c) ps s) \<and> ident h' = ident h \<and>
    view h' (open_attempts (opn c) ps s) = view h s"
  using assms
proof (induction ps arbitrary: h s)
  case Nil
  then show ?case by auto
next
  case (Cons p ps)
  obtain n sel where p: "p = (n, sel)" by (cases p)
  let ?s = "s\<lparr>md_power := Some n, md_torn := sel\<rparr>"
  obtain r s1 where o: "opn c ?s = (r, s1)" by (cases "opn c ?s")
  obtain h1 where "image h1 s1" "ident h1 = ident h" "view h1 s1 = view h s"
    using open_law [OF _ Cons.prems(2) o] Cons.prems(1) by (auto simp: image_power dest: ready_image)
  then show ?case using Cons.IH [of h1 s1] Cons.prems(2) by (simp add: p o)
qed

lemma open_power_on:
  assumes "image h s" "fits c (ident h)"
  shows "\<exists>h' s'. opn c (power_on s) = (Inr h', s') \<and> ready h' s' \<and> ident h' = ident h \<and> view h' s' = view h s"
proof -
  have s: "power_on s = s\<lparr>md_power := None, md_torn := md_torn s\<rparr>" by (simp add: power_on_def)
  obtain r s' where o: "opn c (power_on s) = (r, s')" by (cases "opn c (power_on s)")
  have "image h (power_on s)" "view h (power_on s) = view h s"
    unfolding s image_power by (rule assms(1)) (rule refl)
  moreover have "powered s'" using open_steady [OF o] steady_powered by simp
  ultimately show ?thesis using open_law [OF _ assms(2) o] o by auto
qed

text \<open>
  Run operations, lose power at any point or not, fail to reopen any number of
  times, reopen: the pool holds the effect of the operations that returned, and of
  at most the one that was interrupted.
\<close>

lemma crash_recover:
  assumes "ready h s" "\<forall>x \<in> set xs. wf (ident h) x" "fits c (ident h)" "run_ops step xs h s = (rs, h1, s1)"
  shows "\<exists>k h' s'. opn c (power_on (open_attempts (opn c) ps s1)) = (Inr h', s') \<and> ready h' s' \<and>
    length rs \<le> k \<and> k \<le> Suc (length rs) \<and> k \<le> length xs \<and>
    view h' s' = snd (spec_run (spec (ident h)) (take k xs) (view h s)) \<and>
    rs = fst (spec_run (spec (ident h)) (take (length rs) xs) (view h s))"
proof -
  have run: "run_outcome (spec (ident h)) xs (view h s) rs (powered s1) (view h1 s1)" "image h1 s1" "ident h1 = ident h"
    using run_refines [OF assms(1,2,4)] by simp_all
  have fits: "fits c (ident h1)" using assms(3) run(3) by simp
  let ?s = "open_attempts (opn c) ps s1"
  obtain h2 where keep: "image h2 ?s" "ident h2 = ident h1" "view h2 ?s = view h1 s1"
    using attempts_keep [OF run(2) fits] by metis
  then obtain h' s' where "opn c (power_on ?s) = (Inr h', s')" "ready h' s'" "view h' s' = view h1 s1"
    using open_power_on [OF keep(1)] fits by metis
  then show ?thesis using outcome_lost [OF _ run(1)] outcome_done [OF _ run(1)] by metis
qed

end

end
