(* ===== verification/Blk_Spec.thy ===== *)
theory Blk_Spec
  imports Blk_Fresh Durable
begin

text \<open>
  The specification of block pools and the proof that libpmemblk refines it, with
  power failures and failed attempts to reopen the pool.
\<close>

section \<open>Operations on pools and on lists of blocks\<close>

datatype blk_op = BlkWrite int "byte list" | BlkSetZero int | BlkSetError int

text \<open>\<open>gen\<close> is what the UUID generator returns if the operation has to format the pool.\<close>

fun blk_step :: "err + byte list \<Rightarrow> blk_op \<Rightarrow> pmemblk \<Rightarrow> medium \<Rightarrow> (err + unit) \<times> pmemblk \<times> medium" where
  "blk_step gen (BlkWrite n buf) pbp s = pmemblk_write gen pbp buf n s"
| "blk_step gen (BlkSetZero n) pbp s = pmemblk_set_zero gen pbp n s"
| "blk_step gen (BlkSetError n) pbp s = pmemblk_set_error gen pbp n s"

record blk_ident =
  bi_size :: u64
  bi_uuid :: "byte list"
  bi_bsize :: u32
  bi_rdonly :: bool

definition blk_ident :: "pmemblk \<Rightarrow> blk_ident" where
  "blk_ident pbp = \<lparr> bi_size = pb_size pbp, bi_uuid = pb_poolset_uuid pbp,
     bi_bsize = b_lbasize (pb_bttp pbp), bi_rdonly = pb_rdonly pbp \<rparr>"

fun op_block :: "blk_ident \<Rightarrow> blk_op \<Rightarrow> int \<times> block" where
  "op_block i (BlkWrite n buf) = (n, DataBlock buf)"
| "op_block i (BlkSetZero n) = (n, setf_block (unat (bi_bsize i)) BTT_MAP_ENTRY_ZERO)"
| "op_block i (BlkSetError n) = (n, setf_block (unat (bi_bsize i)) BTT_MAP_ENTRY_ERROR)"

text \<open>A caller passes a block number of type long long, and a buffer of one block to write.\<close>

definition blk_wf :: "blk_ident \<Rightarrow> blk_op \<Rightarrow> bool" where
  "blk_wf i x \<longleftrightarrow> - (2 ^ 63) \<le> fst (op_block i x) \<and> fst (op_block i x) < 2 ^ 63 \<and>
     (case x of BlkWrite n buf \<Rightarrow> length buf = unat (bi_bsize i) | _ \<Rightarrow> True)"

definition blk_spec :: "blk_ident \<Rightarrow> blk_op \<Rightarrow> block list \<Rightarrow> err + block list" where
  "blk_spec i x v =
     (case op_block i x of
        (n, blk) \<Rightarrow>
          (if bi_rdonly i then Inl EROFS
           else if n < 0 \<or> length v \<le> nat n then Inl EINVAL
           else Inr (v[nat n := blk])))"

text \<open>The arguments of \<open>blk_open_common\<close>, and when they fit a pool.\<close>

type_synonym blk_open_args = "u64 \<times> pool_set \<times> int"

definition blk_open :: "blk_open_args \<Rightarrow> medium \<Rightarrow> (err + pmemblk) \<times> medium" where
  "blk_open c s = (case c of (bsize, ps, ncpus) \<Rightarrow> blk_open_common bsize (Inr ps) ncpus s)"

definition blk_fits :: "blk_open_args \<Rightarrow> blk_ident \<Rightarrow> bool" where
  "blk_fits c i \<longleftrightarrow>
     (case c of (bsize, ps, ncpus) \<Rightarrow>
        ps_nreplicas ps \<le> 1 \<and> ps_repsize ps = bi_size i \<and> ps_poolset_uuid ps = bi_uuid i \<and>
        ps_rdonly ps = bi_rdonly i \<and> (bsize = 0 \<or> bsize = ucast (bi_bsize i)))"

section \<open>Rejected operations\<close>

text \<open>Every operation runs one BTT operation in a lane.\<close>

fun btt_op :: "err + byte list \<Rightarrow> pmemblk \<Rightarrow> blk_op \<Rightarrow> btt \<Rightarrow> nat \<Rightarrow> u64 \<Rightarrow> medium \<Rightarrow> (err + unit) \<times> btt \<times> medium" where
  "btt_op gen pbp (BlkWrite n buf) b lane lba = btt_write (pool_cb pbp) gen b lane lba buf"
| "btt_op gen pbp (BlkSetZero n) b lane lba = btt_set_zero (pool_cb pbp) gen b lane lba"
| "btt_op gen pbp (BlkSetError n) b lane lba = btt_set_error (pool_cb pbp) gen b lane lba"

lemma blk_step_lane: "blk_step gen x pbp s = blk_in_lane pbp (fst (op_block i x)) (btt_op gen pbp x) s"
  by (cases x) (simp_all add: pmemblk_write_def pmemblk_set_zero_def pmemblk_set_error_def btt_op.simps [abs_def] fun_eq_iff
      arg_cong [of _ _ "\<lambda>f. blk_in_lane pbp _ f s"])

lemma btt_op_invalid: "invalid_lba b lba \<Longrightarrow> btt_op gen pbp x b lane lba s = (Inl EINVAL, b, s)"
  by (cases x) (simp_all add: btt_write_def btt_set_zero_def btt_set_error_def map_entry_setf_def)

lemma same_handle_refl: "same_handle b b"
  by (simp add: same_handle_def)

lemma invalid_blockno:
  assumes "unat (b_nlba b) \<le> nat blockno" "blockno < 2 ^ 64" "0 \<le> blockno"
  shows "invalid_lba b (word_of_int blockno)"
  using assms by (simp add: invalid_lba_def word_le_nat_alt unat_word_of_int_u64)

lemma blk_rejected:
  assumes ready: "pool_ready pbp s" and rej: "blk_spec (blk_ident pbp) x (pool_blocks pbp s) = Inl e"
    and range: "fst (op_block (blk_ident pbp) x) < 2 ^ 63"
  obtains pbp' where "blk_step gen x pbp s = (Inl e, pbp', s)" "pool_ready pbp' s"
    "pool_blocks pbp' s = pool_blocks pbp s" "blk_ident pbp' = blk_ident pbp"
proof -
  let ?n = "fst (op_block (blk_ident pbp) x)" and ?b = "pb_bttp pbp"
  have lanes: "lanes_ok pbp" "powered s" "handle_ready (unat (pb_datasize pbp)) (data_img s) ?b"
    using ready by (simp_all add: pool_ready_def)
  consider (ro) "pb_rdonly pbp" "e = EROFS" | (neg) "\<not> pb_rdonly pbp" "?n < 0" "e = EINVAL"
    | (big) "\<not> pb_rdonly pbp" "0 \<le> ?n" "unat (b_nlba ?b) \<le> nat ?n" "e = EINVAL"
    using rej length_pool_blocks [OF ready]
    by (cases "?n < 0") (auto simp: blk_spec_def blk_ident_def split: prod.splits if_splits)
  then show ?thesis
  proof cases
    case ro
    then show ?thesis using ready by (intro that [of pbp]) (simp_all add: blk_step_lane [of _ _ _ _ "blk_ident pbp"] blk_in_lane_def)
  next
    case neg
    then show ?thesis using ready by (intro that [of pbp]) (simp_all add: blk_step_lane [of _ _ _ _ "blk_ident pbp"] blk_in_lane_def)
  next
    case big
    obtain lane where run: "\<And>oper. blk_in_lane pbp ?n oper s =
        (case oper ?b lane (word_of_int ?n) s of (r, b, s1) \<Rightarrow> (r, pool_after pbp b, s1))"
      using blk_in_lane_ok [OF lanes(1) big(1,2)] by metis
    have "invalid_lba ?b (word_of_int ?n)" using big(2,3) range by (intro invalid_blockno) auto
    then have "blk_step gen x pbp s = (Inl e, pool_after pbp ?b, s)"
      by (simp add: blk_step_lane [of _ _ _ _ "blk_ident pbp"] run btt_op_invalid big(4))
    moreover have "pool_ready (pool_after pbp ?b) s"
      by (rule pool_ready_after [OF ready same_handle_refl lanes(2) refl lanes(3)]) simp
    ultimately show ?thesis
      by (intro that [of "pool_after pbp ?b"]) (simp_all add: pool_blocks_def blk_ident_def pool_after_def)
  qed
qed

section \<open>Accepted operations\<close>

lemma blk_ident_after: "same_handle (pb_bttp pbp) b \<Longrightarrow> blk_ident (pool_after pbp b) = blk_ident pbp"
  by (simp add: blk_ident_def pool_after_def same_handle_def)

lemma blk_accepted:
  assumes ready: "pool_ready pbp s" and wf: "blk_wf (blk_ident pbp) x"
    and acc: "blk_spec (blk_ident pbp) x (pool_blocks pbp s) = Inr v"
  obtains (ok) pbp' s' where "blk_step gen x pbp s = (Inr (), pbp', s')" "pool_ready pbp' s'"
      "pool_blocks pbp' s' = v" "blk_ident pbp' = blk_ident pbp"
    | (torn) e pbp' s' where "blk_step gen x pbp s = (Inl e, pbp', s')" "\<not> powered s'"
      "pool_image pbp s'" "pool_blocks pbp s' \<in> {pool_blocks pbp s, v}"
proof -
  obtain n blk where nb: "op_block (blk_ident pbp) x = (n, blk)" by (cases "op_block (blk_ident pbp) x")
  have rw: "\<not> pb_rdonly pbp" and no: "0 \<le> n" "nat n < length (pool_blocks pbp s)"
    and v: "v = (pool_blocks pbp s)[nat n := blk]"
    using acc nb by (auto simp: blk_spec_def blk_ident_def split: if_splits)
  have bs: "unat (bi_bsize (blk_ident pbp)) = pool_bsize pbp" by (simp add: blk_ident_def pool_bsize_def)
  show ?thesis
  proof (cases x)
    case (BlkWrite n' buf)
    then have x: "n' = n" "blk = DataBlock buf" using nb by simp_all
    have buf: "length buf = pool_bsize pbp" using wf BlkWrite by (simp add: blk_wf_def bs)
    show ?thesis
    proof (cases rule: pmemblk_write_cases [where gen = gen, OF ready rw no buf, case_names ok torn])
      case (ok pbp' s')
      then show ?thesis using blk_ident_after [OF ok(5)]
        by (intro that(1) [of pbp' s']) (simp_all add: BlkWrite x v ok(4) [symmetric])
    qed (rule that(2), simp_all add: BlkWrite x v)
  next
    case (BlkSetZero n')
    then have x: "n' = n" "blk = setf_block (pool_bsize pbp) BTT_MAP_ENTRY_ZERO" using nb bs by simp_all
    show ?thesis
    proof (cases rule: pmemblk_setf_cases [where gen = gen and setf = BTT_MAP_ENTRY_ZERO, OF ready rw no, simplified,
          case_names ok torn])
      case (ok pbp' s')
      then show ?thesis using blk_ident_after [OF ok(5)]
        by (intro that(1) [of pbp' s']) (simp_all add: BlkSetZero x v pmemblk_set_zero_def btt_set_zero_def [abs_def] ok(4) [symmetric])
    qed (rule that(2), simp_all add: BlkSetZero x v pmemblk_set_zero_def btt_set_zero_def [abs_def])
  next
    case (BlkSetError n')
    then have x: "n' = n" "blk = setf_block (pool_bsize pbp) BTT_MAP_ENTRY_ERROR" using nb bs by simp_all
    show ?thesis
    proof (cases rule: pmemblk_setf_cases [where gen = gen and setf = BTT_MAP_ENTRY_ERROR, OF ready rw no, simplified,
          case_names ok torn])
      case (ok pbp' s')
      then show ?thesis using blk_ident_after [OF ok(5)]
        by (intro that(1) [of pbp' s']) (simp_all add: BlkSetError x v pmemblk_set_error_def btt_set_error_def [abs_def] ok(4) [symmetric])
    qed (rule that(2), simp_all add: BlkSetError x v pmemblk_set_error_def btt_set_error_def [abs_def])
  qed
qed

section \<open>The refinement\<close>

lemma img_power [simp]:
  "data_img (s\<lparr>md_power := p\<rparr>) = data_img s" "data_img (s\<lparr>md_torn := sel\<rparr>) = data_img s"
  "header_img (s\<lparr>md_power := p\<rparr>) = header_img s" "header_img (s\<lparr>md_torn := sel\<rparr>) = header_img s"
  by (simp_all add: data_img_def header_img_def fun_eq_iff)

lemma pool_image_power: "pool_image pbp (s\<lparr>md_power := p, md_torn := sel\<rparr>) = pool_image pbp s"
  by (simp add: pool_image_def)

lemma pool_blocks_power: "pool_blocks pbp (s\<lparr>md_power := p, md_torn := sel\<rparr>) = pool_blocks pbp s"
  by (simp add: pool_blocks_def)

lemma blk_open_dead:
  assumes "\<not> powered s" "blk_fits c i"
  shows "blk_open c s = (Inl POWERLOSS, s)"
  using assms by (auto simp: blk_open_def blk_fits_def blk_open_common_def blk_descr_check_def load_def split: prod.splits)

lemma blk_open_law:
  assumes image: "pool_image pbp s" and fits: "blk_fits c (blk_ident pbp)" and run: "blk_open c s = (r, s')"
  shows "(\<exists>pbp'. r = Inr pbp' \<and> powered s' \<and> pool_ready pbp' s' \<and> blk_ident pbp' = blk_ident pbp \<and>
      pool_blocks pbp' s' = pool_blocks pbp s) \<or>
    (\<not> powered s' \<and> pool_image pbp s' \<and> pool_blocks pbp s' = pool_blocks pbp s)"
proof (cases "powered s")
  case False
  then show ?thesis using blk_open_dead [OF _ fits] run image by auto
next
  case True
  obtain bsize ps ncpus where c: "c = (bsize, ps, ncpus)" by (cases c)
  have ps: "same_pool ps pbp" "bsize = 0 \<or> bsize = ucast (b_lbasize (pb_bttp pbp))" "ps_rdonly ps = pb_rdonly pbp"
    using fits by (simp_all add: blk_fits_def c blk_ident_def same_pool_def)
  show ?thesis
  proof (cases rule: blk_open_cases [where ncpus = ncpus, OF image True ps(1,2), case_names ok torn])
    case (ok pbp' s2)
    then have "b_lbasize (pb_bttp pbp') = b_lbasize (pb_bttp pbp)" by (simp add: pool_bsize_def word_unat_eq_iff)
    then have "blk_ident pbp' = blk_ident pbp" using ok ps(3) by (simp add: blk_ident_def)
    then show ?thesis using run ok(1-3) by (auto simp: blk_open_def c pool_ready_def)
  next
    case (torn e s2)
    then show ?thesis using run by (auto simp: blk_open_def c)
  qed
qed

lemma blk_runtime_init_steady:
  "blk_runtime_init pbp bsize rdonly ncpus s = (r, s') \<Longrightarrow> steady s' = steady s"
  by (auto simp: blk_runtime_init_def Let_def split: sum.splits prod.splits
      dest: blk_format.keep.btt_init_rest)

lemma blk_open_steady: "blk_open c s = (r, s') \<Longrightarrow> steady s' = steady s"
  by (auto simp: blk_open_def blk_open_common_def split: prod.splits sum.splits if_splits dest: blk_runtime_init_steady)

interpretation blk_pool: recoverable "blk_step gen" pool_ready pool_image pool_blocks blk_ident blk_wf blk_spec
    blk_open blk_fits
  for gen :: "err + byte list"
proof (unfold_locales, goal_cases)
  case (3 h s x r h' s')
  show ?case
  proof (cases "blk_spec (blk_ident h) x (pool_blocks h s)")
    case (Inl e)
    have "fst (op_block (blk_ident h) x) < 2 ^ 63" using 3(2) by (simp add: blk_wf_def)
    then show ?thesis
      using blk_rejected [OF 3(1) Inl, of gen] 3(3) Inl by (auto simp: pool_ready_def)
  next
    case (Inr v)
    show ?thesis
      by (rule blk_accepted [OF 3(1,2) Inr, of gen]) (use 3(3) Inr in \<open>auto simp: pool_ready_def\<close>)
  qed
qed (auto simp: pool_ready_def pool_image_power pool_blocks_power blk_open_steady dest: blk_open_law)

section \<open>Frame\<close>

lemma blk_in_lane_rest:
  assumes "\<And>b lane lba s r b' s'. oper b lane lba s = (r, b', s') \<Longrightarrow> P s' = P s" "blk_in_lane pbp n oper s = (r, pbp', s')"
  shows "P s' = P s"
  using assms(2) by (auto simp: blk_in_lane_def split: if_splits prod.splits sum.splits dest: assms(1))

lemma btt_op_header: "btt_op gen pbp x b lane lba s = (r, b', s') \<Longrightarrow> header_img s' = header_img s"
  by (cases x) (auto simp: pool_cb_def btt_set_zero_def btt_set_error_def
      dest: blk_frame.btt_write_rest blk_frame.map_entry_setf_rest)

lemma btt_op_steady: "btt_op gen pbp x b lane lba s = (r, b', s') \<Longrightarrow> steady s' = steady s"
  by (cases x) (auto simp: pool_cb_def btt_set_zero_def btt_set_error_def
      dest: blk_format.keep.btt_write_rest blk_format.keep.map_entry_setf_rest)

lemma blk_step_header: "blk_step gen x pbp s = (r, pbp', s') \<Longrightarrow> header_img s' = header_img s"
  unfolding blk_step_lane [of gen x pbp s "blk_ident pbp"] by (rule blk_in_lane_rest [OF btt_op_header])

lemma blk_step_steady: "blk_step gen x pbp s = (r, pbp', s') \<Longrightarrow> steady s' = steady s"
  unfolding blk_step_lane [of gen x pbp s "blk_ident pbp"] by (rule blk_in_lane_rest [OF btt_op_steady])

lemma blk_run_steady: "run_ops (blk_step gen) xs pbp s = (rs, pbp', s') \<Longrightarrow> steady s' = steady s"
  by (induction xs arbitrary: rs pbp s) (auto split: prod.splits if_splits dest: blk_step_steady)

end
