(* ===== verification/Blk_Theorems.thy ===== *)
theory Blk_Theorems
  imports Blk_Spec
begin

text \<open>
  The theorems about block pools, and a pool of 16 MiB of 512-byte blocks on which
  their hypotheses hold.
\<close>

section \<open>A pool\<close>

definition ex_ps :: pool_set where
  "ex_ps = \<lparr> ps_nreplicas = 1, ps_repsize = 16785408, ps_is_pmem = True, ps_is_dev_dax = False, ps_rdonly = False,
     ps_zeroed = False, ps_poolset_uuid = replicate 16 7 \<rparr>"

definition ex_blank :: medium where
  "ex_blank = \<lparr> md_img = (\<lambda>_. 0), md_power = None, md_torn = (\<lambda>_ _. False) \<rparr>"

lemma layout_nlba_ex: "layout_nlba 16777216 256 512 = 32458"
  by (simp add: layout_nlba_def rup_def)

lemma ex_creatable: "creatable 512 ex_ps 2 ex_blank"
proof -
  have ds: "ps_repsize ex_ps - of_nat BLK_DATA_OFF = 16777216" by (simp add: ex_ps_def BLK_DATA_OFF_def)
  have lbs: "internal_lbasize 512 = 512"
    by (simp add: internal_lbasize_def roundup32_def btt_const_defs)
  have "rd (data_img ex_blank) 0 16 ! 0 \<noteq> Sig ! 0" by (simp add: data_img_def ex_blank_def Sig_def)
  then have "rd (data_img ex_blank) 0 16 \<noteq> Sig" by metis
  then show ?thesis
    unfolding creatable_def ds Let_def
    by (simp add: format_params_def fresh_btt_def Let_def lbs layout_nlba_ex ex_ps_def BTT_MIN_SIZE_def BTT_MAX_ARENA_def
        BTT_DEFAULT_NFREE_def)
qed

lemma ex_blank_steady: "steady ex_blank"
  by (simp add: steady_def ex_blank_def)

definition ex_created :: "pmemblk \<times> medium" where
  "ex_created = (case pmemblk_create 512 (Inr ex_ps) (Inr ()) 2 ex_blank of (r, s) \<Rightarrow> (projr r, s))"

definition ex_written :: "pmemblk \<times> medium" where
  "ex_written = (case pmemblk_write (Inr (replicate 16 9)) (fst ex_created) (replicate 512 1) 5 (snd ex_created) of
     (r, pbp, s) \<Rightarrow> (pbp, s))"

lemma ex_created:
  "pmemblk_create 512 (Inr ex_ps) (Inr ()) 2 ex_blank = (Inr (fst ex_created), snd ex_created)"
  "pool_fresh (fst ex_created) (snd ex_created)" "\<not> pb_rdonly (fst ex_created)" "pool_bsize (fst ex_created) = 512"
  "unat (b_nlba (pb_bttp (fst ex_created))) = 32202"
  "blk_ident (fst ex_created) = \<lparr> bi_size = 16785408, bi_uuid = replicate 16 7, bi_bsize = 512, bi_rdonly = False \<rparr>"
proof -
  have ds: "ps_repsize ex_ps - of_nat BLK_DATA_OFF = 16777216" by (simp add: ex_ps_def BLK_DATA_OFF_def)
  have lbs: "internal_lbasize 512 = 512"
    by (simp add: internal_lbasize_def roundup32_def btt_const_defs)
  obtain pbp s where c: "pmemblk_create 512 (Inr ex_ps) (Inr ()) 2 ex_blank = (Inr pbp, s)" "pool_fresh pbp s"
    "\<not> pb_rdonly pbp" "pool_bsize pbp = unat (512 :: u64)"
    "pb_size pbp = ps_repsize ex_ps" "pb_poolset_uuid pbp = ps_poolset_uuid ex_ps"
    "pb_bttp pbp = fresh_btt (ps_repsize ex_ps - of_nat BLK_DATA_OFF) (ucast (512 :: u64)) (ps_poolset_uuid ex_ps) (maxlane_of 2)"
    by (rule pmemblk_create_fresh [OF ex_blank_steady ex_creatable])
  have ex: "ex_created = (pbp, s)" by (simp add: ex_created_def c(1))
  show "pmemblk_create 512 (Inr ex_ps) (Inr ()) 2 ex_blank = (Inr (fst ex_created), snd ex_created)"
    "pool_fresh (fst ex_created) (snd ex_created)" "\<not> pb_rdonly (fst ex_created)" "pool_bsize (fst ex_created) = 512"
    using c(1-4) by (simp_all add: ex)
  show "unat (b_nlba (pb_bttp (fst ex_created))) = 32202"
    by (simp add: ex c(7) ds fresh_btt_def Let_def format_arena_def arena_of_info_def zero_arena_def layout_info_def
        btt_info_set_offs_def lbs layout_nlba_ex BTT_DEFAULT_NFREE_def)
  show "blk_ident (fst ex_created) = \<lparr> bi_size = 16785408, bi_uuid = replicate 16 7, bi_bsize = 512, bi_rdonly = False \<rparr>"
    using c(3) by (simp add: ex blk_ident_def c(5-7)) (simp add: fresh_btt_def Let_def ex_ps_def)
qed

lemma ex_written:
  "pool_ready (fst ex_written) (snd ex_written)" "steady (snd ex_written)"
  "length (pool_blocks (fst ex_written) (snd ex_written)) = 32202" "\<not> pb_rdonly (fst ex_written)"
  "blk_ident (fst ex_written) = \<lparr> bi_size = 16785408, bi_uuid = replicate 16 7, bi_bsize = 512, bi_rdonly = False \<rparr>"
proof -
  let ?p = "fst ex_created" and ?s = "snd ex_created"
  obtain pbp s where w: "pmemblk_write (Inr (replicate 16 9)) ?p (replicate 512 1) 5 ?s = (Inr (), pbp, s)"
    "pool_ready pbp s" "steady s" "pool_blocks pbp s = (fresh_blocks ?p)[nat 5 := DataBlock (replicate 512 1)]"
    "pb_size pbp = pb_size ?p" "pb_poolset_uuid pbp = pb_poolset_uuid ?p" "pb_rdonly pbp = pb_rdonly ?p"
    "b_lbasize (pb_bttp pbp) = b_lbasize (pb_bttp ?p)"
    by (rule fresh_write [OF ex_created(2,3), of "replicate 16 9" 5 "replicate 512 1"]) (simp_all add: ex_created(4,5))
  have ex: "ex_written = (pbp, s)" by (simp add: ex_written_def w(1))
  have id: "blk_ident pbp = blk_ident ?p" by (simp add: blk_ident_def w(5-8))
  show "pool_ready (fst ex_written) (snd ex_written)" "steady (snd ex_written)"
    "length (pool_blocks (fst ex_written) (snd ex_written)) = 32202" "\<not> pb_rdonly (fst ex_written)"
    "blk_ident (fst ex_written) = \<lparr> bi_size = 16785408, bi_uuid = replicate 16 7, bi_bsize = 512, bi_rdonly = False \<rparr>"
    using w(2-4,7) ex_created(3) by (simp_all add: ex fresh_blocks_def ex_created(5,6) id)
qed

text \<open>The same pool with power for a limited number of stores.\<close>

lemma ready_power: "pool_ready pbp s \<Longrightarrow> p \<noteq> Some 0 \<Longrightarrow> pool_ready pbp (s\<lparr>md_power := p\<rparr>)"
  by (simp add: pool_ready_def pool_image_def powered_def)

lemma ex_open_fits: "blk_fits (512, ex_ps, 2) (blk_ident (fst ex_written))"
  by (simp add: blk_fits_def ex_written(5) ex_ps_def)

section \<open>Refinement and crash atomicity\<close>

text \<open>
  C1: crash atomicity of block pools.  Run any sequence of writes, set-zero and
  set-error operations on an open pool, under any power schedule; lose power, or not;
  let any number of attempts to reopen the pool fail by further power losses; reopen
  it.  The open succeeds, and the blocks are those of the specification after the
  operations that returned, or after one more, the interrupted one.  Torn 8-byte words
  are accounted for.
\<close>

theorem blk_crash_atomic:
  assumes "pool_ready pbp s" "\<forall>x \<in> set xs. blk_wf (blk_ident pbp) x" "blk_fits c (blk_ident pbp)"
    and "run_ops (blk_step gen) xs pbp s = (rs, pbp1, s1)"
  shows "\<exists>k pbp' s'. blk_open c (power_on (open_attempts (blk_open c) crashes s1)) = (Inr pbp', s') \<and>
    pool_ready pbp' s' \<and> length rs \<le> k \<and> k \<le> Suc (length rs) \<and> k \<le> length xs \<and>
    pool_blocks pbp' s' = snd (spec_run (blk_spec (blk_ident pbp)) (take k xs) (pool_blocks pbp s)) \<and>
    rs = fst (spec_run (blk_spec (blk_ident pbp)) (take (length rs) xs) (pool_blocks pbp s))"
  by (rule blk_pool.crash_recover [OF assms])

definition ex_ops :: "blk_op list" where
  "ex_ops = [BlkWrite 7 (replicate 512 3), BlkSetError 8, BlkSetZero 7]"

lemma ex_ops_wf: "\<forall>x \<in> set ex_ops. blk_wf (blk_ident (fst ex_written)) x"
  by (simp add: ex_ops_def blk_wf_def ex_written(5))

theorem blk_crash_atomic_witness:
  "\<exists>rs pbp1 s1. run_ops (blk_step (Inl ENOMEM)) ex_ops (fst ex_written) (snd ex_written\<lparr>md_power := Some 6\<rparr>) = (rs, pbp1, s1) \<and>
   (\<exists>k pbp' s'. blk_open (512, ex_ps, 2) (power_on (open_attempts (blk_open (512, ex_ps, 2)) [(1, \<lambda>_ _. True)] s1)) = (Inr pbp', s') \<and>
    pool_ready pbp' s' \<and> length rs \<le> k \<and> k \<le> Suc (length rs) \<and> k \<le> length ex_ops \<and>
    pool_blocks pbp' s' = snd (spec_run (blk_spec (blk_ident (fst ex_written))) (take k ex_ops)
      (pool_blocks (fst ex_written) (snd ex_written\<lparr>md_power := Some 6\<rparr>))) \<and>
    rs = fst (spec_run (blk_spec (blk_ident (fst ex_written))) (take (length rs) ex_ops)
      (pool_blocks (fst ex_written) (snd ex_written\<lparr>md_power := Some 6\<rparr>))))"
proof -
  let ?s = "snd ex_written\<lparr>md_power := Some 6\<rparr>"
  have ready: "pool_ready (fst ex_written) ?s" by (rule ready_power) (simp_all add: ex_written(1))
  obtain rs pbp1 s1 where run: "run_ops (blk_step (Inl ENOMEM)) ex_ops (fst ex_written) ?s = (rs, pbp1, s1)"
    by (metis prod_cases3)
  show ?thesis using run blk_crash_atomic [OF ready ex_ops_wf ex_open_fits run] by blast
qed

text \<open>
  C21: functional refinement.  As long as power lasts, every operation returns exactly
  what the specification on lists of blocks returns, errors included, leaves the pool
  usable, and changes exactly the blocks the specification changes.
\<close>

theorem blk_refines_spec:
  assumes "pool_ready pbp s" "steady s" "\<forall>x \<in> set xs. blk_wf (blk_ident pbp) x"
  shows "\<exists>rs pbp' s'. run_ops (blk_step gen) xs pbp s = (rs, pbp', s') \<and> pool_ready pbp' s' \<and>
    spec_run (blk_spec (blk_ident pbp)) xs (pool_blocks pbp s) = (rs, pool_blocks pbp' s')"
proof -
  obtain rs pbp' s' where run: "run_ops (blk_step gen) xs pbp s = (rs, pbp', s')" by (metis prod_cases3)
  have "powered s'" using blk_run_steady [OF run] assms(2) steady_powered by simp
  then show ?thesis using blk_pool.run_refines [OF assms(1,3) run] run by (auto simp: run_outcome_def)
qed

theorem blk_refines_spec_witness:
  "\<exists>rs pbp' s'. run_ops (blk_step (Inl ENOMEM)) ex_ops (fst ex_written) (snd ex_written) = (rs, pbp', s') \<and> pool_ready pbp' s' \<and>
    spec_run (blk_spec (blk_ident (fst ex_written))) ex_ops (pool_blocks (fst ex_written) (snd ex_written)) =
      (rs, pool_blocks pbp' s')"
  by (rule blk_refines_spec [OF ex_written(1,2) ex_ops_wf])

text \<open>
  C24: a read returns the block: its data, or the error EIO if the block is in the error
  state; the medium and the other blocks do not change.
\<close>

theorem pmemblk_read_block:
  assumes "pool_ready pbp s" "0 \<le> blockno" "nat blockno < length (pool_blocks pbp s)"
  shows "\<exists>pbp'. pmemblk_read pbp blockno s = (read_result (pool_blocks pbp s ! nat blockno), pbp') \<and>
    pool_ready pbp' s \<and> pool_blocks pbp' s = pool_blocks pbp s"
  using pmemblk_read_ok [OF assms] by metis

theorem pmemblk_read_block_witness:
  "\<exists>pbp'. pmemblk_read (fst ex_written) 5 (snd ex_written) =
      (read_result (pool_blocks (fst ex_written) (snd ex_written) ! nat 5), pbp') \<and>
    pool_ready pbp' (snd ex_written) \<and> pool_blocks pbp' (snd ex_written) = pool_blocks (fst ex_written) (snd ex_written)"
  by (rule pmemblk_read_block [OF ex_written(1)]) (simp_all add: ex_written(3))

text \<open>
  C23: creating a pool over an unformatted data area of one arena succeeds; before the first
  write all blocks read as zeros; the first write formats the area and gives a pool whose
  blocks are zeros but for the written one.  One arena means that the size of the data area
  is a multiple of 4096 between 16 MiB and 512 GiB, with room for at least 512 internal blocks.  The
  area has no BTT signature in it, and if the medium is said to be zeroed, its map area is.
  For larger pools on a medium that is not zeroed the second part fails, because the maps of
  the later arenas are not zeroed.
\<close>

theorem pmemblk_create_then_write:
  assumes "steady s" "creatable bsize ps ncpus s" "length uuid = 16"
  shows "\<exists>pbp s1. pmemblk_create bsize (Inr ps) (Inr ()) ncpus s = (Inr pbp, s1) \<and> pool_bsize pbp = unat bsize \<and>
    (\<forall>blockno. 0 \<le> blockno \<longrightarrow> nat blockno < unat (pmemblk_nblock pbp) \<longrightarrow>
      fst (pmemblk_read pbp blockno s1) = Inr (replicate (unat bsize) 0) \<and>
      (\<forall>buf. length buf = unat bsize \<longrightarrow>
        (\<exists>pbp' s2. pmemblk_write (Inr uuid) pbp buf blockno s1 = (Inr (), pbp', s2) \<and> pool_ready pbp' s2 \<and>
          pool_blocks pbp' s2 = (replicate (unat (pmemblk_nblock pbp)) (DataBlock (replicate (unat bsize) 0)))
            [nat blockno := DataBlock buf])))"
proof -
  obtain pbp s1 where c: "pmemblk_create bsize (Inr ps) (Inr ()) ncpus s = (Inr pbp, s1)" "pool_fresh pbp s1"
    "\<not> pb_rdonly pbp" "pool_bsize pbp = unat bsize"
    using pmemblk_create_fresh [OF assms(1,2)] by metis
  have "\<exists>pbp' s2. pmemblk_write (Inr uuid) pbp buf n s1 = (Inr (), pbp', s2) \<and> pool_ready pbp' s2 \<and>
      pool_blocks pbp' s2 = (fresh_blocks pbp)[nat n := DataBlock buf]"
    if "0 \<le> n" "nat n < unat (b_nlba (pb_bttp pbp))" "length buf = pool_bsize pbp" for n buf
    using fresh_write [OF c(2,3) assms(3) that] by metis
  moreover have "fst (pmemblk_read pbp n s1) = Inr (replicate (pool_bsize pbp) 0)"
    if "0 \<le> n" "nat n < unat (b_nlba (pb_bttp pbp))" for n
    using fresh_read [OF c(2) that] by (metis fst_conv)
  ultimately show ?thesis using c(1,4) by (auto simp: pmemblk_nblock_def btt_nlba_def fresh_blocks_def)
qed

theorem pmemblk_create_then_write_witness:
  "\<exists>pbp s1 pbp' s2. pmemblk_create 512 (Inr ex_ps) (Inr ()) 2 ex_blank = (Inr pbp, s1) \<and> pool_bsize pbp = 512 \<and>
    fst (pmemblk_read pbp 5 s1) = Inr (replicate 512 0) \<and>
    pmemblk_write (Inr (replicate 16 9)) pbp (replicate 512 1) 5 s1 = (Inr (), pbp', s2) \<and> pool_ready pbp' s2 \<and>
    pool_blocks pbp' s2 = (replicate (unat (pmemblk_nblock pbp)) (DataBlock (replicate 512 0)))[5 := DataBlock (replicate 512 1)]"
proof -
  have n: "nat 5 < unat (pmemblk_nblock (fst ex_created))" using ex_created(5) by (simp add: pmemblk_nblock_def btt_nlba_def)
  have u: "length (replicate 16 9 :: byte list) = 16" by simp
  from pmemblk_create_then_write [OF ex_blank_steady ex_creatable u] ex_created(1) n
  show ?thesis by (auto dest!: spec [of _ 5] spec [of _ "replicate 512 1"])
qed

text \<open>
  C25: \<open>pmemblk_check\<close> finds every pool consistent whose image is one the operations can
  leave, after a power failure too.
\<close>

theorem pmemblk_check_consistent:
  assumes "pool_image pbp s" "blk_fits (bsize, ps, ncpus) (blk_ident pbp)"
  shows "pmemblk_check bsize (Inr ps) ncpus (power_on s) = Inr True"
proof -
  obtain pbp' s' where o: "blk_open (bsize, ps, ncpus) (power_on s) = (Inr pbp', s')" "pool_ready pbp' s'"
    using blk_pool.open_power_on [OF assms] by metis
  have "btt_check (pool_cb pbp') (pb_bttp pbp') s' = Inr True"
    unfolding pool_cb_def by (rule blk_map.btt_check_ready)
      (use o(2) in \<open>simp_all add: pool_ready_def pool_image_def Let_def\<close>)
  then show ?thesis using o(1) by (simp add: pmemblk_check_def blk_open_def)
qed

theorem pmemblk_check_consistent_witness:
  "pmemblk_check 512 (Inr ex_ps) 2 (power_on (snd ex_written)) = Inr True"
  by (rule pmemblk_check_consistent [OF _ ex_open_fits]) (use ex_written(1) in \<open>simp add: pool_ready_def\<close>)

text \<open>
  C31: rejected calls.  A write to a read-only pool returns EROFS, one with a negative
  block number or one past the end EINVAL; the data area, the pool header, the block size and
  the zeroed flag are untouched and the pool stays usable.  A block number past the end is
  found out in a lane, so that the run-time counter \<open>next_lane\<close> of the handle has moved on.
\<close>

theorem blk_rejects:
  assumes "pool_ready pbp s" "blk_wf (blk_ident pbp) x" "blk_spec (blk_ident pbp) x (pool_blocks pbp s) = Inl e"
  shows "\<exists>pbp'. blk_step gen x pbp s = (Inl e, pbp', s) \<and> pool_ready pbp' s \<and> pool_blocks pbp' s = pool_blocks pbp s"
proof -
  have "fst (op_block (blk_ident pbp) x) < 2 ^ 63" using assms(2) by (simp add: blk_wf_def)
  then show ?thesis using blk_rejected [OF assms(1,3), of gen] by metis
qed

theorem blk_rejects_witness:
  "\<exists>pbp'. blk_step (Inl ENOMEM) (BlkSetError 32202) (fst ex_written) (snd ex_written) = (Inl EINVAL, pbp', snd ex_written) \<and>
    pool_ready pbp' (snd ex_written) \<and> pool_blocks pbp' (snd ex_written) = pool_blocks (fst ex_written) (snd ex_written)"
  by (rule blk_rejects [OF ex_written(1)]) (simp_all add: blk_wf_def blk_spec_def ex_written(3,5))







end
