(* ===== verification/Btt_Theorems.thy ===== *)
theory Btt_Theorems
  imports Blk
begin

text \<open>
  Theorems about single parts of the BTT: info blocks, arena layout, flog sequence
  numbers, the split of block numbers over arenas, the read tracking table, and the
  map of a second arena.
\<close>

section \<open>Info blocks\<close>

text \<open>
  C28: an info block written with its checksum is accepted by \<open>read_info\<close> and read back
  unchanged (but for the checksum it now carries).
\<close>

theorem info_block_roundtrip:
  assumes "info_wf i" "i_sig i = Sig" "i_parent_uuid i = puuid" "i_major i \<noteq> 0"
  shows "\<exists>c bs. util_checksum (btt_info_convert2le i) checksum_off True 0 = Inr (True, bs) \<and>
    read_info puuid bs = Some (i\<lparr>i_checksum := c\<rparr>)"
  using read_info_valid [OF assms] by metis

theorem info_block_roundtrip_witness:
  "\<exists>c bs. util_checksum (btt_info_convert2le (zero_info\<lparr>i_sig := Sig, i_major := 1\<rparr>)) checksum_off True 0 = Inr (True, bs) \<and>
    read_info (replicate 16 0) bs = Some (zero_info\<lparr>i_sig := Sig, i_major := 1, i_checksum := c\<rparr>)"
  using info_block_roundtrip [of "zero_info\<lparr>i_sig := Sig, i_major := 1\<rparr>" "replicate 16 0"]
  by (simp add: info_wf_def zero_info_def Sig_def)

section \<open>Arena layout\<close>

text \<open>
  C27: the layout that \<open>btt_info_set\<close> computes for an arena of 16 MiB to 512 GiB: data area,
  map, flog and the info copy follow each other without overlap and end with the arena,
  each is large enough for its entries, every external block has an internal one and
  \<open>nfree\<close> are spare; no 32-bit or 64-bit computation wraps.
\<close>

theorem btt_info_set_layout:
  assumes "BTT_MIN_SIZE \<le> arena_size" "arena_size \<le> BTT_MAX_ARENA" "unat nfree \<le> 65536"
    and "btt_info_set zero_info lbasize nfree arena_size space_left = Inr info"
  shows "unat (i_dataoff info) = 4096 \<and>
    unat (i_dataoff info) + unat (i_internal_nlba info) * unat (i_internal_lbasize info) \<le> unat (i_mapoff info) \<and>
    unat (i_mapoff info) + 4 * unat (i_external_nlba info) \<le> unat (i_flogoff info) \<and>
    unat (i_flogoff info) + 64 * unat nfree \<le> unat (i_infooff info) \<and>
    unat (i_infooff info) + 4096 = unat arena_size \<and>
    unat (i_external_nlba info) + unat nfree = unat (i_internal_nlba info) \<and>
    unat lbasize \<le> unat (i_internal_lbasize info) \<and> unat (i_internal_nlba info) < 2 ^ 30"
proof -
  let ?L = "internal_lbasize lbasize" and ?I = "layout_nlba (unat arena_size) (unat nfree) (unat (internal_lbasize lbasize))"
  have R: "2 ^ 24 \<le> unat arena_size" "unat arena_size \<le> 2 ^ 39"
    using assms(1,2) by (simp_all add: BTT_MIN_SIZE_def BTT_MAX_ARENA_def word_le_nat_alt)
  have L0: "?L \<noteq> 0" using assms(4) by (auto simp: btt_info_set_def Let_def split: if_splits)
  have L: "512 \<le> unat ?L" "unat ?L \<le> 2 ^ 32 - 256" "unat lbasize \<le> unat ?L"
    using internal_lbasize_bounds [of lbasize ?L] L0 by simp_all
  have I: "2 * unat nfree \<le> ?I" and info: "info = layout_info lbasize ?L nfree arena_size space_left"
    using assms(4) L0 unfolding btt_info_set_def Let_def btt_info_set_params_eq(1) [OF R assms(3) L(1,2)]
    by (auto simp: layout_info_def not_less split: if_splits)
  note f = layout_info_fields(1-9) [OF R assms(3) L(1,2) I, where l = lbasize and sl = space_left, folded info]
    layout_info_fields(10-11) [OF R assms(3) L(1,2) I]
  have ge: "64 * unat nfree \<le> rup (64 * unat nfree) 4096" "4 * (?I - unat nfree) \<le> rup (4 * (?I - unat nfree)) 4096"
    by (simp_all add: rup_ge)
  have fit: "4096 + ?I * unat ?L \<le> unat arena_size - 4096 - rup (64 * unat nfree) 4096 - rup (4 * (?I - unat nfree)) 4096"
    "rup (64 * unat nfree) 4096 + 4096 \<le> unat arena_size"
    "unat arena_size - 4096 - rup (64 * unat nfree) 4096 - rup (4 * (?I - unat nfree)) 4096 + 4 * (?I - unat nfree)
      \<le> unat arena_size - 4096 - rup (64 * unat nfree) 4096"
    using f(10) ge(2) R(1) by linarith+
  then show ?thesis unfolding f(1-3,6-9) using ge(1) f(11) R(1) I L(3) by (intro conjI) linarith+
qed

theorem btt_info_set_layout_witness:
  "\<exists>info. btt_info_set zero_info 512 256 16777216 0 = Inr info \<and> unat (i_dataoff info) = 4096 \<and>
    unat (i_dataoff info) + unat (i_internal_nlba info) * unat (i_internal_lbasize info) \<le> unat (i_mapoff info) \<and>
    unat (i_mapoff info) + 4 * unat (i_external_nlba info) \<le> unat (i_flogoff info) \<and>
    unat (i_flogoff info) + 64 * unat (256 :: u32) \<le> unat (i_infooff info) \<and>
    unat (i_infooff info) + 4096 = unat (16777216 :: u64) \<and>
    unat (i_external_nlba info) + unat (256 :: u32) = unat (i_internal_nlba info) \<and>
    unat (512 :: u32) \<le> unat (i_internal_lbasize info) \<and> unat (i_internal_nlba info) < 2 ^ 30"
proof -
  have "internal_lbasize 512 = 512" by (simp add: internal_lbasize_def roundup32_def btt_const_defs)
  then obtain info where "btt_info_set zero_info 512 256 16777216 0 = Inr info"
    by (simp add: btt_info_set_def btt_info_set_params_def btt_arena_datasize_def btt_flog_size_def roundup64_def
        btt_const_defs Let_def)
  moreover have "BTT_MIN_SIZE \<le> (16777216 :: u64)" "(16777216 :: u64) \<le> BTT_MAX_ARENA" "unat (256 :: u32) \<le> 65536"
    by (simp_all add: btt_const_defs)
  ultimately show ?thesis using btt_info_set_layout by blast
qed

section \<open>Flog sequence numbers\<close>

text \<open>
  C29: the three flog sequence numbers form a cycle, and of a flog pair whose older entry has
  any of them and whose newer entry has its successor, \<open>btt_flog_get_valid\<close> takes the newer
  one, in either position, and names the older slot as the next to overwrite; a zeroed slot
  never wins.  A pair is rejected if and only if its two entries have equal numbers, whatever
  else is in them.
\<close>

theorem flog_newest_wins:
  assumes "flog_seq old \<in> {1, 2, 3}" "flog_seq new = NSEQ (flog_seq old)" "flog_seq zero = 0"
  shows "flog_seq new \<in> {1, 2, 3} \<and> NSEQ (NSEQ (NSEQ (flog_seq old))) = flog_seq old \<and>
    btt_flog_get_valid old new = Some (new, 0) \<and> btt_flog_get_valid new old = Some (new, 1) \<and>
    btt_flog_get_valid old zero = Some (old, 1) \<and> btt_flog_get_valid zero old = Some (old, 0) \<and>
    (\<forall>f0 f1. btt_flog_get_valid f0 f1 = None \<longleftrightarrow> flog_seq f0 = flog_seq f1)"
proof -
  have n: "NSEQ 1 = 2" "NSEQ 2 = 3" "NSEQ 3 = 1" by (simp_all add: NSEQ_def Nseq_def)
  show ?thesis using assms n by (auto simp: btt_flog_get_valid_def)
qed

theorem flog_newest_wins_witness:
  "flog_seq (Zflog\<lparr>flog_seq := 1\<rparr>) \<in> {1, 2, 3} \<and> NSEQ (NSEQ (NSEQ (flog_seq (Zflog\<lparr>flog_seq := 3\<rparr>)))) = flog_seq (Zflog\<lparr>flog_seq := 3\<rparr>) \<and>
    btt_flog_get_valid (Zflog\<lparr>flog_seq := 3\<rparr>) (Zflog\<lparr>flog_seq := 1\<rparr>) = Some (Zflog\<lparr>flog_seq := 1\<rparr>, 0) \<and>
    btt_flog_get_valid (Zflog\<lparr>flog_seq := 1\<rparr>) (Zflog\<lparr>flog_seq := 3\<rparr>) = Some (Zflog\<lparr>flog_seq := 1\<rparr>, 1) \<and>
    btt_flog_get_valid (Zflog\<lparr>flog_seq := 3\<rparr>) Zflog = Some (Zflog\<lparr>flog_seq := 3\<rparr>, 1) \<and>
    btt_flog_get_valid Zflog (Zflog\<lparr>flog_seq := 3\<rparr>) = Some (Zflog\<lparr>flog_seq := 3\<rparr>, 0) \<and>
    btt_flog_get_valid (Zflog\<lparr>flog_seq := 3\<rparr>) (Zflog\<lparr>flog_seq := 3, flog_lba := 7\<rparr>) = None"
  using flog_newest_wins [of "Zflog\<lparr>flog_seq := 3\<rparr>" "Zflog\<lparr>flog_seq := 1\<rparr>" Zflog] by (simp add: Zflog_def NSEQ_def Nseq_def)

section \<open>Block numbers over arenas\<close>

text \<open>
  C30: every valid block number is split into an arena and a block number inside it, such
  that the blocks of the arenas before it are skipped; the split is exact, so different
  block numbers never share a block.
\<close>

theorem lba_to_arena_lba_splits:
  assumes "unat (b_nlba b) = sum_list (ext_sizes (b_arenas b))" "\<not> invalid_lba b lba"
  shows "\<exists>k p. lba_to_arena_lba b lba = Inr (k, p) \<and> k < length (b_arenas b) \<and>
    unat p < unat (a_external_nlba (b_arenas b ! k)) \<and> unat lba = sum_list (take k (ext_sizes (b_arenas b))) + unat p"
  using lba_to_arena_lba_found [OF assms] by metis

theorem lba_to_arena_lba_splits_witness:
  "\<exists>k p. lba_to_arena_lba (no_btt\<lparr>b_nlba := 7, b_arenas := [zero_arena\<lparr>a_external_nlba := 4\<rparr>, zero_arena\<lparr>a_external_nlba := 3\<rparr>]\<rparr>) 5
      = Inr (k, p) \<and> k < Suc (Suc 0) \<and>
    unat p < unat (a_external_nlba ([zero_arena\<lparr>a_external_nlba := 4\<rparr>, zero_arena\<lparr>a_external_nlba := 3\<rparr>] ! k)) \<and>
    unat (5 :: u64) = sum_list (take k [4, 3]) + unat p"
  using lba_to_arena_lba_splits [of "no_btt\<lparr>b_nlba := 7, b_arenas := [zero_arena\<lparr>a_external_nlba := 4\<rparr>, zero_arena\<lparr>a_external_nlba := 3\<rparr>]\<rparr>" 5]
  by (simp add: ext_sizes_def invalid_lba_def)

section \<open>A stale entry in the read tracking table\<close>

text \<open>
  C34: a read that has to retry, because the map entry changed between its two looks at it,
  and then finds the zero or the error state returns with the old entry still in its slot of
  the read tracking table.  When that block becomes a lane's free block, the next write in
  the lane waits for a reader that is gone: it spins as long as the slot keeps the entry,
  which only a later read in the reader's lane could change.
\<close>

theorem btt_read_leaves_stale_rtt:
  assumes "nsread cb s lane 4 map_off = Inr (le32 late)" "lane < length (a_rtt a)" "lane < unat (b_nlane b)"
    and "\<not> map_entry_is_error entry" "\<not> map_entry_is_zero_or_initial entry"
    and "map_entry_is_error late \<or> map_entry_is_zero_or_initial late"
    and "a_flags a AND BTTINFO_FLAG_ERROR_MASK = 0"
    and "(flog_old_map (rt_flog (a_flogs a ! wlane)) AND BTT_MAP_ENTRY_LBA_MASK) OR BTT_MAP_ENTRY_NORMAL = entry"
  shows "\<exists>r a'. btt_read_loop cb lbasize lane a map_off entry (s # ss) = (r, a') \<and> r \<noteq> Inl HANG \<and>
    a_rtt a' ! lane = entry \<and> btt_write_arena cb b wlane a' s2 premap_lba buf = (Inl HANG, a', s2)"
proof -
  let ?a = "set_rtt a lane entry"
  have ne: "entry \<noteq> late" using assms(4-6) by auto
  have run: "btt_read_loop cb lbasize lane a map_off entry (s # ss) =
      (if map_entry_is_error late then Inl EIO else Inr (zero_block lbasize), ?a)"
    using assms(1,4-6) ne by (subst btt_read_loop.simps, subst (1) btt_read_loop.simps) (auto simp: Let_def)
  have slot: "a_rtt ?a ! lane = entry" using assms(2) by (simp add: set_rtt_def)
  have len: "lane < length (a_rtt ?a)" using assms(2) by (simp add: set_rtt_def)
  have "entry \<in> set (take (unat (b_nlane b)) (a_rtt ?a))"
    using slot len assms(3) by (metis in_set_conv_nth length_take min_less_iff_conj nth_take)
  then have "btt_write_arena cb b wlane ?a s2 premap_lba buf = (Inl HANG, ?a, s2)"
    using assms(7,8) by (simp add: btt_write_arena_def Let_def set_rtt_def)
  with run slot show ?thesis by auto
qed

definition ex_arena :: arena where
  "ex_arena = zero_arena\<lparr>a_rtt := [BTT_MAP_ENTRY_ERROR, BTT_MAP_ENTRY_ERROR],
     a_flogs := [zero_runtime\<lparr>rt_flog := Zflog\<lparr>flog_old_map := 5\<rparr>\<rparr>]\<rparr>"

definition ex_cb :: "unit ns_callback" where
  "ex_cb = \<lparr> nsread = (\<lambda>_ _ _ _. Inr (le32 0x80000005)), nswrite = (\<lambda>s _ _ _. (Inr (), s)),
     nszero = (\<lambda>s _ _ _. (Inr (), s)), nsmap = (\<lambda>_ _ _ _. Inl EINVAL), ns_is_zeroed = False \<rparr>"

theorem btt_read_leaves_stale_rtt_witness:
  "\<exists>r a'. btt_read_loop ex_cb 512 1 ex_arena 0 0xC0000005 [()] = (r, a') \<and> r \<noteq> Inl HANG \<and>
    a_rtt a' ! 1 = 0xC0000005 \<and> btt_write_arena ex_cb (no_btt\<lparr>b_nlane := 2\<rparr>) 0 a' () 3 [] = (Inl HANG, a', ())"
proof (rule btt_read_leaves_stale_rtt [where late = "0x80000005"])
qed (simp_all add: ex_cb_def ex_arena_def zero_arena_def zero_runtime_def Zflog_def no_btt_def map_entry_is_error_def
    map_entry_is_zero_or_initial_def btt_const_defs)


section \<open>The map of a second arena\<close>

text \<open>The two copies of the info block that \<open>write_arena_layout\<close> writes last.\<close>

lemma info_copies_written:
  assumes s: "steady s" and wf: "info_wf (full_info b info)"
    and fits: "unat off + 4096 \<le> unat datasize" "unat (off + i_infooff info) + 4096 \<le> unat datasize"
  obtains c s3 s4 where "util_checksum (btt_info_convert2le (full_info b info)) checksum_off True 0 =
      Inr (True, btt_info_convert2le ((full_info b info)\<lparr>i_checksum := c\<rparr>))"
    "nswrite (ns_cb datasize False) s lane (btt_info_convert2le ((full_info b info)\<lparr>i_checksum := c\<rparr>)) off = (Inr (), s3)"
    "nswrite (ns_cb datasize False) s3 lane (btt_info_convert2le ((full_info b info)\<lparr>i_checksum := c\<rparr>)) (off + i_infooff info) = (Inr (), s4)"
    "\<And>x. unat off + 4096 \<le> x \<Longrightarrow> x < unat (off + i_infooff info) \<Longrightarrow> data_img s4 x = data_img s x"
proof -
  obtain c where c: "util_checksum (btt_info_convert2le (full_info b info)) checksum_off True 0 =
      Inr (True, btt_info_convert2le ((full_info b info)\<lparr>i_checksum := c\<rparr>))"
    by (rule read_info_valid [OF wf, of "b_parent_uuid b"]) (simp_all add: full_info_def BTTINFO_MAJOR_VERSION_def)
  let ?bs = "btt_info_convert2le ((full_info b info)\<lparr>i_checksum := c\<rparr>)" and ?cb = "ns_cb datasize False"
  have len: "length ?bs = 4096" by (rule length_info_bytes) (use wf in \<open>simp add: info_wf_def\<close>)
  have "unat off + length ?bs \<le> unat datasize" using fits(1) len by simp
  then obtain s3 where s3: "nswrite ?cb s lane ?bs off = (Inr (), s3)" "steady s3" "data_img s3 = wr (data_img s) (unat off) ?bs"
    by (rule blk_format.write_steady [OF s])
  have "unat (off + i_infooff info) + length ?bs \<le> unat datasize" using fits(2) len by simp
  then obtain s4 where s4: "nswrite ?cb s3 lane ?bs (off + i_infooff info) = (Inr (), s4)"
    "data_img s4 = wr (data_img s3) (unat (off + i_infooff info)) ?bs"
    using blk_format.write_steady [OF s3(2), of "off + i_infooff info" ?bs datasize False lane] by metis
  have "data_img s4 x = data_img s x" if "unat off + 4096 \<le> x" "x < unat (off + i_infooff info)" for x
    using that len unfolding s4(2) s3(3) by (simp add: wr_outside)
  then show ?thesis using that c s3(1) s4(1) by blast
qed

text \<open>
  C35: when \<open>write_layout\<close> formats an arena that does not start at offset 0, in a namespace
  that is not known to be zero, it zeroes the map at the arena-relative offset \<open>mapoff\<close>
  instead of \<open>arena_off + mapoff\<close>: the map of the arena keeps whatever the medium held.
\<close>

theorem write_layout_skips_second_map:
  assumes "steady s" "2 ^ 24 \<le> unat R" "unat R \<le> 2 ^ 39" "4096 dvd unat R" "4096 dvd unat off"
    and "unat R \<le> unat off" "unat off + unat R \<le> unat datasize"
    and "unat (b_nfree b) \<le> 65536" "length (b_uuid b) = 16" "length (b_parent_uuid b) = 16"
    and "btt_info_set zero_info (b_lbasize b) (b_nfree b) R space_left = Inr info"
  shows "\<exists>s'. write_arena_layout (ns_cb datasize False) b lane info off s = (Inr (), s') \<and>
    (\<forall>x. unat off + unat (i_mapoff info) \<le> x \<and> x < unat off + unat (i_flogoff info) \<longrightarrow> data_img s' x = data_img s x)"
proof -
  let ?cb = "ns_cb datasize False" and ?N = "unat (b_nfree b)" and ?l = "b_lbasize b" and ?bl = "internal_lbasize (b_lbasize b)"
  let ?I = "layout_nlba (unat R) ?N (unat ?bl)"
  let ?F = "rup (64 * ?N) 4096" and ?M = "rup (4 * (?I - ?N)) 4096"
  have L0: "?bl \<noteq> 0" using assms(11) by (auto simp: btt_info_set_def Let_def split: if_splits)
  have L: "512 \<le> unat ?bl" "unat ?bl \<le> 2 ^ 32 - 256"
    using internal_lbasize_bounds [of ?l ?bl] L0 by simp_all
  have I: "2 * ?N \<le> ?I" and info: "info = layout_info ?l ?bl (b_nfree b) R space_left"
    using assms(11) L0 unfolding btt_info_set_def Let_def btt_info_set_params_eq(1) [OF assms(2,3,8) L]
    by (auto simp: layout_info_def not_less split: if_splits)
  note f = layout_info_fields(1-9) [OF assms(2,3,8) L I, where l = ?l and sl = space_left, folded info]
    layout_info_fields(10-11) [OF assms(2,3,8) L I]
  have u: "unat (off + x) = unat off + unat x" if "unat x \<le> unat R" for x
  proof (rule unat_add_small)
    have "unat off + unat x \<le> unat datasize" using that assms(7) by simp
    then show "unat off + unat x < 2 ^ LENGTH(64)" by (rule le_less_trans) simp
  qed
  have ms: "unat (btt_map_size (i_external_nlba info)) = ?M" using f(11) by (simp add: unat_btt_map_size f(2))
  have fit: "4096 + ?M + ?F + 4096 \<le> unat R" using f(10) assms(2) by simp
  have F: "64 * ?N \<le> ?F" by (rule rup_ge) simp
  have fo: "unat (off + i_flogoff info) = unat off + (unat R - 4096 - ?F)" using f(8) by (simp add: u)
  have "unat (i_mapoff info) + ?M \<le> unat datasize" using fit assms(7) f(9) by linarith
  then obtain s1 where s1: "nszero ?cb s lane (btt_map_size (i_external_nlba info)) (i_mapoff info) = (Inr (), s1)"
    "data_img s1 = wr (data_img s) (unat (i_mapoff info)) (replicate ?M 0)"
    using blk_format.zero_steady [OF assms(1), of "i_mapoff info" "btt_map_size (i_external_nlba info)" datasize False lane]
    unfolding ms by blast
  have st1: "steady s1" using blk_format.zero_keeps [OF s1(1)] assms(1) by simp
  have "4096 dvd unat R - 4096 - ?F" using assms(4) by (intro dvd_diff_nat) simp_all
  then have "4096 dvd unat (off + i_flogoff info)" using assms(5) by (simp only: fo dvd_add)
  moreover have "(64 :: nat) dvd 4096" by simp
  ultimately have d: "64 dvd unat (off + i_flogoff info)" by (meson dvd_trans)
  have lt: "unat datasize < 2 ^ 64" by simp
  have pre: "unat (off + i_flogoff info) + 64 * ?N \<le> unat datasize" "unat (off + i_flogoff info) + 64 * ?N + 64 < 2 ^ 64"
    unfolding fo using F fit assms(7) lt by linarith+
  have nl: "?I - ?N + ?N < 2 ^ 32" using f(11) I by simp
  have E: "i_external_nlba info = of_nat (?I - ?N)" by (simp flip: f(2))
  obtain s2 where s2: "write_flogs ?cb lane ?N 0 (off + i_flogoff info) (i_external_nlba info) s1 = (Inr (), s2)" "steady s2"
    "\<And>x. x < unat (off + i_flogoff info) \<Longrightarrow> data_img s2 x = data_img s1 x"
    using blk_format.write_flogs_ok [OF st1 d pre nl, of False lane 0] by (auto simp: E)
  have wf: "info_wf (full_info b info)" unfolding info by (rule full_info_wf [OF assms(9,10)])
  have io: "unat (off + i_infooff info) = unat off + (unat R - 4096)" using f(7) by (simp add: u)
  have io': "unat off + 4096 \<le> unat datasize" "unat (off + i_infooff info) + 4096 \<le> unat datasize"
    using assms(2,7) by (simp_all add: io)
  obtain c s3 s4 where s4: "util_checksum (btt_info_convert2le (full_info b info)) checksum_off True 0 =
      Inr (True, btt_info_convert2le ((full_info b info)\<lparr>i_checksum := c\<rparr>))"
    "nswrite ?cb s2 lane (btt_info_convert2le ((full_info b info)\<lparr>i_checksum := c\<rparr>)) off = (Inr (), s3)"
    "nswrite ?cb s3 lane (btt_info_convert2le ((full_info b info)\<lparr>i_checksum := c\<rparr>)) (off + i_infooff info) = (Inr (), s4)"
    "\<And>x. unat off + 4096 \<le> x \<Longrightarrow> x < unat (off + i_infooff info) \<Longrightarrow> data_img s4 x = data_img s2 x"
    using info_copies_written [OF s2(2) wf io'] by metis
  have "write_arena_layout ?cb b lane info off s = (Inr (), s4)"
    using s1(1) s2(1) s4(1-3)
    by (simp add: write_arena_layout_def Let_def full_info_def [symmetric] ns_cb_def [of _ False, THEN arg_cong [where f = ns_is_zeroed]])
  moreover have "data_img s4 x = data_img s x"
    if "unat off + unat (i_mapoff info) \<le> x" "x < unat off + unat (i_flogoff info)" for x
  proof -
    have x: "unat off + 4096 \<le> x" "x < unat off + (unat R - 4096)" "x < unat (off + i_flogoff info)"
      "unat (i_mapoff info) + ?M \<le> x"
      using that f(8-10) fit assms(6) by (simp_all add: fo) linarith+
    have "data_img s4 x = data_img s2 x" by (rule s4(4)) (use x(1,2) io in simp_all)
    also have "\<dots> = data_img s1 x" by (rule s2(3) [OF x(3)])
    also have "\<dots> = data_img s x" unfolding s1(2) by (rule wr_outside) (use x(4) in simp)
    finally show ?thesis .
  qed
  ultimately show ?thesis by blast
qed


definition ex_dirty :: medium where
  "ex_dirty = \<lparr> md_img = (\<lambda>_. 255), md_power = None, md_torn = (\<lambda>_ _. False) \<rparr>"

definition ex_two_arenas :: btt where
  "ex_two_arenas = no_btt\<lparr>b_lbasize := 512, b_nfree := 256, b_uuid := replicate 16 1, b_parent_uuid := replicate 16 2\<rparr>"

theorem write_layout_skips_second_map_witness:
  "\<exists>info s'. btt_info_set zero_info 512 256 16777216 0 = Inr info \<and>
    write_arena_layout (ns_cb 549772591104 False) ex_two_arenas 0 info 549755813888 ex_dirty = (Inr (), s') \<and>
    data_img s' (549755813888 + unat (i_mapoff info)) = 255"
proof -
  have l: "internal_lbasize 512 = 512" by (simp add: internal_lbasize_def roundup32_def btt_const_defs)
  then obtain info where info: "btt_info_set zero_info 512 256 16777216 0 = Inr info"
    "unat (i_mapoff info) < unat (i_flogoff info)"
    by (simp add: btt_info_set_def btt_info_set_params_def btt_info_set_offs_def btt_arena_datasize_def btt_flog_size_def
        btt_map_size_def roundup64_def btt_const_defs Let_def)
  have "\<exists>s'. write_arena_layout (ns_cb 549772591104 False) ex_two_arenas 0 info 549755813888 ex_dirty = (Inr (), s') \<and>
    (\<forall>x. unat (549755813888 :: u64) + unat (i_mapoff info) \<le> x \<and> x < unat (549755813888 :: u64) + unat (i_flogoff info) \<longrightarrow>
      data_img s' x = data_img ex_dirty x)"
    by (rule write_layout_skips_second_map [where R = 16777216 and space_left = 0])
      (use info(1) in \<open>simp_all add: ex_dirty_def ex_two_arenas_def steady_def\<close>)
  then obtain s' where "write_arena_layout (ns_cb 549772591104 False) ex_two_arenas 0 info 549755813888 ex_dirty = (Inr (), s')"
    "data_img s' (549755813888 + unat (i_mapoff info)) = data_img ex_dirty (549755813888 + unat (i_mapoff info))"
    using info(2) by auto
  then show ?thesis using info(1) by (intro exI [of _ info] exI [of _ s']) (simp add: data_img_def ex_dirty_def)
qed

end
