(* ===== verification/Log.thy ===== *)
theory Log
  imports Durable
begin

text \<open>
  Log memory pools (libpmemlog/log.c, log.h).  The descriptor lies after the 4096-byte
  pool header; the log space starts at the next page and ends with the pool.  The pool
  set functions of common/set.c are inputs: \<open>log_set\<close> is what they return.  Data is
  copied with stores that wait for the drain in \<open>log_persist\<close>; the new write offset is
  stored after that.  The read-write lock is a flag: calls run one at a time, so a call
  that finds it taken would wait forever.
\<close>

section \<open>The pool\<close>

definition LOG_START_OFF :: nat where "LOG_START_OFF = 4096"
definition LOG_END_OFF :: nat where "LOG_END_OFF = 4104"
definition LOG_WRITE_OFF :: nat where "LOG_WRITE_OFF = 4112"

text \<open>\<open>roundup(sizeof (struct pmemlog), LOG_FORMAT_DATA_ALIGN)\<close>; the structure has 4176 bytes.\<close>

definition sizeof_pmemlog :: u64 where "sizeof_pmemlog = 4176"
definition LOG_FORMAT_DATA_ALIGN :: u64 where "LOG_FORMAT_DATA_ALIGN = 4096"
definition log_data_start :: u64 where "log_data_start = roundup64 sizeof_pmemlog LOG_FORMAT_DATA_ALIGN"

record pmemlog =
  pl_size :: u64
  pl_is_pmem :: bool
  pl_rdonly :: bool
  pl_is_dev_dax :: bool
  pl_locked :: bool

record log_set =
  ls_nreplicas :: nat
  ls_repsize :: u64
  ls_is_pmem :: bool
  ls_is_dev_dax :: bool
  ls_rdonly :: bool

text \<open>A field of the descriptor, in host byte order.\<close>

definition log_field :: "medium \<Rightarrow> nat \<Rightarrow> u64" where
  "log_field s off = unle64 (rd (md_img s) off 8)"

section \<open>Creating and opening\<close>

definition log_descr_create :: "medium \<Rightarrow> u64 \<Rightarrow> (err + unit) \<times> medium" where
  "log_descr_create s poolsize =
     persist s LOG_START_OFF (le64 log_data_start @ le64 poolsize @ le64 log_data_start)"

definition log_descr_check :: "medium \<Rightarrow> u64 \<Rightarrow> err + unit" where
  "log_descr_check s poolsize =
     (let start_offset = log_field s LOG_START_OFF; end_offset = log_field s LOG_END_OFF;
          write_offset = log_field s LOG_WRITE_OFF
      in if \<not> powered s then Inl POWERLOSS
         else if start_offset \<noteq> log_data_start \<or> end_offset \<noteq> poolsize \<or> start_offset > end_offset then Inl EINVAL
         else if write_offset > end_offset \<or> write_offset < start_offset then Inl EINVAL
         else Inr ())"

text \<open>The handle after \<open>log_runtime_init\<close> (the lock is allocated and initialised).\<close>

definition log_runtime_init :: "log_set \<Rightarrow> bool \<Rightarrow> pmemlog" where
  "log_runtime_init ls rdonly =
     \<lparr> pl_size = ls_repsize ls, pl_is_pmem = ls_is_pmem ls, pl_rdonly = rdonly,
       pl_is_dev_dax = ls_is_dev_dax ls, pl_locked = False \<rparr>"

text \<open>
  \<open>pmemlog_createU\<close>: \<open>lset\<close> is the result of \<open>util_pool_create\<close>, \<open>chmod\<close> the one of
  \<open>util_poolset_chmod\<close>.
\<close>

definition pmemlog_create :: "err + log_set \<Rightarrow> err + unit \<Rightarrow> medium \<Rightarrow> (err + pmemlog) \<times> medium" where
  "pmemlog_create lset chmod s =
     (case lset of
        Inl e \<Rightarrow> (Inl e, s)
      | Inr ls \<Rightarrow>
          bind_io (log_descr_create s (ls_repsize ls)) (\<lambda>_ s1.
            (case chmod of Inl e \<Rightarrow> (Inl e, s1) | Inr _ \<Rightarrow> (Inr (log_runtime_init ls False), s1))))"

text \<open>\<open>log_open_common\<close> (and \<open>pmemlog_open\<close>): \<open>lset\<close> is the result of \<open>util_pool_open\<close>.\<close>

definition log_open_common :: "err + log_set \<Rightarrow> medium \<Rightarrow> (err + pmemlog) \<times> medium" where
  "log_open_common lset s =
     (case lset of
        Inl e \<Rightarrow> (Inl e, s)
      | Inr ls \<Rightarrow>
          (if ls_nreplicas ls > 1 then (Inl ENOTSUP, s)
           else (case log_descr_check s (ls_repsize ls) of
                   Inl e \<Rightarrow> (Inl e, s)
                 | Inr _ \<Rightarrow> (Inr (log_runtime_init ls (ls_rdonly ls)), s))))"

section \<open>Operations\<close>

definition rwlock_lock :: "pmemlog \<Rightarrow> err + pmemlog" where
  "rwlock_lock plp = (if pl_locked plp then Inl HANG else Inr (plp\<lparr>pl_locked := True\<rparr>))"

definition rwlock_unlock :: "pmemlog \<Rightarrow> pmemlog" where
  "rwlock_unlock plp = plp\<lparr>pl_locked := False\<rparr>"

text \<open>Run the body of an operation under the lock; every path leaves through the unlock.\<close>

definition with_lock ::
  "pmemlog \<Rightarrow> medium \<Rightarrow> (medium \<Rightarrow> (err + unit) \<times> medium) \<Rightarrow> (err + unit) \<times> pmemlog \<times> medium" where
  "with_lock plp s body =
     (case rwlock_lock plp of
        Inl e \<Rightarrow> (Inl e, plp, s)
      | Inr plp1 \<Rightarrow> (case body s of (r, s1) \<Rightarrow> (r, rwlock_unlock plp1, s1)))"

definition pmemlog_nbyte :: "pmemlog \<Rightarrow> medium \<Rightarrow> err + u64" where
  "pmemlog_nbyte plp s =
     (case rwlock_lock plp of
        Inl e \<Rightarrow> Inl e
      | Inr _ \<Rightarrow> Inr (log_field s LOG_END_OFF - log_field s LOG_START_OFF))"

text \<open>
  \<open>log_persist\<close>: drain the data (or msync it, when the pool is not persistent
  memory), then store and persist the write offset.
\<close>

definition log_persist :: "medium \<Rightarrow> pending \<Rightarrow> u64 \<Rightarrow> (err + unit) \<times> medium" where
  "log_persist s ps new_write_offset =
     bind_io (drain s ps) (\<lambda>_ s1. persist s1 LOG_WRITE_OFF (le64 new_write_offset))"

definition pmemlog_append :: "pmemlog \<Rightarrow> byte list \<Rightarrow> medium \<Rightarrow> (err + unit) \<times> pmemlog \<times> medium" where
  "pmemlog_append plp buf s =
     (if pl_rdonly plp then (Inl EROFS, plp, s)
      else with_lock plp s (\<lambda>s.
        (let end_offset = log_field s LOG_END_OFF; write_offset = log_field s LOG_WRITE_OFF;
             count = of_nat (length buf)
         in if write_offset \<ge> end_offset then (Inl ENOSPC, s)
            else if count > end_offset - write_offset then (Inl ENOSPC, s)
            else bind_io (nodrain s [] (unat write_offset) buf) (\<lambda>ps s1.
                   log_persist s1 ps (write_offset + count)))))"

text \<open>The space \<open>pmemlog_appendv\<close> asks for: a 64-bit sum, which may wrap.\<close>

fun iov_count :: "byte list list \<Rightarrow> u64 \<Rightarrow> u64" where
  "iov_count [] count = count"
| "iov_count (buf # iov) count = iov_count iov (count + of_nat (length buf))"

fun appendv_loop :: "byte list list \<Rightarrow> u64 \<Rightarrow> pending \<Rightarrow> medium \<Rightarrow> (err + u64 \<times> pending) \<times> medium" where
  "appendv_loop [] write_offset ps s = (Inr (write_offset, ps), s)"
| "appendv_loop (buf # iov) write_offset ps s =
     bind_io (nodrain s ps (unat write_offset) buf) (\<lambda>ps1 s1.
       appendv_loop iov (write_offset + of_nat (length buf)) ps1 s1)"

text \<open>
  \<open>iovcnt\<close> is a separate argument of type int; to pass more than the array holds is
  undefined.
\<close>

definition pmemlog_appendv ::
  "pmemlog \<Rightarrow> byte list list \<Rightarrow> int \<Rightarrow> medium \<Rightarrow> (err + unit) \<times> pmemlog \<times> medium" where
  "pmemlog_appendv plp iov iovcnt s =
     (if iovcnt < 0 then (Inl EINVAL, plp, s)
      else if pl_rdonly plp then (Inl EROFS, plp, s)
      else with_lock plp s (\<lambda>s.
        (let end_offset = log_field s LOG_END_OFF; write_offset = log_field s LOG_WRITE_OFF;
             bufs = take (nat iovcnt) iov
         in if write_offset \<ge> end_offset then (Inl ENOSPC, s)
            else if nat iovcnt > length iov then (Inl ABORT, s)
            else if iov_count bufs 0 > end_offset - write_offset then (Inl ENOSPC, s)
            else bind_io (appendv_loop bufs write_offset [] s) (\<lambda>(new_offset, ps) s1.
                   log_persist s1 ps new_offset))))"

definition pmemlog_tell :: "pmemlog \<Rightarrow> medium \<Rightarrow> err + int" where
  "pmemlog_tell plp s =
     (case rwlock_lock plp of
        Inl e \<Rightarrow> Inl e
      | Inr _ \<Rightarrow> Inr (sint (log_field s LOG_WRITE_OFF - log_field s LOG_START_OFF)))"

definition pmemlog_rewind :: "pmemlog \<Rightarrow> medium \<Rightarrow> (err + unit) \<times> pmemlog \<times> medium" where
  "pmemlog_rewind plp s =
     (if pl_rdonly plp then (Inl EROFS, plp, s)
      else with_lock plp s (\<lambda>s. persist s LOG_WRITE_OFF (rd (md_img s) LOG_START_OFF 8)))"

text \<open>
  \<open>pmemlog_walk\<close>.  The callback gets its state and a chunk and returns the new state
  and whether to go on.  The chunk loop adds \<open>chunksize\<close> to a 64-bit offset and may run
  forever; not returning, for that or for a lock that is never released, is \<open>None\<close>.
\<close>

partial_function (option) walk_loop ::
  "mem \<Rightarrow> u64 \<Rightarrow> u64 \<Rightarrow> ('a \<Rightarrow> byte list \<Rightarrow> 'a \<times> bool) \<Rightarrow> u64 \<Rightarrow> 'a \<Rightarrow> 'a option" where
  "walk_loop m chunksize write_offset process_chunk data_offset x =
     (if data_offset < write_offset
      then (case process_chunk x (rd m (unat data_offset) (unat (min chunksize (write_offset - data_offset)))) of
              (x1, go_on) \<Rightarrow>
                (if go_on then walk_loop m chunksize write_offset process_chunk (data_offset + chunksize) x1
                 else Some x1))
      else Some x)"

definition pmemlog_walk ::
  "pmemlog \<Rightarrow> medium \<Rightarrow> u64 \<Rightarrow> ('a \<Rightarrow> byte list \<Rightarrow> 'a \<times> bool) \<Rightarrow> 'a \<Rightarrow> 'a option" where
  "pmemlog_walk plp s chunksize process_chunk x =
     (let write_offset = log_field s LOG_WRITE_OFF; data_offset = log_field s LOG_START_OFF
      in if pl_locked plp then None
         else if chunksize = 0
         then Some (fst (process_chunk x (rd (md_img s) (unat data_offset) (unat (write_offset - data_offset)))))
         else walk_loop (md_img s) chunksize write_offset process_chunk data_offset x)"

definition pmemlog_check :: "err + log_set \<Rightarrow> medium \<Rightarrow> err + bool" where
  "pmemlog_check lset s =
     (case log_open_common lset s of
        (Inl e, _) \<Rightarrow> Inl e
      | (Inr plp, s1) \<Rightarrow>
          (let hdr_start = log_field s1 LOG_START_OFF; hdr_end = log_field s1 LOG_END_OFF;
               hdr_write = log_field s1 LOG_WRITE_OFF
           in Inr (hdr_start = log_data_start \<and> hdr_end = pl_size plp \<and> \<not> hdr_start > hdr_end \<and>
                   \<not> hdr_start > hdr_write \<and> \<not> hdr_write > hdr_end)))"

end
