(* ===== verification/Log_Spec.thy ===== *)
theory Log_Spec
  imports Log
begin

text \<open>
  The specification of log pools, a byte list that is appended to and rewound, and the
  proof that libpmemlog refines it, with power failures.
\<close>

section \<open>Pools in use\<close>

lemma rd_split: "a \<le> b \<Longrightarrow> b \<le> c \<Longrightarrow> rd m a (c - a) = rd m a (b - a) @ rd m b (c - b)"
  using rd_append [of m a "b - a" "c - b"] by simp

lemma log_data_start: "log_data_start = 8192"
  by (simp add: log_data_start_def roundup64_def sizeof_pmemlog_def LOG_FORMAT_DATA_ALIGN_def)

lemmas log_offs = LOG_START_OFF_def LOG_END_OFF_def LOG_WRITE_OFF_def

definition log_image :: "pmemlog \<Rightarrow> medium \<Rightarrow> bool" where
  "log_image plp s \<longleftrightarrow> log_field s LOG_START_OFF = log_data_start \<and> log_field s LOG_END_OFF = pl_size plp \<and>
     log_data_start \<le> log_field s LOG_WRITE_OFF \<and> log_field s LOG_WRITE_OFF \<le> pl_size plp"

definition log_ready :: "pmemlog \<Rightarrow> medium \<Rightarrow> bool" where
  "log_ready plp s \<longleftrightarrow> powered s \<and> \<not> pl_locked plp \<and> log_image plp s"

text \<open>The log as a client sees it.\<close>

definition log_data :: "pmemlog \<Rightarrow> medium \<Rightarrow> byte list" where
  "log_data plp s = rd (md_img s) (unat log_data_start) (unat (log_field s LOG_WRITE_OFF) - unat log_data_start)"

definition log_capacity :: "pmemlog \<Rightarrow> nat" where
  "log_capacity plp = unat (pl_size plp) - unat log_data_start"

text \<open>The descriptor and the log below the write offset decide the image and the view.\<close>

lemma log_same:
  assumes "\<forall>x. LOG_START_OFF \<le> x \<longrightarrow> x < unat (log_field s LOG_WRITE_OFF) \<longrightarrow> md_img s' x = md_img s x"
    and "log_image plp s"
  shows "log_image plp s'" "log_data plp s' = log_data plp s" "log_field s' LOG_WRITE_OFF = log_field s LOG_WRITE_OFF"
    "log_field s' LOG_END_OFF = log_field s LOG_END_OFF" "log_field s' LOG_START_OFF = log_field s LOG_START_OFF"
proof -
  have w: "8192 \<le> unat (log_field s LOG_WRITE_OFF)"
    using assms(2) by (simp add: log_image_def log_data_start word_le_nat_alt)
  have f: "log_field s' off = log_field s off" if "off \<in> {LOG_START_OFF, LOG_END_OFF, LOG_WRITE_OFF}" for off
  proof -
    have "rd (md_img s') off 8 = rd (md_img s) off 8"
      using that w by (intro rd_eqI assms(1) [rule_format]) (auto simp: log_offs)
    then show ?thesis by (simp add: log_field_def)
  qed
  then show e: "log_field s' LOG_WRITE_OFF = log_field s LOG_WRITE_OFF" "log_field s' LOG_END_OFF = log_field s LOG_END_OFF"
    "log_field s' LOG_START_OFF = log_field s LOG_START_OFF" by simp_all
  show "log_image plp s'" using assms(2) f by (simp add: log_image_def)
  show "log_data plp s' = log_data plp s"
    unfolding log_data_def e by (rule rd_eqI) (use w in \<open>auto simp: log_offs log_data_start intro!: assms(1) [rule_format]\<close>)
qed

text \<open>Storing a new write offset is atomic and changes nothing else.\<close>

lemma log_field_wr:
  "log_field (s\<lparr>md_img := wr m LOG_WRITE_OFF (le64 w), md_power := p\<rparr>) LOG_WRITE_OFF = w"
  by (simp add: log_field_def mem_simps)

lemma set_write_offset:
  assumes on: "powered s" and w: "log_data_start \<le> w" "w \<le> pl_size plp" and im: "log_image plp s"
  obtains (ok) s' where "persist s LOG_WRITE_OFF (le64 w) = (Inr (), s')" "powered s'" "log_image plp s'"
      "log_data plp s' = rd (md_img s) (unat log_data_start) (unat w - unat log_data_start)"
    | (torn) s' where "persist s LOG_WRITE_OFF (le64 w) = (Inl POWERLOSS, s')" "\<not> powered s'" "log_image plp s'"
      "log_data plp s' \<in> {log_data plp s, rd (md_img s) (unat log_data_start) (unat w - unat log_data_start)}"
proof -
  have new: "log_image plp s'" "log_data plp s' = rd (md_img s) (unat log_data_start) (unat w - unat log_data_start)"
    if m: "md_img s' = wr (md_img s) LOG_WRITE_OFF (le64 w)" for s'
  proof -
    have f: "log_field s' LOG_WRITE_OFF = w" "log_field s' LOG_START_OFF = log_field s LOG_START_OFF"
      "log_field s' LOG_END_OFF = log_field s LOG_END_OFF"
      by (simp_all add: log_field_def m mem_simps disjoint_ranges_def log_offs)
    then show "log_image plp s'" using im w by (simp add: log_image_def)
    show "log_data plp s' = rd (md_img s) (unat log_data_start) (unat w - unat log_data_start)"
      unfolding log_data_def f(1) m by (rule rd_wr_disjoint) (simp add: disjoint_ranges_def log_offs log_data_start)
  qed
  show ?thesis
  proof (cases rule: persist_cases [OF on, of LOG_WRITE_OFF "le64 w", case_names ok torn])
    case (ok s')
    then show ?thesis using new [OF ok(3)] by (intro that(1) [of s']) simp_all
  next
    case (torn s')
    have "le64 w \<noteq> []" using length_le(3) [of w] by (metis list.size(3) zero_neq_numeral)
    then have "md_img s' = (if md_torn s 0 (LOG_WRITE_OFF div 8) then wr (md_img s) LOG_WRITE_OFF (le64 w) else md_img s)"
      unfolding torn(3) by (intro wr_torn_atomic) (simp_all add: log_offs)
    then have "log_image plp s' \<and> log_data plp s' \<in> {log_data plp s, rd (md_img s) (unat log_data_start) (unat w - unat log_data_start)}"
      using new [of s'] im by (auto simp: log_image_def log_data_def log_field_def split: if_splits)
    then show ?thesis using torn(1,2) by (intro that(2) [of s']) simp_all
  qed
qed

section \<open>Appending\<close>

text \<open>Copying buffers into the free space behind the write offset.\<close>

lemma appendv_loop_cases:
  assumes "powered s" "\<forall>x. covers ps x \<longrightarrow> W \<le> x \<and> x < unat wo" "W \<le> unat wo"
    and "unat wo + length (concat iov) < 2 ^ 64"
  obtains (ok) wo' ps' s' where "appendv_loop iov wo ps s = (Inr (wo', ps'), s')" "powered s'" "md_img s' = md_img s"
      "unat wo' = unat wo + length (concat iov)" "\<forall>x. covers ps' x \<longrightarrow> W \<le> x \<and> x < unat wo'"
      "\<forall>m. rd (wr_all m ps') W (unat wo' - W) = rd (wr_all m ps) W (unat wo - W) @ concat iov"
    | (torn) e s' where "appendv_loop iov wo ps s = (Inl e, s')" "\<not> powered s'" "\<forall>x < W. md_img s' x = md_img s x"
  using assms
proof (induction iov arbitrary: wo ps s thesis)
  case Nil
  then show ?case by (intro Nil.prems(1) [of wo ps s]) simp_all
next
  case (Cons buf iov)
  let ?ps = "ps @ [(unat wo, buf)]" and ?wo = "wo + of_nat (length buf)"
  have len: "length buf < 2 ^ 64" using Cons.prems(6) by simp
  then have wo: "unat ?wo = unat wo + length buf"
    using Cons.prems(6) by (subst unat_add_small) (simp_all add: unat_of_nat_small)
  have cov: "\<forall>x. covers ?ps x \<longrightarrow> W \<le> x \<and> x < unat ?wo" using Cons.prems(4,5) by (auto simp: wo)
  show ?case
  proof (cases rule: nodrain_cases [OF Cons.prems(3), of ps "unat wo" buf, case_names ok torn])
    case (torn s1)
    have "\<forall>x < W. md_img s1 x = md_img s x"
    proof (intro allI impI)
      fix x assume "x < W"
      then have "\<not> covers ?ps x" using cov by fastforce
      then show "md_img s1 x = md_img s x" by (rule torn(3))
    qed
    then show ?thesis using torn(1,2) by (intro Cons.prems(2) [of POWERLOSS s1]) simp_all
  next
    case (ok s1)
    have app: "rd (wr_all m ?ps) W (unat ?wo - W) = rd (wr_all m ps) W (unat wo - W) @ buf" for m
    proof -
      have "rd (wr_all m ?ps) W (unat ?wo - W) =
          rd (wr_all m ?ps) W (unat wo - W) @ rd (wr_all m ?ps) (unat wo) (unat ?wo - unat wo)"
        by (rule rd_split) (use Cons.prems(5) in \<open>simp_all add: wo\<close>)
      then show ?thesis using Cons.prems(5) by (simp add: wo wr_all_snoc mem_simps disjoint_ranges_def)
    qed
    have pre: "W \<le> unat ?wo" "unat ?wo + length (concat iov) < 2 ^ 64" using Cons.prems(5,6) by (simp_all add: wo)
    have img: "md_img s1 = md_img s" by (rule ok(3))
    have step: "appendv_loop (buf # iov) wo ps s = appendv_loop iov ?wo ?ps s1" by (simp add: ok(1))
    show ?thesis
    proof (rule Cons.IH [OF _ _ ok(2) cov pre])
      fix wo' ps' s'
      assume "appendv_loop iov ?wo ?ps s1 = (Inr (wo', ps'), s')" "powered s'" "md_img s' = md_img s1"
        "unat wo' = unat ?wo + length (concat iov)" "\<forall>x. covers ps' x \<longrightarrow> W \<le> x \<and> x < unat wo'"
        "\<forall>m. rd (wr_all m ps') W (unat wo' - W) = rd (wr_all m ?ps) W (unat ?wo - W) @ concat iov"
      then show thesis
        by (intro Cons.prems(1) [of wo' ps' s']) (simp_all add: ok(1) img wo app [unfolded wo])
    next
      fix e s'
      assume "appendv_loop iov ?wo ?ps s1 = (Inl e, s')" "\<not> powered s'" "\<forall>x < W. md_img s' x = md_img s1 x"
      then show thesis by (intro Cons.prems(2) [of e s']) (simp_all add: ok(1) img)
    qed
  qed
qed

text \<open>Publishing the copied bytes.\<close>

lemma log_persist_cases:
  assumes on: "powered s" and im: "log_image plp s" and w: "log_field s LOG_WRITE_OFF \<le> w" "w \<le> pl_size plp"
    and cov: "\<forall>x. covers ps x \<longrightarrow> unat (log_field s LOG_WRITE_OFF) \<le> x \<and> x < unat w"
  defines "W \<equiv> unat (log_field s LOG_WRITE_OFF)"
  defines "new \<equiv> log_data plp s @ rd (wr_all (md_img s) ps) W (unat w - W)"
  obtains (ok) s' where "log_persist s ps w = (Inr (), s')" "powered s'" "log_image plp s'" "log_data plp s' = new"
    | (torn) s' where "log_persist s ps w = (Inl POWERLOSS, s')" "\<not> powered s'" "log_image plp s'"
      "log_data plp s' \<in> {log_data plp s, new}"
proof -
  have W: "8192 \<le> W" using im by (simp add: log_image_def log_data_start word_le_nat_alt W_def)
  have wW: "W \<le> unat w" using w(1) by (simp add: word_le_nat_alt W_def)
  have low: "\<not> covers ps x" if "x < W" for x using cov that by (fastforce simp: W_def)
  have start: "log_data_start \<le> w" using im w(1) by (auto simp: log_image_def)
  show ?thesis
  proof (cases rule: drain_cases [OF on, of ps, case_names ok torn])
    case (torn s1)
    have same: "\<forall>x. LOG_START_OFF \<le> x \<longrightarrow> x < unat (log_field s LOG_WRITE_OFF) \<longrightarrow> md_img s1 x = md_img s x"
      using torn(3) by (simp add: low W_def)
    have eq: "log_image plp s1" "log_data plp s1 = log_data plp s"
      using log_same(1,2) [OF same im] by simp_all
    show ?thesis using eq torn(1,2) by (intro that(2) [of s1]) (simp_all add: log_persist_def)
  next
    case (ok s1)
    have same: "\<forall>x. LOG_START_OFF \<le> x \<longrightarrow> x < unat (log_field s LOG_WRITE_OFF) \<longrightarrow> md_img s1 x = md_img s x"
      by (simp add: ok(3) wr_all_outside low W_def)
    have eq: "log_image plp s1" "log_data plp s1 = log_data plp s"
      using log_same(1,2) [OF same im] by simp_all
    have data: "rd (md_img s1) (unat log_data_start) (unat w - unat log_data_start) = new"
    proof -
      have "rd (md_img s1) 8192 (unat w - 8192) = rd (md_img s1) 8192 (W - 8192) @ rd (md_img s1) W (unat w - W)"
        by (rule rd_split [OF W wW])
      also have "rd (md_img s1) 8192 (W - 8192) = log_data plp s"
        unfolding log_data_def W_def [symmetric]
        by (simp add: log_data_start) (rule rd_eqI, use W in \<open>auto simp: ok(3) wr_all_outside low\<close>)
      finally show ?thesis by (simp add: new_def ok(3) log_data_start)
    qed
    show ?thesis
    proof (cases rule: set_write_offset [OF ok(2) start w(2) eq(1), case_names ok torn])
      case (ok s2)
      then show ?thesis using data \<open>drain s ps = (Inr (), s1)\<close>
        by (intro that(1) [of s2]) (simp_all add: log_persist_def)
    next
      case (torn s2)
      then show ?thesis using data eq(2) \<open>drain s ps = (Inr (), s1)\<close>
        by (intro that(2) [of s2]) (simp_all add: log_persist_def)
    qed
  qed
qed


section \<open>The specification\<close>

datatype log_op = LogAppend "byte list" | LogAppendv "byte list list" | LogRewind

fun log_step :: "log_op \<Rightarrow> pmemlog \<Rightarrow> medium \<Rightarrow> (err + unit) \<times> pmemlog \<times> medium" where
  "log_step (LogAppend buf) plp s = pmemlog_append plp buf s"
| "log_step (LogAppendv iov) plp s = pmemlog_appendv plp iov (int (length iov)) s"
| "log_step LogRewind plp s = pmemlog_rewind plp s"

record log_ident =
  li_size :: u64
  li_rdonly :: bool

definition log_ident :: "pmemlog \<Rightarrow> log_ident" where
  "log_ident plp = \<lparr> li_size = pl_size plp, li_rdonly = pl_rdonly plp \<rparr>"

definition spec_append :: "log_ident \<Rightarrow> byte list \<Rightarrow> byte list \<Rightarrow> err + byte list" where
  "spec_append i buf v =
     (let cap = unat (li_size i) - unat log_data_start
      in if li_rdonly i then Inl EROFS
         else if cap \<le> length v then Inl ENOSPC
         else if cap < length v + length buf then Inl ENOSPC
         else Inr (v @ buf))"

fun log_spec :: "log_ident \<Rightarrow> log_op \<Rightarrow> byte list \<Rightarrow> err + byte list" where
  "log_spec i (LogAppend buf) v = spec_append i buf v"
| "log_spec i (LogAppendv iov) v = spec_append i (concat iov) v"
| "log_spec i LogRewind v = (if li_rdonly i then Inl EROFS else Inr [])"

text \<open>The buffers of one call fit in the address space.\<close>

fun log_wf :: "log_ident \<Rightarrow> log_op \<Rightarrow> bool" where
  "log_wf i (LogAppend buf) \<longleftrightarrow> length buf < 2 ^ 64"
| "log_wf i (LogAppendv iov) \<longleftrightarrow> length (concat iov) < 2 ^ 64"
| "log_wf i LogRewind \<longleftrightarrow> True"

lemma iov_count: "iov_count iov c = c + of_nat (length (concat iov))"
  by (induction iov arbitrary: c) (simp_all add: add.assoc)

text \<open>Appending one buffer is appending an array of one buffer.\<close>

lemma bind_io_assoc: "bind_io (bind_io p k) l = bind_io p (\<lambda>x s. bind_io (k x s) l)"
  by (simp add: bind_io_def split: prod.split sum.split)

lemma append_appendv: "pmemlog_append plp buf s = pmemlog_appendv plp [buf] 1 s"
  by (simp add: pmemlog_append_def pmemlog_appendv_def Let_def bind_io_assoc cong: if_cong)

lemma length_log_data: "log_image plp s \<Longrightarrow> length (log_data plp s) = unat (log_field s LOG_WRITE_OFF) - unat log_data_start"
  by (simp add: log_data_def)

definition log_law :: "pmemlog \<Rightarrow> medium \<Rightarrow> err + byte list \<Rightarrow> (err + unit) \<times> pmemlog \<times> medium \<Rightarrow> bool" where
  "log_law plp s sp out \<longleftrightarrow>
     (case out of (r, plp', s') \<Rightarrow>
       (powered s' \<and> log_ready plp' s' \<and> log_ident plp' = log_ident plp \<and>
         (case sp of Inr v \<Rightarrow> r = Inr () \<and> log_data plp' s' = v
          | Inl e \<Rightarrow> r = Inl e \<and> log_data plp' s' = log_data plp s)) \<or>
       (\<not> powered s' \<and> log_image plp s' \<and> (log_data plp s' = log_data plp s \<or> sp = Inr (log_data plp s'))))"

lemma unlock_lock: "\<not> pl_locked plp \<Longrightarrow> rwlock_unlock (plp\<lparr>pl_locked := True\<rparr>) = plp"
  by (simp add: rwlock_unlock_def)

lemma appendv_law:
  assumes ready: "log_ready plp s" and wf: "length (concat iov) < 2 ^ 64"
  shows "log_law plp s (spec_append (log_ident plp) (concat iov) (log_data plp s))
    (pmemlog_appendv plp iov (int (length iov)) s)"
proof -
  let ?w = "log_field s LOG_WRITE_OFF" and ?e = "log_field s LOG_END_OFF" and ?n = "length (concat iov)"
  have r: "powered s" "\<not> pl_locked plp" "log_image plp s" using ready by (simp_all add: log_ready_def)
  have im: "8192 \<le> unat ?w" "unat ?w \<le> unat ?e" "?e = pl_size plp"
    using r(3) by (simp_all add: log_image_def log_data_start word_le_nat_alt)
  have len: "length (log_data plp s) = unat ?w - 8192" using length_log_data [OF r(3)] by (simp add: log_data_start)
  have cnt: "iov_count iov 0 = of_nat ?n" by (simp add: iov_count)
  have un: "unat (of_nat ?n :: u64) = ?n" using wf by (simp add: unat_of_nat_small)
  have ro: "li_rdonly (log_ident plp) = pl_rdonly plp" "li_size (log_ident plp) = ?e"
    by (simp_all add: log_ident_def im(3))
  have full: "?e \<le> ?w \<longleftrightarrow> unat ?e - 8192 \<le> length (log_data plp s)"
    using im by (auto simp: word_le_nat_alt len)
  have big: "of_nat ?n > ?e - ?w \<longleftrightarrow> unat ?e - 8192 < length (log_data plp s) + ?n"
    using im by (simp add: word_less_nat_alt un unat_sub_small len) linarith
  consider (ro) "pl_rdonly plp" | (full) "\<not> pl_rdonly plp" "?e \<le> ?w"
    | (big) "\<not> pl_rdonly plp" "\<not> ?e \<le> ?w" "of_nat ?n > ?e - ?w"
    | (fits) "\<not> pl_rdonly plp" "\<not> ?e \<le> ?w" "\<not> of_nat ?n > ?e - ?w" by blast
  then show ?thesis
  proof cases
    case ro
    then show ?thesis using ready r(1)
      by (simp add: log_law_def pmemlog_appendv_def spec_append_def Let_def log_ident_def)
  next
    case full
    then show ?thesis using ready r(1,2) \<open>?e \<le> ?w \<longleftrightarrow> _\<close>
      by (simp add: log_law_def pmemlog_appendv_def spec_append_def Let_def ro with_lock_def rwlock_lock_def unlock_lock log_data_start)
  next
    case big
    then show ?thesis using ready r(1,2) \<open>?e \<le> ?w \<longleftrightarrow> _\<close> \<open>of_nat ?n > ?e - ?w \<longleftrightarrow> _\<close>
      by (simp add: log_law_def pmemlog_appendv_def spec_append_def Let_def ro with_lock_def rwlock_lock_def unlock_lock log_data_start cnt)
  next
    case fits
    have room: "unat ?w + ?n \<le> unat ?e" using fits(2,3) im by (simp add: word_less_nat_alt word_le_nat_alt un unat_sub_small)
    have sp: "spec_append (log_ident plp) (concat iov) (log_data plp s) = Inr (log_data plp s @ concat iov)"
      using fits full big by (simp add: spec_append_def Let_def ro log_data_start)
    have bound: "unat ?w + ?n < 2 ^ 64" using room by (rule le_less_trans) simp
    have step: "pmemlog_appendv plp iov (int (length iov)) s =
        (case bind_io (appendv_loop iov ?w [] s) (\<lambda>(new_offset, ps) s1. log_persist s1 ps new_offset) of
           (r, s1) \<Rightarrow> (r, plp, s1))"
      using fits r(2) by (simp add: pmemlog_appendv_def Let_def with_lock_def rwlock_lock_def unlock_lock cnt)
    have nocov: "\<forall>x. covers [] x \<longrightarrow> unat ?w \<le> x \<and> x < unat ?w" by simp
    show ?thesis
    proof (cases rule: appendv_loop_cases [OF r(1) nocov order_refl bound, case_names ok torn])
      case (torn e s')
      have same: "\<forall>x. LOG_START_OFF \<le> x \<longrightarrow> x < unat ?w \<longrightarrow> md_img s' x = md_img s x" using torn(3) by simp
      show ?thesis
        using torn(1,2) log_same(1,2) [OF same r(3)]
        by (simp add: step log_law_def)
    next
      case (ok wo ps s1)
      have same: "\<forall>x. LOG_START_OFF \<le> x \<longrightarrow> x < unat ?w \<longrightarrow> md_img s1 x = md_img s x" using ok(3) by simp
      note eq = log_same [OF same r(3)]
      have w: "log_field s1 LOG_WRITE_OFF \<le> wo" "wo \<le> pl_size plp"
        using ok(4) room im(3) by (simp_all add: eq(3) word_le_nat_alt)
      have cov: "\<forall>x. covers ps x \<longrightarrow> unat (log_field s1 LOG_WRITE_OFF) \<le> x \<and> x < unat wo" using ok(5) by (simp add: eq(3))
      have data: "rd (wr_all (md_img s1) ps) (unat (log_field s1 LOG_WRITE_OFF)) (unat wo - unat (log_field s1 LOG_WRITE_OFF)) = concat iov"
        using ok(6) by (simp add: eq(3))
      show ?thesis
      proof (cases rule: log_persist_cases [OF ok(2) eq(1) w cov, case_names ok torn])
        case (ok s2)
        then show ?thesis using r(2) \<open>appendv_loop iov ?w [] s = _\<close> data
          by (simp add: step log_law_def sp log_ready_def eq(2))
      next
        case (torn s2)
        then show ?thesis using \<open>appendv_loop iov ?w [] s = _\<close> data
          by (auto simp: step log_law_def sp eq(2))
      qed
    qed
  qed
qed

lemma rewind_law:
  assumes ready: "log_ready plp s"
  shows "log_law plp s (log_spec (log_ident plp) LogRewind (log_data plp s)) (pmemlog_rewind plp s)"
proof (cases "pl_rdonly plp")
  case True
  then show ?thesis using ready by (simp add: log_law_def pmemlog_rewind_def log_ident_def log_ready_def)
next
  case False
  have r: "powered s" "\<not> pl_locked plp" "log_image plp s" using ready by (simp_all add: log_ready_def)
  have "rd (md_img s) LOG_START_OFF 8 = le64 (unle64 (rd (md_img s) LOG_START_OFF 8))" by (simp add: le_unle)
  also have "\<dots> = le64 log_data_start" using r(3) by (simp add: log_image_def log_field_def)
  finally have step: "pmemlog_rewind plp s =
      (case persist s LOG_WRITE_OFF (le64 log_data_start) of (r, s1) \<Rightarrow> (r, plp, s1))"
    using False r(2) by (simp add: pmemlog_rewind_def with_lock_def rwlock_lock_def unlock_lock)
  have le: "log_data_start \<le> log_data_start" "log_data_start \<le> pl_size plp" using r(3) by (auto simp: log_image_def)
  show ?thesis
    by (rule set_write_offset [OF r(1) le r(3)])
      (use r False in \<open>auto simp: step log_law_def log_ready_def log_ident_def\<close>)
qed

lemma log_step_law:
  assumes "log_ready plp s" "log_wf (log_ident plp) x"
  shows "log_law plp s (log_spec (log_ident plp) x (log_data plp s)) (log_step x plp s)"
proof (cases x)
  case (LogAppend buf)
  have "length (concat [buf]) < 2 ^ 64" using assms(2) LogAppend by simp
  from appendv_law [OF assms(1) this] show ?thesis by (simp add: LogAppend append_appendv)
next
  case (LogAppendv iov)
  have "length (concat iov) < 2 ^ 64" using assms(2) by (simp add: LogAppendv)
  from appendv_law [OF assms(1) this] show ?thesis by (simp add: LogAppendv)
next
  case LogRewind
  show ?thesis using rewind_law [OF assms(1)] by (simp only: LogRewind log_step.simps)
qed

section \<open>Opening and the refinement\<close>

definition log_open :: "log_set \<Rightarrow> medium \<Rightarrow> (err + pmemlog) \<times> medium" where
  "log_open ls s = log_open_common (Inr ls) s"

definition log_fits :: "log_set \<Rightarrow> log_ident \<Rightarrow> bool" where
  "log_fits ls i \<longleftrightarrow> ls_nreplicas ls \<le> 1 \<and> ls_repsize ls = li_size i \<and> ls_rdonly ls = li_rdonly i"

lemma log_open_image:
  assumes "log_image plp s" "log_fits ls (log_ident plp)"
  shows "log_open ls s = (if powered s then (Inr (log_runtime_init ls (ls_rdonly ls)), s) else (Inl POWERLOSS, s))"
proof -
  have ls: "ls_nreplicas ls \<le> 1" "ls_repsize ls = pl_size plp"
    using assms(2) by (simp_all add: log_fits_def log_ident_def)
  have "log_descr_check s (pl_size plp) = (if powered s then Inr () else Inl POWERLOSS)"
    using assms(1) by (auto simp: log_descr_check_def log_image_def Let_def)
  then show ?thesis using ls by (auto simp: log_open_def log_open_common_def)
qed

lemma log_img_power:
  "log_image plp (s\<lparr>md_power := p, md_torn := sel\<rparr>) = log_image plp s"
  "log_data plp (s\<lparr>md_power := p, md_torn := sel\<rparr>) = log_data plp s"
  by (simp_all add: log_image_def log_data_def log_field_def)

lemma log_open_law:
  assumes image: "log_image plp s" and fits: "log_fits ls (log_ident plp)" and run: "log_open ls s = (r, s')"
  shows "(\<exists>plp'. r = Inr plp' \<and> powered s' \<and> log_ready plp' s' \<and> log_ident plp' = log_ident plp \<and>
      log_data plp' s' = log_data plp s) \<or>
    (\<not> powered s' \<and> log_image plp s' \<and> log_data plp s' = log_data plp s)"
proof -
  let ?p = "log_runtime_init ls (ls_rdonly ls)"
  have "log_ident ?p = log_ident plp"
    using fits by (simp add: log_ident_def log_runtime_init_def log_fits_def)
  moreover have "log_image ?p s" using image fits
    by (simp add: log_image_def log_ident_def log_runtime_init_def log_fits_def)
  moreover have "\<not> pl_locked ?p" by (simp add: log_runtime_init_def)
  ultimately show ?thesis using run image
    by (auto simp: log_open_image [OF image fits] log_ready_def log_data_def split: if_splits)
qed

lemma log_open_steady: "log_open ls s = (r, s') \<Longrightarrow> steady s' = steady s"
  by (auto simp: log_open_def log_open_common_def split: if_splits sum.splits)

interpretation log_pool: recoverable log_step log_ready log_image log_data log_ident log_wf log_spec log_open log_fits
proof (unfold_locales, goal_cases)
  case (3 h s x r h' s')
  then show ?case using log_step_law [OF 3(1,2)] by (simp add: log_law_def)
qed (auto simp: log_ready_def log_img_power log_open_steady dest: log_open_law)

lemma with_lock_steady:
  "with_lock plp s body = (r, plp', s') \<Longrightarrow> (\<And>r s'. body s = (r, s') \<Longrightarrow> steady s' = steady s) \<Longrightarrow> steady s' = steady s"
  by (auto simp: with_lock_def split: sum.splits prod.splits)

lemma appendv_loop_steady: "appendv_loop iov wo ps s = (r, s') \<Longrightarrow> steady s' = steady s"
  by (induction iov arbitrary: wo ps s) (auto elim!: bind_io_cases dest!: nodrain_steady)

lemma log_persist_steady: "log_persist s ps w = (r, s') \<Longrightarrow> steady s' = steady s"
  unfolding log_persist_def by (auto elim!: bind_io_cases dest!: drain_steady persist_keeps_steady)

lemma appendv_steady: "pmemlog_appendv plp iov n s = (r, plp', s') \<Longrightarrow> steady s' = steady s"
  unfolding pmemlog_appendv_def Let_def
  by (auto split: if_splits elim!: with_lock_steady bind_io_cases dest!: appendv_loop_steady log_persist_steady)

lemma log_step_steady: "log_step x plp s = (r, plp', s') \<Longrightarrow> steady s' = steady s"
proof (cases x)
  case LogRewind
  assume "log_step x plp s = (r, plp', s')"
  then show ?thesis unfolding LogRewind log_step.simps pmemlog_rewind_def
    by (auto split: if_splits elim!: with_lock_steady dest!: persist_keeps_steady)
qed (auto simp: append_appendv dest: appendv_steady)

lemma log_run_steady: "run_ops log_step xs plp s = (rs, plp', s') \<Longrightarrow> steady s' = steady s"
  by (induction xs arbitrary: rs plp s) (auto split: prod.splits if_splits dest: log_step_steady)

end
