(* ===== verification/Log_Theorems.thy ===== *)
theory Log_Theorems
  imports Log_Spec
begin

text \<open>
  The theorems about log pools, the walk over a log, and a pool of 2 MiB on which their
  hypotheses hold.
\<close>

section \<open>Creating a pool\<close>

lemma sint_small: "unat w < 2 ^ 63 \<Longrightarrow> sint w = int (unat w)" for w :: u64
proof -
  assume "unat w < 2 ^ 63"
  then have u: "uint w < 2 ^ 63" by (metis of_nat_less_iff of_nat_numeral of_nat_power uint_nat)
  have "- (2 ^ 63) \<le> (0 :: int)" by simp
  also have "\<dots> \<le> uint w" by simp
  finally have "signed_take_bit 63 (uint w) = uint w" using u by (rule signed_take_bit_int_eq_self)
  then show ?thesis by (simp add: sint_uint)
qed

lemma create_ready:
  assumes st: "steady s" and size: "log_data_start \<le> ls_repsize ls"
  obtains plp s' where "pmemlog_create (Inr ls) (Inr ()) s = (Inr plp, s')" "log_ready plp s'" "steady s'"
    "log_data plp s' = []" "log_ident plp = \<lparr> li_size = ls_repsize ls, li_rdonly = False \<rparr>"
proof -
  let ?bs = "le64 log_data_start @ le64 (ls_repsize ls) @ le64 log_data_start"
  let ?s = "s\<lparr>md_img := wr (md_img s) LOG_START_OFF ?bs\<rparr>" and ?p = "log_runtime_init ls False"
  have fld: "log_field ?s (LOG_START_OFF + k) = unle64 (take 8 (drop k ?bs))" if "k \<le> 16" for k
  proof -
    have "rd (md_img ?s) (LOG_START_OFF + k) 8 = take 8 (drop k (rd (md_img ?s) LOG_START_OFF 24))"
      using that by (simp add: drop_rd take_rd)
    also have "rd (md_img ?s) LOG_START_OFF 24 = ?bs" by (simp add: mem_simps)
    finally show ?thesis by (simp add: log_field_def)
  qed
  have f: "log_field ?s LOG_START_OFF = log_data_start" "log_field ?s LOG_END_OFF = ls_repsize ls"
    "log_field ?s LOG_WRITE_OFF = log_data_start"
    using fld [of 0] fld [of 8] fld [of 16] by (simp_all add: log_offs)
  have "log_ready ?p ?s" using st size
    by (simp add: log_ready_def log_image_def f log_runtime_init_def powered_def steady_def)
  moreover have "pmemlog_create (Inr ls) (Inr ()) s = (Inr ?p, ?s)"
    using st by (simp add: pmemlog_create_def log_descr_create_def persist_steady)
  ultimately show ?thesis
    using st by (intro that [of ?p ?s]) (simp_all add: steady_def log_data_def f log_ident_def log_runtime_init_def)
qed

definition ex_log_set :: log_set where
  "ex_log_set = \<lparr> ls_nreplicas = 1, ls_repsize = 2097152, ls_is_pmem = True, ls_is_dev_dax = False, ls_rdonly = False \<rparr>"

definition ex_log_blank :: medium where
  "ex_log_blank = \<lparr> md_img = (\<lambda>_. 0), md_power = None, md_torn = (\<lambda>_ _. False) \<rparr>"

definition ex_log :: "pmemlog \<times> medium" where
  "ex_log = (case pmemlog_create (Inr ex_log_set) (Inr ()) ex_log_blank of (r, s) \<Rightarrow> (projr r, s))"

lemma ex_log_set_size: "log_data_start \<le> ls_repsize ex_log_set"
  by (simp add: ex_log_set_def log_data_start)

lemma ex_log_blank: "steady ex_log_blank"
  by (simp add: steady_def ex_log_blank_def)

lemma ex_log:
  "log_ready (fst ex_log) (snd ex_log)" "steady (snd ex_log)" "log_data (fst ex_log) (snd ex_log) = []"
  "log_ident (fst ex_log) = \<lparr> li_size = 2097152, li_rdonly = False \<rparr>"
proof -
  obtain plp s where c: "pmemlog_create (Inr ex_log_set) (Inr ()) ex_log_blank = (Inr plp, s)" "log_ready plp s" "steady s"
    "log_data plp s = []" "log_ident plp = \<lparr> li_size = ls_repsize ex_log_set, li_rdonly = False \<rparr>"
    using create_ready [OF ex_log_blank ex_log_set_size] by metis
  then have ex: "ex_log = (plp, s)" by (simp add: ex_log_def)
  show "log_ready (fst ex_log) (snd ex_log)" "steady (snd ex_log)" "log_data (fst ex_log) (snd ex_log) = []"
    "log_ident (fst ex_log) = \<lparr> li_size = 2097152, li_rdonly = False \<rparr>"
    unfolding ex using c by (simp_all add: ex_log_set_def)
qed

lemma log_ready_power: "log_ready plp s \<Longrightarrow> p \<noteq> Some 0 \<Longrightarrow> log_ready plp (s\<lparr>md_power := p\<rparr>)"
  by (simp add: log_ready_def log_image_def log_field_def powered_def)

lemma ex_log_fits: "log_fits ex_log_set (log_ident (fst ex_log))"
  by (simp add: log_fits_def ex_log(4) ex_log_set_def)

definition ex_log_ops :: "log_op list" where
  "ex_log_ops = [LogAppend [1, 2, 3], LogAppendv [[4], [], [5, 6]], LogRewind, LogAppend [7]]"

lemma ex_log_ops_wf: "\<forall>x \<in> set ex_log_ops. log_wf (log_ident (fst ex_log)) x"
  by (simp add: ex_log_ops_def)

section \<open>Refinement and crash atomicity\<close>

text \<open>
  C2: crash atomicity of log pools.  After any sequence of appends, gathered appends and
  rewinds under any power schedule, and any number of failed attempts to reopen, the log
  is the one of the specification after the operations that returned, or after one more:
  an append that power interrupts is there as a whole or not at all.
\<close>

theorem log_crash_atomic:
  assumes "log_ready plp s" "\<forall>x \<in> set xs. log_wf (log_ident plp) x" "log_fits ls (log_ident plp)"
    and "run_ops log_step xs plp s = (rs, plp1, s1)"
  shows "\<exists>k plp' s'. log_open ls (power_on (open_attempts (log_open ls) crashes s1)) = (Inr plp', s') \<and>
    log_ready plp' s' \<and> length rs \<le> k \<and> k \<le> Suc (length rs) \<and> k \<le> length xs \<and>
    log_data plp' s' = snd (spec_run (log_spec (log_ident plp)) (take k xs) (log_data plp s)) \<and>
    rs = fst (spec_run (log_spec (log_ident plp)) (take (length rs) xs) (log_data plp s))"
  by (rule log_pool.crash_recover [OF assms])

theorem log_crash_atomic_witness:
  "\<exists>rs plp1 s1. run_ops log_step ex_log_ops (fst ex_log) (snd ex_log\<lparr>md_power := Some 5\<rparr>) = (rs, plp1, s1) \<and>
   (\<exists>k plp' s'. log_open ex_log_set (power_on (open_attempts (log_open ex_log_set) [(0, \<lambda>_ _. True)] s1)) = (Inr plp', s') \<and>
    log_ready plp' s' \<and> length rs \<le> k \<and> k \<le> Suc (length rs) \<and> k \<le> length ex_log_ops \<and>
    log_data plp' s' = snd (spec_run (log_spec (log_ident (fst ex_log))) (take k ex_log_ops)
      (log_data (fst ex_log) (snd ex_log\<lparr>md_power := Some 5\<rparr>))) \<and>
    rs = fst (spec_run (log_spec (log_ident (fst ex_log))) (take (length rs) ex_log_ops)
      (log_data (fst ex_log) (snd ex_log\<lparr>md_power := Some 5\<rparr>))))"
proof -
  let ?s = "snd ex_log\<lparr>md_power := Some 5\<rparr>"
  have ready: "log_ready (fst ex_log) ?s" by (rule log_ready_power) (simp_all add: ex_log(1))
  obtain rs plp1 s1 where run: "run_ops log_step ex_log_ops (fst ex_log) ?s = (rs, plp1, s1)"
    by (metis prod_cases3)
  show ?thesis using run log_crash_atomic [OF ready ex_log_ops_wf ex_log_fits run] by blast
qed

text \<open>
  C22: functional refinement.  While power lasts, every append, gathered append and rewind
  returns what the specification on byte lists returns (success, EROFS, ENOSPC), and the
  log is the specified one.
\<close>

theorem log_refines_spec:
  assumes "log_ready plp s" "steady s" "\<forall>x \<in> set xs. log_wf (log_ident plp) x"
  shows "\<exists>rs plp' s'. run_ops log_step xs plp s = (rs, plp', s') \<and> log_ready plp' s' \<and>
    spec_run (log_spec (log_ident plp)) xs (log_data plp s) = (rs, log_data plp' s')"
proof -
  obtain rs plp' s' where run: "run_ops log_step xs plp s = (rs, plp', s')" by (metis prod_cases3)
  have "powered s'" using log_run_steady [OF run] assms(2) steady_powered by simp
  then show ?thesis using log_pool.run_refines [OF assms(1,3) run] run by (auto simp: run_outcome_def)
qed

theorem log_refines_spec_witness:
  "\<exists>rs plp' s'. run_ops log_step ex_log_ops (fst ex_log) (snd ex_log) = (rs, plp', s') \<and> log_ready plp' s' \<and>
    spec_run (log_spec (log_ident (fst ex_log))) ex_log_ops (log_data (fst ex_log) (snd ex_log)) = (rs, log_data plp' s')"
  by (rule log_refines_spec [OF ex_log(1,2) ex_log_ops_wf])

text \<open>
  C33: a created pool is empty and usable; \<open>pmemlog_tell\<close> is the length of the log,
  \<open>pmemlog_nbyte\<close> its capacity, and \<open>pmemlog_check\<close> finds the pool consistent.
\<close>

theorem log_create_tell_check:
  assumes "steady s" "log_data_start \<le> ls_repsize ls" "ls_repsize ls < 2 ^ 63" "ls_nreplicas ls \<le> 1"
  shows "\<exists>plp s'. pmemlog_create (Inr ls) (Inr ()) s = (Inr plp, s') \<and> log_data plp s' = [] \<and> log_ready plp s' \<and>
    pmemlog_check (Inr ls) s' = Inr True \<and>
    (\<forall>xs rs plp1 s1. (\<forall>x \<in> set xs. log_wf (log_ident plp) x) \<longrightarrow> run_ops log_step xs plp s' = (rs, plp1, s1) \<longrightarrow>
      pmemlog_tell plp1 s1 = Inr (int (length (log_data plp1 s1))) \<and>
      pmemlog_nbyte plp1 s1 = Inr (ls_repsize ls - log_data_start))"
proof -
  obtain plp s' where c: "pmemlog_create (Inr ls) (Inr ()) s = (Inr plp, s')" "log_ready plp s'" "steady s'"
    "log_data plp s' = []" "log_ident plp = \<lparr> li_size = ls_repsize ls, li_rdonly = False \<rparr>"
    using create_ready [OF assms(1,2)] by metis
  have size: "pl_size plp = ls_repsize ls" using c(5) by (simp add: log_ident_def)
  have tell: "pmemlog_tell p t = Inr (int (length (log_data p t))) \<and> pmemlog_nbyte p t = Inr (ls_repsize ls - log_data_start)"
    if ready: "log_ready p t" and p: "pl_size p = ls_repsize ls" for p t
  proof -
    let ?w = "log_field t LOG_WRITE_OFF"
    have im: "log_field t LOG_START_OFF = 8192" "log_field t LOG_END_OFF = ls_repsize ls" "8192 \<le> unat ?w"
      "unat ?w \<le> unat (ls_repsize ls)" "\<not> pl_locked p"
      using ready p by (simp_all add: log_ready_def log_image_def log_data_start word_le_nat_alt)
    have lt: "unat ?w < 2 ^ 63" using im(4) assms(3) by (simp add: word_less_nat_alt)
    have d: "unat (?w - 8192) = unat ?w - 8192" using im(3) by (simp add: unat_sub_small)
    have "sint (?w - 8192) = int (unat (?w - 8192))"
      using d lt by (intro sint_small) simp
    then show ?thesis using im d by (simp add: pmemlog_tell_def pmemlog_nbyte_def rwlock_lock_def log_data_def log_data_start)
  qed
  have "log_fits ls (log_ident plp)" if "\<not> ls_rdonly ls" using that assms(4) by (simp add: log_fits_def c(5))
  have chk: "pmemlog_check (Inr ls) s' = Inr True"
  proof -
    have "log_descr_check s' (ls_repsize ls) = Inr ()"
      using c(2) size by (auto simp: log_ready_def log_image_def log_descr_check_def Let_def)
    then show ?thesis using c(2) size assms(4)
      by (auto simp: pmemlog_check_def log_open_common_def Let_def log_ready_def log_image_def log_runtime_init_def)
  qed
  have "pmemlog_tell p1 s1 = Inr (int (length (log_data p1 s1))) \<and> pmemlog_nbyte p1 s1 = Inr (ls_repsize ls - log_data_start)"
    if wf: "\<forall>x \<in> set xs. log_wf (log_ident plp) x" and run: "run_ops log_step xs plp s' = (rs, p1, s1)" for xs rs p1 s1
  proof (rule tell)
    have "powered s1" using log_run_steady [OF run] c(3) steady_powered by simp
    then show "log_ready p1 s1" using log_pool.run_refines [OF c(2) wf run] by simp
    show "pl_size p1 = ls_repsize ls"
      using log_pool.run_refines [OF c(2) wf run] size by (simp add: log_ident_def)
  qed
  then show ?thesis using c chk by blast
qed

theorem log_create_tell_check_witness:
  "\<exists>plp s' rs plp1 s1. pmemlog_create (Inr ex_log_set) (Inr ()) ex_log_blank = (Inr plp, s') \<and> log_data plp s' = [] \<and>
    log_ready plp s' \<and> pmemlog_check (Inr ex_log_set) s' = Inr True \<and>
    run_ops log_step ex_log_ops plp s' = (rs, plp1, s1) \<and>
    pmemlog_tell plp1 s1 = Inr (int (length (log_data plp1 s1))) \<and>
    pmemlog_nbyte plp1 s1 = Inr (ls_repsize ex_log_set - log_data_start)"
proof -
  have wf: "\<forall>x \<in> set ex_log_ops. log_wf i x" for i by (simp add: ex_log_ops_def)
  have "ls_repsize ex_log_set < 2 ^ 63" "ls_nreplicas ex_log_set \<le> 1" by (simp_all add: ex_log_set_def)
  from log_create_tell_check [OF ex_log_blank ex_log_set_size this] obtain plp s' where
    p: "pmemlog_create (Inr ex_log_set) (Inr ()) ex_log_blank = (Inr plp, s')" "log_data plp s' = []" "log_ready plp s'"
    "pmemlog_check (Inr ex_log_set) s' = Inr True" and
    t: "\<forall>xs rs plp1 s1. (\<forall>x \<in> set xs. log_wf (log_ident plp) x) \<longrightarrow> run_ops log_step xs plp s' = (rs, plp1, s1) \<longrightarrow>
      pmemlog_tell plp1 s1 = Inr (int (length (log_data plp1 s1))) \<and>
      pmemlog_nbyte plp1 s1 = Inr (ls_repsize ex_log_set - log_data_start)" by metis
  obtain rs plp1 s1 where "run_ops log_step ex_log_ops plp s' = (rs, plp1, s1)" by (metis prod_cases3)
  then show ?thesis using p t wf by blast
qed

section \<open>Walking the log\<close>

function chunks :: "nat \<Rightarrow> byte list \<Rightarrow> byte list list" where
  "chunks n bs = (if bs = [] \<or> n = 0 then [] else take n bs # chunks n (drop n bs))"
  by pat_completeness auto
termination
  by (relation "measure (\<lambda>(n, bs). length bs)") auto

declare chunks.simps [simp del]

text \<open>The calls of the callback, which ends the walk by returning zero.\<close>

fun feed :: "('a \<Rightarrow> byte list \<Rightarrow> 'a \<times> bool) \<Rightarrow> 'a \<Rightarrow> byte list list \<Rightarrow> 'a" where
  "feed f x [] = x"
| "feed f x (c # cs) = (case f x c of (x1, go_on) \<Rightarrow> if go_on then feed f x1 cs else x1)"

lemma concat_chunks: "0 < n \<Longrightarrow> concat (chunks n bs) = bs"
  by (induction n bs rule: chunks.induct) (subst chunks.simps, auto)

lemma chunk_sizes: "c \<in> set (chunks n bs) \<Longrightarrow> 0 < length c \<and> length c \<le> n"
  by (induction n bs rule: chunks.induct) (subst (asm) (2) chunks.simps, auto split: if_splits)

lemma unat_min: "unat (min a b) = min (unat a) (unat b)" for a b :: "'a::len word"
  by (simp add: min_def word_le_nat_alt)

text \<open>Without wrap-around the loop ends and hands out the chunks in order.\<close>

lemma walk_loop_chunks:
  assumes "0 < unat chunksize" "unat w + unat chunksize < 2 ^ 64" "unat off \<le> unat w"
  shows "walk_loop m chunksize w f off x = Some (feed f x (chunks (unat chunksize) (rd m (unat off) (unat w - unat off))))"
  using assms(3)
proof (induction "unat w - unat off" arbitrary: off x rule: less_induct)
  case less
  let ?n = "unat chunksize"
  show ?case
  proof (cases "off < w")
    case False
    then have "unat w - unat off = 0" by (simp add: word_less_nat_alt)
    then show ?thesis using False by (subst walk_loop.simps) (simp add: chunks.simps)
  next
    case True
    then have lt: "unat off < unat w" by (simp add: word_less_nat_alt)
    have sum: "unat (off + chunksize) = unat off + ?n" using assms(2) lt by (intro unat_add_small) simp
    have len: "unat (min chunksize (w - off)) = min ?n (unat w - unat off)"
      using lt by (simp add: unat_min unat_sub_small)
    let ?bs = "rd m (unat off) (unat w - unat off)"
    have hd: "rd m (unat off) (unat (min chunksize (w - off))) = take ?n ?bs"
      unfolding len by (cases "?n \<le> unat w - unat off") (simp_all add: take_rd)
    have "?bs \<noteq> []" using lt by (metis length_rd list.size(3) zero_less_diff less_irrefl)
    then have ch: "chunks ?n ?bs = take ?n ?bs # chunks ?n (drop ?n ?bs)" using assms(1) by (subst chunks.simps) simp
    have rest: "walk_loop m chunksize w f (off + chunksize) x1 = Some (feed f x1 (chunks ?n (drop ?n ?bs)))" for x1
    proof (cases "unat off + ?n \<le> unat w")
      case True
      then show ?thesis using less.hyps [of "off + chunksize" x1] lt assms(1)
        by (simp add: sum drop_rd diff_diff_add)
    next
      case False
      then have "\<not> off + chunksize < w" "drop ?n ?bs = []" by (simp_all add: word_less_nat_alt sum)
      then show ?thesis by (subst walk_loop.simps) (simp add: chunks.simps)
    qed
    show ?thesis
      using True by (subst walk_loop.simps) (simp add: hd ch rest split: prod.split)
  qed
qed

text \<open>
  C26: \<open>pmemlog_walk\<close> terminates and hands the whole log to the callback: in one piece for
  chunk size 0, else in consecutive chunks of that size (the last may be shorter) until
  the callback ends the walk, provided that pool size and chunk size do not exceed the
  range of a 64-bit offset.
\<close>

theorem pmemlog_walk_complete:
  assumes "log_ready plp s" "unat (pl_size plp) + unat chunksize < 2 ^ 64"
  shows "pmemlog_walk plp s chunksize f x =
      (if chunksize = 0 then Some (fst (f x (log_data plp s)))
       else Some (feed f x (chunks (unat chunksize) (log_data plp s)))) \<and>
    (chunksize \<noteq> 0 \<longrightarrow> concat (chunks (unat chunksize) (log_data plp s)) = log_data plp s \<and>
      (\<forall>c \<in> set (chunks (unat chunksize) (log_data plp s)). 0 < length c \<and> length c \<le> unat chunksize))"
proof -
  let ?w = "log_field s LOG_WRITE_OFF"
  have im: "log_field s LOG_START_OFF = log_data_start" "unat log_data_start \<le> unat ?w" "unat ?w \<le> unat (pl_size plp)"
    "\<not> pl_locked plp"
    using assms(1) by (simp_all add: log_ready_def log_image_def word_le_nat_alt)
  have "pmemlog_walk plp s chunksize f x =
      (if chunksize = 0 then Some (fst (f x (log_data plp s)))
       else Some (feed f x (chunks (unat chunksize) (log_data plp s))))"
  proof (cases "chunksize = 0")
    case True
    then show ?thesis using im by (simp add: pmemlog_walk_def Let_def log_data_def unat_sub_small)
  next
    case False
    then have "walk_loop (md_img s) chunksize ?w f log_data_start x =
        Some (feed f x (chunks (unat chunksize) (rd (md_img s) (unat log_data_start) (unat ?w - unat log_data_start))))"
      using im assms(2) by (intro walk_loop_chunks) (simp_all add: unat_gt_0)
    then show ?thesis using im False by (simp add: pmemlog_walk_def Let_def log_data_def)
  qed
  then show ?thesis using concat_chunks [of "unat chunksize"] chunk_sizes [of _ "unat chunksize"] by (auto simp: unat_gt_0)
qed

theorem pmemlog_walk_complete_witness:
  "pmemlog_walk (fst ex_log) (snd ex_log) 16 (\<lambda>n c. (n + length c, True)) (0 :: nat) =
      Some (feed (\<lambda>n c. (n + length c, True)) 0 (chunks 16 (log_data (fst ex_log) (snd ex_log)))) \<and>
    concat (chunks 16 (log_data (fst ex_log) (snd ex_log))) = log_data (fst ex_log) (snd ex_log)"
proof -
  have "pl_size (fst ex_log) = 2097152" using ex_log(4) by (simp add: log_ident_def)
  then have "unat (pl_size (fst ex_log)) + unat (16 :: u64) < 2 ^ 64" by simp
  from pmemlog_walk_complete [OF ex_log(1) this, of "\<lambda>n c. (n + length c, True)" "0 :: nat"]
  show ?thesis by simp
qed

text \<open>
  C36: with a chunk size near the largest 64-bit value the offset wraps around, and the walk
  hands bytes to the callback that do not belong to the log: with chunk size \<open>2 ^ 64 - 1\<close>
  the second chunk starts with the last byte of the descriptor page, before the log.
\<close>

theorem pmemlog_walk_wraps:
  assumes "log_ready plp s" "log_data plp s \<noteq> []"
  shows "pmemlog_walk plp s (- 1) (\<lambda>cs c. (cs @ [c], length cs < 1)) [] =
    Some [log_data plp s, md_img s 8191 # log_data plp s]"
proof -
  let ?w = "log_field s LOG_WRITE_OFF" and ?f = "\<lambda>cs (c :: byte list). (cs @ [c], length cs < 1)"
  have im: "log_field s LOG_START_OFF = 8192" "8192 \<le> unat ?w" "\<not> pl_locked plp"
    using assms(1) by (simp_all add: log_ready_def log_image_def log_data_start word_le_nat_alt)
  have d: "log_data plp s = rd (md_img s) 8192 (unat ?w - 8192)" by (simp add: log_data_def log_data_start)
  have gt: "8192 < unat ?w" using assms(2) im(2) by (cases "unat ?w = 8192") (auto simp: d)
  then have lt: "8192 < ?w" "8191 < ?w" by (simp_all add: word_less_nat_alt)
  have mn: "min (- 1) (z :: u64) = z" for z by (rule min.absorb2) simp
  have u: "unat (?w - 8192) = unat ?w - 8192" "unat (?w - 8191) = Suc (unat ?w - 8192)"
    using gt by (simp_all add: unat_sub_small)
  have two: "rd (md_img s) 8191 (Suc (unat ?w - 8192)) = md_img s 8191 # log_data plp s"
    unfolding d by (rule nth_equalityI) (auto simp: nth_Cons split: nat.split)
  have "walk_loop (md_img s) (- 1) ?w ?f 8192 [] = walk_loop (md_img s) (- 1) ?w ?f 8191 [log_data plp s]"
    using lt(1) by (subst walk_loop.simps) (simp add: mn u(1) d)
  also have "\<dots> = Some [log_data plp s, md_img s 8191 # log_data plp s]"
    using lt(2) by (subst walk_loop.simps) (simp add: mn u(2) two)
  finally show ?thesis using im by (simp add: pmemlog_walk_def Let_def)
qed

lemma ex_log_appended:
  "\<exists>plp s. log_ready plp s \<and> log_data plp s = [1, 2, 3]"
proof -
  have "spec_run (log_spec (log_ident (fst ex_log))) [LogAppend [1, 2, 3]] (log_data (fst ex_log) (snd ex_log)) = ([Inr ()], [1, 2, 3])"
    by (simp add: ex_log(3,4) spec_append_def log_data_start)
  moreover obtain rs plp s where "run_ops log_step [LogAppend [1, 2, 3]] (fst ex_log) (snd ex_log) = (rs, plp, s)"
    by (metis prod_cases3)
  moreover from this have "powered s" using log_run_steady ex_log(2) steady_powered by metis
  ultimately show ?thesis
    using log_pool.run_refines [OF ex_log(1), of "[LogAppend [1, 2, 3]]" rs plp s] by (auto simp: run_outcome_def)
qed

theorem pmemlog_walk_wraps_witness:
  "\<exists>plp s. pmemlog_walk plp s (- 1) (\<lambda>cs c. (cs @ [c], length cs < 1)) [] = Some [[1, 2, 3], md_img s 8191 # [1, 2, 3]]"
proof -
  obtain plp s where p: "log_ready plp s" "log_data plp s = [1, 2, 3]" using ex_log_appended by blast
  then show ?thesis using pmemlog_walk_wraps [OF p(1)] by auto
qed

end
