(* ===== verification/Pmem.thy ===== *)
theory Pmem
  imports Medium
begin

text \<open>
  Persistent memory as a program sees it: loads see every store; a store is durable
  only after its cache lines are flushed and a drain has completed.  The pending
  stores are kept in program order, each with a flag that tells whether it has been
  flushed (\<open>pmemops_flush\<close>, non-temporal and write-combining copies).  On power loss any
  selection of the 8-byte words of the pending stores has reached the medium.
\<close>

type_synonym stores = "(nat \<times> byte list \<times> bool) list"

record pmem =
  pm_s :: medium
  pm_ps :: stores

definition plain :: "stores \<Rightarrow> pending" where
  "plain ps = map (\<lambda>(off, bs, f). (off, bs)) ps"

text \<open>What loads return.\<close>

definition vis :: "pmem \<Rightarrow> mem" where
  "vis u = wr_all (md_img (pm_s u)) (plain (pm_ps u))"

definition live :: "pmem \<Rightarrow> bool" where
  "live u \<longleftrightarrow> powered (pm_s u)"

definition pstore :: "bool \<Rightarrow> nat \<Rightarrow> byte list \<Rightarrow> pmem \<Rightarrow> (err + unit) \<times> pmem" where
  "pstore flushed off bs u =
     (let ps = pm_ps u @ [(off, bs, flushed)]
      in case tick (pm_s u) (plain ps) of (r, s) \<Rightarrow> (r, \<lparr> pm_s = s, pm_ps = (if r = Inr () then ps else []) \<rparr>))"

text \<open>
  A drain makes the flushed stores durable: a flushed line is written with the bytes it
  has now.  Stores that were not flushed stay pending.
\<close>

definition flushed_only :: "stores \<Rightarrow> pending" where
  "flushed_only ps = plain (filter (\<lambda>(off, bs, f). f) ps)"

definition drained_img :: "mem \<Rightarrow> stores \<Rightarrow> mem" where
  "drained_img m ps = (\<lambda>a. if covers (flushed_only ps) a then wr_all m (plain ps) a else m a)"

definition undrained :: "mem \<Rightarrow> stores \<Rightarrow> stores" where
  "undrained v ps = map (\<lambda>(off, bs, f). (off, rd v off (length bs), f)) (filter (\<lambda>(off, bs, f). \<not> f) ps)"

definition pdrain :: "pmem \<Rightarrow> (err + unit) \<times> pmem" where
  "pdrain u =
     (case tick (pm_s u) (plain (pm_ps u)) of
        (Inl e, s) \<Rightarrow> (Inl e, \<lparr> pm_s = s, pm_ps = [] \<rparr>)
      | (Inr _, s) \<Rightarrow>
          (Inr (), \<lparr> pm_s = s\<lparr>md_img := drained_img (md_img s) (pm_ps u)\<rparr>, pm_ps = undrained (vis u) (pm_ps u) \<rparr>))"

text \<open>A copy or store that is flushed and drained before the code goes on.\<close>

definition ppersist :: "nat \<Rightarrow> byte list \<Rightarrow> pmem \<Rightarrow> (err + unit) \<times> pmem" where
  "ppersist off bs u = bind_io (pstore True off bs u) (\<lambda>_. pdrain)"

section \<open>Loads see stores\<close>

lemma plain_append [simp]: "plain (ps @ qs) = plain ps @ plain qs"
  by (simp add: plain_def)

lemma plain_Cons [simp]: "plain ((off, bs, f) # ps) = (off, bs) # plain ps" "plain [] = []"
  by (simp_all add: plain_def)

lemma wr_all_append: "wr_all m (ps @ qs) = wr_all (wr_all m ps) qs"
  by (induction m ps rule: wr_all.induct) simp_all

lemma wr_all_cong: "m a = m' a \<Longrightarrow> wr_all m ps a = wr_all m' ps a"
proof (induction ps arbitrary: m m')
  case Nil
  then show ?case by simp
next
  case (Cons p ps)
  obtain off bs where p: "p = (off, bs)" by (cases p)
  have "wr m off bs a = wr m' off bs a" using Cons.prems by (simp add: wr_def)
  then show ?case unfolding p wr_all.simps by (rule Cons.IH)
qed

lemma wr_all_covered: "covers ps a \<Longrightarrow> wr_all m ps a = wr_all m' ps a"
proof (induction ps arbitrary: m m')
  case Nil
  then show ?case by simp
next
  case (Cons p ps)
  obtain off bs where p: "p = (off, bs)" by (cases p)
  show ?case
  proof (cases "covers ps a")
    case True
    then show ?thesis using Cons.IH by (simp add: p)
  next
    case False
    then have "off \<le> a \<and> a < off + length bs" using Cons.prems by (auto simp: covers_def p)
    then have "wr m off bs a = wr m' off bs a" by (simp add: wr_def)
    then show ?thesis unfolding p wr_all.simps by (rule wr_all_cong)
  qed
qed

lemma covers_append [simp]: "covers (ps @ qs) a \<longleftrightarrow> covers ps a \<or> covers qs a"
  by (auto simp: covers_def)

text \<open>Stores that hold the bytes of a memory \<open>v\<close> write those bytes.\<close>

lemma wr_all_same:
  assumes "\<forall>(off, bs) \<in> set ps. bs = rd v off (length bs)"
  shows "wr_all m ps a = (if covers ps a then v a else m a)"
  using assms
proof (induction ps arbitrary: m)
  case Nil
  then show ?case by simp
next
  case (Cons p ps)
  obtain off bs where p: "p = (off, bs)" by (cases p)
  have bs: "bs = rd v off (length bs)" using Cons.prems by (simp add: p)
  have w: "wr m off bs a = (if off \<le> a \<and> a < off + length bs then v a else m a)"
  proof (cases "off \<le> a \<and> a < off + length bs")
    case True
    then have "a - off < length bs" by arith
    then have "bs ! (a - off) = v (off + (a - off))" by (subst bs) (rule nth_rd)
    with True show ?thesis by (simp add: wr_def)
  qed (auto simp: wr_def)
  have "wr_all (wr m off bs) ps a = (if covers ps a then v a else wr m off bs a)"
    using Cons by (simp add: p)
  then show ?case by (auto simp: p w covers_def)
qed

lemma undrained_same: "\<forall>(off, bs) \<in> set (plain (undrained v ps)). bs = rd v off (length bs)"
  by (auto simp: undrained_def plain_def)

lemma covers_undrained: "covers (plain (undrained v ps)) a \<longleftrightarrow> covers (plain (filter (\<lambda>(off, bs, f). \<not> f) ps)) a"
  by (induction ps) (auto simp: undrained_def covers_def plain_def)

lemma covers_filter:
  "covers (plain ps) a \<longleftrightarrow> covers (flushed_only ps) a \<or> covers (plain (filter (\<lambda>(off, bs, f). \<not> f) ps)) a"
  by (induction ps) (auto simp: flushed_only_def covers_def plain_def)

lemma vis_drained:
  "wr_all (drained_img m ps) (plain (undrained (wr_all m (plain ps)) ps)) = wr_all m (plain ps)"
proof (rule ext)
  fix a
  let ?v = "wr_all m (plain ps)"
  have "wr_all (drained_img m ps) (plain (undrained ?v ps)) a =
      (if covers (plain (undrained ?v ps)) a then ?v a else drained_img m ps a)"
    by (rule wr_all_same [OF undrained_same])
  also have "\<dots> = ?v a"
    using covers_filter [of ps a] by (auto simp: covers_undrained drained_img_def wr_all_outside)
  finally show "wr_all (drained_img m ps) (plain (undrained ?v ps)) a = ?v a" .
qed

lemma pstore_cases:
  assumes "live u"
  obtains (ok) u' where "pstore f off bs u = (Inr (), u')" "live u'" "vis u' = wr (vis u) off bs"
      "md_img (pm_s u') = md_img (pm_s u)" "pm_ps u' = pm_ps u @ [(off, bs, f)]" "md_torn (pm_s u') = md_torn (pm_s u)"
      "md_power (pm_s u') = map_option (\<lambda>n. n - 1) (md_power (pm_s u))"
    | (torn) e u' where "pstore f off bs u = (Inl e, u')" "\<not> live u'"
      "md_img (pm_s u') = wr_some (md_torn (pm_s u)) (md_img (pm_s u)) (plain (pm_ps u @ [(off, bs, f)]))" "pm_ps u' = []"
      "md_power (pm_s u) = Some 1"
proof (cases rule: tick_cases [OF assms [unfolded live_def], of "plain (pm_ps u @ [(off, bs, f)])", case_names ok torn])
  case (ok s)
  then show ?thesis
    by (intro that(1) [of "\<lparr> pm_s = s, pm_ps = pm_ps u @ [(off, bs, f)] \<rparr>"])
      (simp_all add: pstore_def Let_def live_def vis_def wr_all_append)
next
  case (torn s)
  then show ?thesis
    by (intro that(2) [of POWERLOSS "\<lparr> pm_s = s, pm_ps = [] \<rparr>"]) (simp_all add: pstore_def Let_def live_def)
qed

lemma pdrain_cases:
  assumes "live u"
  obtains (ok) u' where "pdrain u = (Inr (), u')" "live u'" "vis u' = vis u"
      "md_img (pm_s u') = drained_img (md_img (pm_s u)) (pm_ps u)" "pm_ps u' = undrained (vis u) (pm_ps u)"
      "md_torn (pm_s u') = md_torn (pm_s u)"
      "md_power (pm_s u') = map_option (\<lambda>n. n - 1) (md_power (pm_s u))"
    | (torn) e u' where "pdrain u = (Inl e, u')" "\<not> live u'"
      "md_img (pm_s u') = wr_some (md_torn (pm_s u)) (md_img (pm_s u)) (plain (pm_ps u))" "pm_ps u' = []"
      "md_power (pm_s u) = Some 1"
proof (cases rule: tick_cases [OF assms [unfolded live_def], of "plain (pm_ps u)", case_names ok torn])
  case (ok s)
  then show ?thesis
    by (intro that(1) [of "\<lparr> pm_s = s\<lparr>md_img := drained_img (md_img s) (pm_ps u)\<rparr>, pm_ps = undrained (vis u) (pm_ps u) \<rparr>"])
      (simp_all add: pdrain_def live_def powered_def vis_drained, simp_all add: vis_def vis_drained)
next
  case (torn s)
  then show ?thesis
    by (intro that(2) [of POWERLOSS "\<lparr> pm_s = s, pm_ps = [] \<rparr>"]) (simp_all add: pdrain_def live_def)
qed

end
