(* ===== verification/Ulog.thy ===== *)
theory Ulog
  imports Pmem Checksum
begin

text \<open>
  The unified redo and undo log of libpmemobj (libpmemobj/ulog.c, ulog.h).  Addresses
  are offsets from the base of the pool, a pointer to a log or to an entry is such an
  offset, and NULL is \<open>None\<close>.  Loads go through \<open>vis\<close>; stores are flushed or not and wait
  for a drain as in the code.  Iterations over logs follow on-media links and sizes and
  may run forever: not returning is the outer \<open>None\<close>.  Callbacks (extend, free, user
  buffer removal, offset check) are arguments.
\<close>

section \<open>Layout\<close>

definition ULOG_OPERATION_SET :: u64 where "ULOG_OPERATION_SET = 0"
definition ULOG_OPERATION_AND :: u64 where "ULOG_OPERATION_AND = 0x2000000000000000"
definition ULOG_OPERATION_OR :: u64 where "ULOG_OPERATION_OR = 0x4000000000000000"
definition ULOG_OPERATION_BUF_SET :: u64 where "ULOG_OPERATION_BUF_SET = 0xA000000000000000"
definition ULOG_OPERATION_BUF_CPY :: u64 where "ULOG_OPERATION_BUF_CPY = 0xC000000000000000"
definition ULOG_OPERATION_MASK :: u64 where "ULOG_OPERATION_MASK = 0xE000000000000000"
definition ULOG_USER_OWNED :: u64 where "ULOG_USER_OWNED = 1"
definition ULOG_FREE_AFTER_FIRST :: u64 where "ULOG_FREE_AFTER_FIRST = 1"
definition ULOG_INC_FIRST_GEN_NUM :: u64 where "ULOG_INC_FIRST_GEN_NUM = 2"
definition ULOG_ANY_USER_BUFFER :: u64 where "ULOG_ANY_USER_BUFFER = 4"

definition CACHELINE_ALIGN :: "u64 \<Rightarrow> u64" where
  "CACHELINE_ALIGN n = roundup64 n 64"

definition ALIGN_DOWN :: "u64 \<Rightarrow> u64 \<Rightarrow> u64" where
  "ALIGN_DOWN n align = n AND NOT (align - 1)"

definition ld64 :: "mem \<Rightarrow> u64 \<Rightarrow> u64" where
  "ld64 m a = unle64 (rd m (unat a) 8)"

text \<open>The header fields of \<open>struct ulog\<close>: 64 bytes, then the data.\<close>

definition ulog_next_off :: "mem \<Rightarrow> u64 \<Rightarrow> u64" where "ulog_next_off m u = ld64 m (u + 8)"
definition ulog_cap :: "mem \<Rightarrow> u64 \<Rightarrow> u64" where "ulog_cap m u = ld64 m (u + 16)"
definition ulog_gen_num :: "mem \<Rightarrow> u64 \<Rightarrow> u64" where "ulog_gen_num m u = ld64 m (u + 24)"
definition ulog_flags :: "mem \<Rightarrow> u64 \<Rightarrow> u64" where "ulog_flags m u = ld64 m (u + 32)"
definition ulog_data :: "u64 \<Rightarrow> u64" where "ulog_data u = u + 64"

definition ulog_header :: "u64 \<Rightarrow> u64 \<Rightarrow> u64 \<Rightarrow> u64 \<Rightarrow> u64 \<Rightarrow> byte list" where
  "ulog_header checksum nxt capacity gen_num flags =
     le64 checksum @ le64 nxt @ le64 capacity @ le64 gen_num @ le64 flags @ replicate 24 0"

definition ulog_by_offset :: "u64 \<Rightarrow> u64 option" where
  "ulog_by_offset offset = (if offset = 0 then None else Some (CACHELINE_ALIGN offset))"

definition ulog_next :: "mem \<Rightarrow> u64 \<Rightarrow> u64 option" where
  "ulog_next m u = ulog_by_offset (ulog_next_off m u)"

section \<open>Entries\<close>

definition ulog_entry_type :: "mem \<Rightarrow> u64 \<Rightarrow> u64" where
  "ulog_entry_type m e = ld64 m e AND ULOG_OPERATION_MASK"

definition ulog_entry_offset :: "mem \<Rightarrow> u64 \<Rightarrow> u64" where
  "ulog_entry_offset m e = ld64 m e AND NOT ULOG_OPERATION_MASK"

definition is_val_type :: "u64 \<Rightarrow> bool" where
  "is_val_type t \<longleftrightarrow> t = ULOG_OPERATION_AND \<or> t = ULOG_OPERATION_OR \<or> t = ULOG_OPERATION_SET"

definition is_buf_type :: "u64 \<Rightarrow> bool" where
  "is_buf_type t \<longleftrightarrow> t = ULOG_OPERATION_BUF_SET \<or> t = ULOG_OPERATION_BUF_CPY"

definition ulog_entry_size :: "mem \<Rightarrow> u64 \<Rightarrow> u64" where
  "ulog_entry_size m e =
     (if is_val_type (ulog_entry_type m e) then 16
      else if is_buf_type (ulog_entry_type m e) then CACHELINE_ALIGN (24 + ld64 m (e + 16))
      else 0)"

text \<open>An entry of a buffer type carries a checksum over itself and the generation number of the first log.\<close>

definition entry_valid_gen :: "mem \<Rightarrow> byte list \<Rightarrow> u64 \<Rightarrow> bool" where
  "entry_valid_gen m gen_num e =
     (if ld64 m e = 0 then False
      else if is_buf_type (ulog_entry_type m e) then
        (case util_checksum_compute (rd m (unat e) (unat (ulog_entry_size m e))) 8 0 of
           Inl _ \<Rightarrow> False
         | Inr csum \<Rightarrow>
             (case util_checksum_seq gen_num csum of
                Inl _ \<Rightarrow> False
              | Inr csum' \<Rightarrow> ld64 m (e + 8) = csum'))
      else True)"

definition ulog_entry_valid :: "mem \<Rightarrow> u64 \<Rightarrow> u64 \<Rightarrow> bool" where
  "ulog_entry_valid m u e = entry_valid_gen m (rd m (unat (u + 24)) 8) e"

section \<open>Construction and iteration\<close>

text \<open>
  \<open>ulog_construct\<close>: the header, then the first entry header zeroed.  Without \<open>flush\<close> the
  stores are plain.
\<close>

definition ulog_construct :: "u64 \<Rightarrow> u64 \<Rightarrow> u64 \<Rightarrow> bool \<Rightarrow> u64 \<Rightarrow> pmem \<Rightarrow> (err + unit) \<times> pmem" where
  "ulog_construct offset capacity gen_num flush flags p =
     (case ulog_by_offset offset of
        None \<Rightarrow> (Inl ABORT, p)
      | Some u \<Rightarrow>
          (let diff = u - offset;
               capacity' = (if diff > 0 then ALIGN_DOWN (capacity - diff) 64 else capacity)
           in bind_io (pstore flush (unat u) (ulog_header 0 0 capacity' gen_num flags) p) (\<lambda>_.
                pstore flush (unat (ulog_data u)) (replicate 64 0))))"

text \<open>
  \<open>ulog_foreach_entry\<close>: \<open>gen p\<close> are the bytes of the generation number of the first log,
  which every validity check reads again.
\<close>

definition gen_of :: "u64 \<Rightarrow> pmem \<Rightarrow> byte list" where
  "gen_of u p = rd (vis p) (unat (u + 24)) 8"

partial_function (option) ulog_foreach_log ::
  "(u64 \<Rightarrow> pmem \<Rightarrow> (err + int) \<times> pmem) \<Rightarrow> (pmem \<Rightarrow> byte list) \<Rightarrow> u64 \<Rightarrow> u64 \<Rightarrow> pmem \<Rightarrow> ((err + int option) \<times> pmem) option" where
  "ulog_foreach_log cb gen r offset p =
     (if offset < ulog_cap (vis p) r then
        (let e = ulog_data r + offset
         in if \<not> entry_valid_gen (vis p) (gen p) e then Some (Inr (Some 0), p)
            else (case cb e p of
                    (Inl er, p1) \<Rightarrow> Some (Inl er, p1)
                  | (Inr ret, p1) \<Rightarrow>
                      (if ret \<noteq> 0 then Some (Inr (Some ret), p1)
                       else ulog_foreach_log cb gen r (offset + ulog_entry_size (vis p1) e) p1)))
      else Some (Inr None, p))"

partial_function (option) ulog_foreach_from ::
  "(u64 \<Rightarrow> pmem \<Rightarrow> (err + int) \<times> pmem) \<Rightarrow> (pmem \<Rightarrow> byte list) \<Rightarrow> u64 \<Rightarrow> pmem \<Rightarrow> ((err + int) \<times> pmem) option" where
  "ulog_foreach_from cb gen r p =
     Option.bind (ulog_foreach_log cb gen r 0 p) (\<lambda>(x, p1).
       (case x of
          Inl er \<Rightarrow> Some (Inl er, p1)
        | Inr (Some ret) \<Rightarrow> Some (Inr ret, p1)
        | Inr None \<Rightarrow>
            (case ulog_next (vis p1) r of
               None \<Rightarrow> Some (Inr 0, p1)
             | Some r1 \<Rightarrow> ulog_foreach_from cb gen r1 p1)))"

definition ulog_foreach_entry ::
  "u64 \<Rightarrow> (u64 \<Rightarrow> pmem \<Rightarrow> (err + int) \<times> pmem) \<Rightarrow> pmem \<Rightarrow> ((err + int) \<times> pmem) option" where
  "ulog_foreach_entry u cb p = ulog_foreach_from cb (gen_of u) u p"

partial_function (option) ulog_capacity :: "mem \<Rightarrow> u64 \<Rightarrow> u64 \<Rightarrow> u64 option" where
  "ulog_capacity m u capacity =
     (case ulog_next m u of
        None \<Rightarrow> Some capacity
      | Some u1 \<Rightarrow> ulog_capacity m u1 (capacity + ulog_cap m u1))"

partial_function (option) ulog_rebuild_next_vec :: "mem \<Rightarrow> u64 \<Rightarrow> u64 list \<Rightarrow> u64 list option" where
  "ulog_rebuild_next_vec m u nxt =
     (let nxt1 = (if ulog_next_off m u \<noteq> 0 then nxt @ [ulog_next_off m u] else nxt)
      in case ulog_next m u of
           None \<Rightarrow> Some nxt1
         | Some u1 \<Rightarrow> ulog_rebuild_next_vec m u1 nxt1)"

text \<open>\<open>ulog_reserve\<close>: \<open>extend_fn\<close> gets the address of the link it has to fill in.\<close>

fun reserve_last :: "mem \<Rightarrow> u64 list \<Rightarrow> u64 \<times> u64 \<Rightarrow> (u64 \<times> u64) option" where
  "reserve_last m [] (u, capacity) = Some (u, capacity)"
| "reserve_last m (offset # nxt) (u, capacity) =
     (case ulog_by_offset offset of
        None \<Rightarrow> None
      | Some u1 \<Rightarrow> reserve_last m nxt (u1, capacity + ulog_cap m u1))"

partial_function (option) reserve_loop ::
  "(u64 \<Rightarrow> u64 \<Rightarrow> pmem \<Rightarrow> (err + unit) \<times> pmem) \<Rightarrow> u64 \<Rightarrow> u64 \<Rightarrow> u64 \<Rightarrow> u64 \<Rightarrow> u64 list \<Rightarrow> pmem \<Rightarrow>
     ((err + u64) \<times> u64 list \<times> pmem) option" where
  "reserve_loop extend_fn gen_num new_capacity u capacity nxt p =
     (if capacity < new_capacity then
        (case extend_fn (u + 8) gen_num p of
           (Inl e, p1) \<Rightarrow> Some (Inl e, nxt, p1)
         | (Inr _, p1) \<Rightarrow>
             (case ulog_next (vis p1) u of
                None \<Rightarrow> Some (Inl ABORT, nxt, p1)
              | Some u1 \<Rightarrow>
                  reserve_loop extend_fn gen_num new_capacity u1 (capacity + ulog_cap (vis p1) u1)
                    (nxt @ [ulog_next_off (vis p1) u]) p1))
      else Some (Inr capacity, nxt, p))"

definition ulog_reserve ::
  "u64 \<Rightarrow> u64 \<Rightarrow> u64 \<Rightarrow> bool \<Rightarrow> u64 \<Rightarrow> (u64 \<Rightarrow> u64 \<Rightarrow> pmem \<Rightarrow> (err + unit) \<times> pmem) \<Rightarrow> u64 list \<Rightarrow> pmem \<Rightarrow>
     ((err + u64) \<times> u64 list \<times> pmem) option" where
  "ulog_reserve u base_nbytes gen_num auto_reserve new_capacity extend_fn nxt p =
     (if \<not> auto_reserve then Some (Inl FAIL, nxt, p)
      else (case reserve_last (vis p) nxt (u, base_nbytes) of
              None \<Rightarrow> Some (Inl ABORT, nxt, p)
            | Some (u1, capacity) \<Rightarrow> reserve_loop extend_fn gen_num new_capacity u1 capacity nxt p))"

section \<open>Storing a log\<close>

definition ulog_checksum :: "mem \<Rightarrow> u64 \<Rightarrow> u64 \<Rightarrow> bool \<Rightarrow> err + bool \<times> byte list" where
  "ulog_checksum m u base_bytes ins = util_checksum (rd m (unat u) (64 + unat base_bytes)) 0 ins 0"

text \<open>
  \<open>ulog_store\<close>: \<open>src\<close> is the transient log, which starts at address 0 of its memory; the
  parts beyond the base capacity go to the next logs first.
\<close>

fun store_next ::
  "mem \<Rightarrow> u64 list \<Rightarrow> u64 \<Rightarrow> u64 \<Rightarrow> pmem \<Rightarrow> (err + unit) \<times> pmem" where
  "store_next src nxt next_nbytes offset p =
     (if next_nbytes = 0 then (Inr (), p)
      else (case nxt of
              [] \<Rightarrow> (Inl ABORT, p)
            | n # nxt1 \<Rightarrow>
                (case ulog_by_offset n of
                   None \<Rightarrow> (Inl ABORT, p)
                 | Some u \<Rightarrow>
                     (let copy_nbytes = min next_nbytes (ulog_cap (vis p) u)
                      in bind_io (pstore True (unat (ulog_data u)) (rd src (64 + unat offset) (unat copy_nbytes)) p) (\<lambda>_.
                           store_next src nxt1 (next_nbytes - copy_nbytes) (offset + copy_nbytes))))))"

declare store_next.simps [simp del]

definition ulog_store ::
  "u64 \<Rightarrow> mem \<Rightarrow> u64 \<Rightarrow> u64 \<Rightarrow> u64 \<Rightarrow> u64 list \<Rightarrow> pmem \<Rightarrow> (err + mem) \<times> pmem" where
  "ulog_store dest src nbytes base_nbytes total_capacity nxt p =
     (let checksum_nbytes = min base_nbytes nbytes;
          nbytes1 = (if nbytes \<noteq> total_capacity then CACHELINE_ALIGN (nbytes + 8) else nbytes);
          base1 = min base_nbytes nbytes1;
          next_nbytes = nbytes1 - base1;
          old_capacity = ulog_cap src 0
      in bind_io (store_next src nxt next_nbytes base_nbytes p) (\<lambda>_ p1.
         bind_io (if next_nbytes \<noteq> 0 then pdrain p1 else (Inr (), p1)) (\<lambda>_ p2.
           (let src1 = wr (wr src 16 (le64 base1)) 8 (le64 (case nxt of [] \<Rightarrow> 0 | n # _ \<Rightarrow> n))
            in case ulog_checksum src1 0 checksum_nbytes True of
                 Inl e \<Rightarrow> (Inl e, p2)
               | Inr (_, bs) \<Rightarrow>
                   (let src2 = wr src1 0 bs
                    in bind_io (ppersist (unat dest) (rd src2 0 (64 + unat base1)) p2) (\<lambda>_ p3.
                         (Inr (wr src2 16 (le64 old_capacity)), p3)))))))"

section \<open>Creating entries\<close>

definition ulog_entry_val_create ::
  "u64 \<Rightarrow> u64 \<Rightarrow> u64 \<Rightarrow> u64 \<Rightarrow> u64 \<Rightarrow> pmem \<Rightarrow> (err + u64) \<times> pmem" where
  "ulog_entry_val_create u offset dest value type p =
     (let e = ulog_data u + offset
      in bind_io (pstore False (unat e) (le64 (dest OR type) @ le64 value @ le64 0) p) (\<lambda>_ p1. (Inr e, p1)))"

definition ulog_clobber_entry :: "u64 \<Rightarrow> pmem \<Rightarrow> (err + unit) \<times> pmem" where
  "ulog_clobber_entry e p = ppersist (unat e) (replicate 64 0) p"

text \<open>A checksum continued over further bytes (an \<open>abort\<close> cannot happen: the lengths are multiples of 64 or 8).\<close>

definition seq_opt :: "byte list \<Rightarrow> err + u64 \<Rightarrow> err + u64" where
  "seq_opt bs c = (case c of Inl e \<Rightarrow> Inl e | Inr csum \<Rightarrow> if bs = [] then Inr csum else util_checksum_seq bs csum)"

text \<open>
  \<open>ulog_entry_buf_create\<close>: the whole cache lines of the data after the first 40 bytes, the
  padded last line, then the first line with the header and the checksum.
\<close>

definition ulog_entry_buf_create ::
  "u64 \<Rightarrow> u64 \<Rightarrow> u64 \<Rightarrow> u64 \<Rightarrow> byte list \<Rightarrow> u64 \<Rightarrow> pmem \<Rightarrow> (err + u64) \<times> pmem" where
  "ulog_entry_buf_create u offset gen_num dest src type p =
     (let e = ulog_data u + offset;
          size = length src;
          ncopy = min size 40;
          remaining = size - ncopy;
          rcopy = 64 * (remaining div 64);
          lcopy = remaining - rcopy;
          mid = take rcopy (drop ncopy src);
          last = (if lcopy = 0 then [] else drop (ncopy + rcopy) src @ replicate (64 - lcopy) 0);
          line = (\<lambda>csum. le64 (dest OR type) @ le64 csum @ le64 (of_nat size) @ take ncopy src @ replicate (40 - ncopy) 0)
      in bind_io (if rcopy \<noteq> 0 then pstore True (unat e + 24 + ncopy) mid p else (Inr (), p)) (\<lambda>_ p1.
         bind_io (if lcopy \<noteq> 0 then pstore True (unat e + 24 + ncopy + rcopy) last p1 else (Inr (), p1)) (\<lambda>_ p2.
           (case seq_opt (le64 gen_num) (seq_opt last (seq_opt mid (util_checksum_seq (line 0) 0))) of
              Inl er \<Rightarrow> (Inl er, p2)
            | Inr csum \<Rightarrow>
                bind_io (pstore True (unat e) (line csum) p2) (\<lambda>_ p3.
                  bind_io (pdrain p3) (\<lambda>_ p4. (Inr e, p4)))))))"

section \<open>Applying entries\<close>

definition store_val :: "bool \<Rightarrow> u64 \<Rightarrow> u64 \<Rightarrow> pmem \<Rightarrow> (err + unit) \<times> pmem" where
  "store_val prst off v p =
     bind_io (pstore True (unat off) (le64 v) p) (\<lambda>_ p1. if prst then pdrain p1 else (Inr (), p1))"

text \<open>The entry is read from \<open>m\<close>: the pool, or the memory that holds a transient log.\<close>

definition ulog_entry_apply :: "mem \<Rightarrow> u64 \<Rightarrow> bool \<Rightarrow> pmem \<Rightarrow> (err + unit) \<times> pmem" where
  "ulog_entry_apply m e prst p =
     (let t = ulog_entry_type m e; off = ulog_entry_offset m e;
          value = ld64 m (e + 8); size = ld64 m (e + 16)
      in if t = ULOG_OPERATION_AND then store_val prst off (ld64 (vis p) off AND value) p
         else if t = ULOG_OPERATION_OR then store_val prst off (ld64 (vis p) off OR value) p
         else if t = ULOG_OPERATION_SET then store_val prst off value p
         else if t = ULOG_OPERATION_BUF_SET
           then pstore True (unat off) (replicate (unat size) (m (unat (e + 24)))) p
         else if t = ULOG_OPERATION_BUF_CPY
           then pstore True (unat off) (rd m (unat (e + 24)) (unat size)) p
         else (Inr (), p))"

definition ulog_process_entry :: "u64 \<Rightarrow> pmem \<Rightarrow> (err + int) \<times> pmem" where
  "ulog_process_entry e p = bind_io (ulog_entry_apply (vis p) e False p) (\<lambda>_ p1. (Inr 0, p1))"

definition ulog_inc_gen_num :: "u64 \<Rightarrow> bool \<Rightarrow> pmem \<Rightarrow> (err + unit) \<times> pmem" where
  "ulog_inc_gen_num u prst p =
     (let bs = le64 (ulog_gen_num (vis p) u + 1)
      in if prst then ppersist (unat (u + 24)) bs p else pstore False (unat (u + 24)) bs p)"

section \<open>Freeing and clobbering\<close>

type_synonym ulog_fn = "u64 \<Rightarrow> pmem \<Rightarrow> (err + unit) \<times> pmem"

text \<open>The inner loop of \<open>ulog_free_next\<close> that unpins user buffers after an internal log.\<close>

partial_function (option) unpin_users ::
  "ulog_fn \<Rightarrow> u64 \<Rightarrow> u64 option \<Rightarrow> bool \<Rightarrow> pmem \<Rightarrow> ((err + bool) \<times> pmem) option" where
  "unpin_users rm last_internal current ret p =
     (case current of
        None \<Rightarrow> Some (Inr ret, p)
      | Some c \<Rightarrow>
          (if ulog_flags (vis p) c AND ULOG_USER_OWNED = 0 then Some (Inr ret, p)
           else (case bind_io (ppersist (unat (last_internal + 8)) (le64 (ulog_next_off (vis p) c)) p) (\<lambda>_. rm c) of
                   (Inl e, p1) \<Rightarrow> Some (Inl e, p1)
                 | (Inr _, p1) \<Rightarrow>
                     unpin_users rm last_internal (ulog_by_offset (ulog_next_off (vis p1) last_internal)) True p1)))"

partial_function (option) unpin_loop ::
  "ulog_fn \<Rightarrow> u64 option \<Rightarrow> bool \<Rightarrow> pmem \<Rightarrow> ((err + bool) \<times> pmem) option" where
  "unpin_loop rm last_internal ret p =
     (case last_internal of
        None \<Rightarrow> Some (Inr ret, p)
      | Some l \<Rightarrow>
          (if ulog_next_off (vis p) l = 0 then Some (Inr ret, p)
           else Option.bind (unpin_users rm l (ulog_by_offset (ulog_next_off (vis p) l)) ret p) (\<lambda>(x, p1).
                  (case x of
                     Inl e \<Rightarrow> Some (Inl e, p1)
                   | Inr ret1 \<Rightarrow> unpin_loop rm (ulog_by_offset (ulog_next_off (vis p1) l)) ret1 p1))))"

text \<open>The addresses of the links from \<open>u\<close> on, in order.\<close>

partial_function (option) collect_links :: "mem \<Rightarrow> u64 \<Rightarrow> u64 list \<Rightarrow> u64 list option" where
  "collect_links m u links =
     (if ulog_next_off m u = 0 then Some links
      else (case ulog_by_offset (ulog_next_off m u) of
              None \<Rightarrow> Some links
            | Some u1 \<Rightarrow> collect_links m u1 (links @ [u + 8])))"

fun free_links :: "ulog_fn \<Rightarrow> u64 list \<Rightarrow> pmem \<Rightarrow> (err + unit) \<times> pmem" where
  "free_links free [] p = (Inr (), p)"
| "free_links free (l # links) p = bind_io (free l p) (\<lambda>_. free_links free links)"

definition ulog_free_next ::
  "u64 option \<Rightarrow> ulog_fn \<Rightarrow> ulog_fn \<Rightarrow> u64 \<Rightarrow> pmem \<Rightarrow> ((err + bool) \<times> pmem) option" where
  "ulog_free_next u free rm flags p =
     (case u of
        None \<Rightarrow> Some (Inr False, p)
      | Some u0 \<Rightarrow>
          Option.bind
            (if flags AND ULOG_ANY_USER_BUFFER \<noteq> 0 then unpin_loop rm (Some u0) False p else Some (Inr False, p))
            (\<lambda>(x, p1). case x of
               Inl e \<Rightarrow> Some (Inl e, p1)
             | Inr ret \<Rightarrow>
                 Option.bind (collect_links (vis p1) u0 []) (\<lambda>links.
                   Some (case free_links free (rev links) p1 of
                           (Inl e, p2) \<Rightarrow> (Inl e, p2)
                         | (Inr _, p2) \<Rightarrow> (Inr (ret \<or> links \<noteq> []), p2)))))"

definition ulog_clobber :: "u64 \<Rightarrow> u64 list option \<Rightarrow> pmem \<Rightarrow> (err + unit) \<times> pmem" where
  "ulog_clobber dest nxt p =
     ppersist (unat dest)
       (ulog_header 0 (case nxt of None \<Rightarrow> ulog_next_off (vis p) dest
                       | Some [] \<Rightarrow> 0 | Some (n # _) \<Rightarrow> n) 0 0 0) p"

definition ulog_clobber_data ::
  "u64 \<Rightarrow> u64 list \<Rightarrow> ulog_fn \<Rightarrow> ulog_fn \<Rightarrow> u64 \<Rightarrow> pmem \<Rightarrow> ((err + bool) \<times> pmem) option" where
  "ulog_clobber_data first nxt free rm flags p =
     (let second = ulog_by_offset (case nxt of [] \<Rightarrow> 0 | n # _ \<Rightarrow> n)
      in case bind_io (if flags AND ULOG_INC_FIRST_GEN_NUM \<noteq> 0 then ulog_inc_gen_num first True p else (Inr (), p)) (\<lambda>_ p1.
           (case second of
              Some u2 \<Rightarrow> if flags AND ULOG_FREE_AFTER_FIRST = 0 then ulog_inc_gen_num u2 False p1 else (Inr (), p1)
            | None \<Rightarrow> (Inr (), p1))) of
           (Inl e, p1) \<Rightarrow> Some (Inl e, p1)
         | (Inr _, p1) \<Rightarrow>
             (if flags AND ULOG_ANY_USER_BUFFER \<noteq> 0 \<and> second = None then Some (Inl ABORT, p1)
              else (let u = (if flags AND ULOG_ANY_USER_BUFFER \<noteq> 0 \<and> ulog_flags (vis p1) (the second) AND ULOG_USER_OWNED \<noteq> 0
                             then Some first
                             else if flags AND ULOG_FREE_AFTER_FIRST \<noteq> 0 then Some first else second)
                    in ulog_free_next u free rm flags p1)))"

section \<open>Recovery\<close>

definition ulog_process :: "u64 \<Rightarrow> pmem \<Rightarrow> ((err + int) \<times> pmem) option" where
  "ulog_process u p = ulog_foreach_entry u ulog_process_entry p"

partial_function (option) ulog_base_nbytes :: "mem \<Rightarrow> u64 \<Rightarrow> u64 \<Rightarrow> u64 option" where
  "ulog_base_nbytes m u offset =
     (if offset < ulog_cap m u then
        (let e = ulog_data u + offset
         in if \<not> ulog_entry_valid m u e then Some offset
            else ulog_base_nbytes m u (offset + ulog_entry_size m e))
      else Some offset)"

definition ulog_recovery_needed :: "mem \<Rightarrow> u64 \<Rightarrow> bool \<Rightarrow> (err + bool) option" where
  "ulog_recovery_needed m u verify_checksum =
     Option.bind (ulog_base_nbytes m u 0) (\<lambda>n.
       (let nbytes = min n (ulog_cap m u)
        in if nbytes = 0 then Some (Inr False)
           else if verify_checksum then
             Some (case ulog_checksum m u nbytes False of Inl e \<Rightarrow> Inl e | Inr (ok, _) \<Rightarrow> Inr ok)
           else Some (Inr True)))"

definition ulog_recover :: "u64 \<Rightarrow> pmem \<Rightarrow> ((err + unit) \<times> pmem) option" where
  "ulog_recover u p =
     Option.bind (ulog_recovery_needed (vis p) u True) (\<lambda>needed.
       (case needed of
          Inl e \<Rightarrow> Some (Inl e, p)
        | Inr False \<Rightarrow> Some (Inr (), p)
        | Inr True \<Rightarrow>
            Option.bind (ulog_process u p) (\<lambda>(x, p1).
              (case x of
                 Inl e \<Rightarrow> Some (Inl e, p1)
               | Inr _ \<Rightarrow> Some (ulog_clobber u None p1)))))"

text \<open>\<open>check\<close> decides whether an offset lies in the heap.\<close>

definition ulog_check_entry :: "(u64 \<Rightarrow> bool) \<Rightarrow> u64 \<Rightarrow> pmem \<Rightarrow> (err + int) \<times> pmem" where
  "ulog_check_entry check e p =
     (let offset = ulog_entry_offset (vis p) e
      in if \<not> check offset then (Inr (- 1), p) else (Inr (if offset = 0 then - 1 else 0), p))"

definition ulog_check :: "u64 \<Rightarrow> (u64 \<Rightarrow> bool) \<Rightarrow> pmem \<Rightarrow> ((err + int) \<times> pmem) option" where
  "ulog_check u check p = ulog_foreach_entry u (ulog_check_entry check) p"

end
