(* ===== verification/Redo.thy ===== *)
theory Redo
  imports Ulog
begin

text \<open>
  What a log means: the list of updates its entries describe, and their effect on every
  bit of the memory.  An update sets a bit or leaves it alone, whatever the bit was; so a
  memory in which every bit is the original one or one that some entry sets leads to the
  same result when the whole log is applied again.
\<close>

section \<open>Updates\<close>

datatype redo =
    RSet u64 u64
  | RAnd u64 u64
  | ROr u64 u64
  | RBufSet u64 byte nat
  | RBufCpy u64 "byte list"

primrec redo_off :: "redo \<Rightarrow> nat" where
  "redo_off (RSet off v) = unat off"
| "redo_off (RAnd off v) = unat off"
| "redo_off (ROr off v) = unat off"
| "redo_off (RBufSet off b n) = unat off"
| "redo_off (RBufCpy off bs) = unat off"

primrec redo_len :: "redo \<Rightarrow> nat" where
  "redo_len (RSet off v) = 8"
| "redo_len (RAnd off v) = 8"
| "redo_len (ROr off v) = 8"
| "redo_len (RBufSet off b n) = n"
| "redo_len (RBufCpy off bs) = length bs"

primrec redo_bytes :: "redo \<Rightarrow> mem \<Rightarrow> byte list" where
  "redo_bytes (RSet off v) m = le64 v"
| "redo_bytes (RAnd off v) m = le64 (ld64 m off AND v)"
| "redo_bytes (ROr off v) m = le64 (ld64 m off OR v)"
| "redo_bytes (RBufSet off b n) m = replicate n b"
| "redo_bytes (RBufCpy off bs) m = bs"

definition redo_apply :: "redo \<Rightarrow> mem \<Rightarrow> mem" where
  "redo_apply x m = wr m (redo_off x) (redo_bytes x m)"

definition redo_dom :: "redo \<Rightarrow> nat set" where
  "redo_dom x = {redo_off x..<redo_off x + redo_len x}"

text \<open>The value an update gives to bit \<open>n\<close> of byte \<open>a\<close>, or \<open>None\<close> if it keeps the bit.\<close>

primrec redo_bit :: "redo \<Rightarrow> nat \<Rightarrow> nat \<Rightarrow> bool option" where
  "redo_bit (RSet off v) i n = Some (bit (le64 v ! i) n)"
| "redo_bit (RAnd off v) i n = (if bit (le64 v ! i) n then None else Some False)"
| "redo_bit (ROr off v) i n = (if bit (le64 v ! i) n then Some True else None)"
| "redo_bit (RBufSet off b k) i n = Some (bit b n)"
| "redo_bit (RBufCpy off bs) i n = Some (bit (bs ! i) n)"

definition redo_eff :: "redo \<Rightarrow> nat \<Rightarrow> nat \<Rightarrow> bool option" where
  "redo_eff x a n = (if a \<in> redo_dom x then redo_bit x (a - redo_off x) n else None)"

lemma length_redo_bytes [simp]: "length (redo_bytes x m) = redo_len x"
  by (cases x) simp_all

lemma le_enc_nth: "i < k \<Longrightarrow> le_enc k x ! i = of_nat (x div 256 ^ i)"
  by (induction k arbitrary: x i) (auto simp: nth_Cons div_mult2_eq split: nat.split)

lemma bit_le64: "i < 8 \<Longrightarrow> bit (le64 v ! i) n \<longleftrightarrow> n < 8 \<and> bit v (8 * i + n)"
proof -
  assume i: "i < 8"
  have p: "(256 :: nat) ^ i = 2 ^ (8 * i)" by (simp add: power_mult)
  have "bit (unat v div 256 ^ i) n \<longleftrightarrow> bit v (8 * i + n)"
    unfolding p by (simp flip: drop_bit_eq_div add: bit_drop_bit_eq bit_unsigned_iff)
  with i show ?thesis by (simp add: le64_def le_enc_nth bit_of_nat_iff possible_bit_word)
qed

lemma nth_le64_ld64: "i < 8 \<Longrightarrow> le64 (ld64 m off) ! i = m (unat off + i)"
  by (simp add: ld64_def le_simps)

lemma redo_apply_bit:
  "bit (redo_apply x m a) n = (case redo_eff x a n of None \<Rightarrow> bit (m a) n | Some b \<Rightarrow> b)"
proof (cases "a \<in> redo_dom x")
  case False
  then show ?thesis by (auto simp: redo_apply_def redo_eff_def redo_dom_def wr_def)
next
  case True
  define i where "i = a - redo_off x"
  have a: "a = redo_off x + i" "i < redo_len x" using True by (auto simp: redo_dom_def i_def)
  have *: "redo_apply x m a = redo_bytes x m ! i" using a by (simp add: redo_apply_def wr_def)
  have "bit (redo_bytes x m ! i) n = (case redo_bit x i n of None \<Rightarrow> bit (m a) n | Some b \<Rightarrow> b)"
    using a
  proof (cases x)
    case (RAnd off v)
    then show ?thesis using a nth_le64_ld64 [of i m off, symmetric]
      by (auto simp: bit_le64 bit_and_iff)
  next
    case (ROr off v)
    then show ?thesis using a nth_le64_ld64 [of i m off, symmetric]
      by (auto simp: bit_le64 bit_or_iff)
  qed simp_all
  then show ?thesis unfolding * using True by (simp add: redo_eff_def i_def)
qed

section \<open>Runs of updates\<close>

primrec redo_run :: "redo list \<Rightarrow> mem \<Rightarrow> mem" where
  "redo_run [] m = m"
| "redo_run (x # xs) m = redo_run xs (redo_apply x m)"

primrec run_eff :: "redo list \<Rightarrow> nat \<Rightarrow> nat \<Rightarrow> bool option" where
  "run_eff [] a n = None"
| "run_eff (x # xs) a n = (case run_eff xs a n of Some b \<Rightarrow> Some b | None \<Rightarrow> redo_eff x a n)"

lemma redo_run_bit:
  "bit (redo_run xs m a) n = (case run_eff xs a n of None \<Rightarrow> bit (m a) n | Some b \<Rightarrow> b)"
  by (induction xs arbitrary: m) (auto simp: redo_apply_bit split: option.splits)

text \<open>What a run does to a byte depends on that byte only.\<close>

lemma redo_run_local: "m a = m' a \<Longrightarrow> redo_run xs m a = redo_run xs m' a"
  by (rule bit_word_eqI) (simp add: redo_run_bit split: option.split)

lemma run_eff_None: "run_eff xs a n = None \<longleftrightarrow> (\<forall>x \<in> set xs. redo_eff x a n = None)"
  by (induction xs) (auto split: option.splits)

lemma run_eff_Some: "run_eff xs a n = Some b \<Longrightarrow> \<exists>x \<in> set xs. redo_eff x a n = Some b"
  by (induction xs) (auto split: option.splits)

lemma redo_apply_outside: "a \<notin> redo_dom x \<Longrightarrow> redo_apply x m a = m a"
  by (auto simp: redo_apply_def redo_dom_def wr_def)

lemma redo_run_outside: "\<forall>x \<in> set xs. a \<notin> redo_dom x \<Longrightarrow> redo_run xs m a = m a"
  by (induction xs arbitrary: m) (simp_all add: redo_apply_outside)

lemma redo_run_append: "redo_run (xs @ ys) m = redo_run ys (redo_run xs m)"
  by (induction xs arbitrary: m) simp_all

text \<open>
  A byte of an interrupted run: each bit is the one it was at the start or one that an
  update gives it.
\<close>

definition mixed_byte :: "redo list \<Rightarrow> mem \<Rightarrow> nat \<Rightarrow> byte \<Rightarrow> bool" where
  "mixed_byte xs m0 a b \<longleftrightarrow>
     (\<forall>n. bit b n = bit (m0 a) n \<or> (\<exists>x \<in> set xs. redo_eff x a n = Some (bit b n)))"

definition mixed :: "redo list \<Rightarrow> mem \<Rightarrow> mem \<Rightarrow> bool" where
  "mixed xs m0 m \<longleftrightarrow> (\<forall>a. mixed_byte xs m0 a (m a))"

lemma mixed_refl [simp]: "mixed xs m m"
  by (simp add: mixed_def mixed_byte_def)

lemma mixed_bit:
  assumes "mixed xs m0 m" "\<forall>x \<in> set xs. redo_eff x a n = None"
  shows "bit (m a) n = bit (m0 a) n"
proof -
  have "bit (m a) n = bit (m0 a) n \<or> (\<exists>x \<in> set xs. redo_eff x a n = Some (bit (m a) n))"
    using assms(1) by (simp only: mixed_def mixed_byte_def)
  with assms(2) show ?thesis by auto
qed

lemma mixed_outside: "mixed xs m0 m \<Longrightarrow> \<forall>x \<in> set xs. a \<notin> redo_dom x \<Longrightarrow> m a = m0 a"
  by (rule bit_word_eqI, rule mixed_bit) (auto simp: redo_eff_def)

text \<open>Applying the whole log to a mixed memory gives what applying it once gives.\<close>

lemma redo_run_mixed:
  assumes "mixed xs m0 m"
  shows "redo_run xs m = redo_run xs m0"
proof (rule ext, rule bit_word_eqI)
  fix a n
  show "bit (redo_run xs m a) n = bit (redo_run xs m0 a) n"
  proof (cases "run_eff xs a n")
    case None
    then have "\<forall>x \<in> set xs. redo_eff x a n = None" by (simp add: run_eff_None)
    with assms have "bit (m a) n = bit (m0 a) n" by (rule mixed_bit)
    with None show ?thesis by (simp add: redo_run_bit)
  qed (simp add: redo_run_bit)
qed

lemma mixed_apply:
  assumes "mixed xs m0 m" "x \<in> set xs"
  shows "mixed xs m0 (redo_apply x m)"
  using assms by (auto simp: mixed_def mixed_byte_def redo_apply_bit split: option.split)

lemma mixed_bytes:
  assumes "mixed xs m0 m" "x \<in> set xs" "i < redo_len x"
  shows "mixed_byte xs m0 (redo_off x + i) (redo_bytes x m ! i)"
proof -
  have "redo_apply x m (redo_off x + i) = redo_bytes x m ! i"
    using assms(3) by (simp add: redo_apply_def wr_def)
  with mixed_apply [OF assms(1,2)] show ?thesis unfolding mixed_def by metis
qed

text \<open>Stores of such bytes, in part or as a whole.\<close>

definition mixed_stores :: "redo list \<Rightarrow> mem \<Rightarrow> pending \<Rightarrow> bool" where
  "mixed_stores xs m0 ps \<longleftrightarrow>
     (\<forall>(off, bs) \<in> set ps. \<forall>i < length bs. mixed_byte xs m0 (off + i) (bs ! i))"

lemma mixed_stores_simps [simp]:
  "mixed_stores xs m0 []"
  "mixed_stores xs m0 (ps @ qs) \<longleftrightarrow> mixed_stores xs m0 ps \<and> mixed_stores xs m0 qs"
  "mixed_stores xs m0 ((off, bs) # ps) \<longleftrightarrow>
     (\<forall>i < length bs. mixed_byte xs m0 (off + i) (bs ! i)) \<and> mixed_stores xs m0 ps"
  by (auto simp: mixed_stores_def)

lemma mixed_wr_torn:
  assumes "mixed xs m0 m" "\<forall>i < length bs. mixed_byte xs m0 (off + i) (bs ! i)"
  shows "mixed xs m0 (wr_torn sel m off bs)"
  unfolding mixed_def
proof
  fix a
  show "mixed_byte xs m0 a (wr_torn sel m off bs a)"
  proof (cases "off \<le> a \<and> a < off + length bs \<and> sel (a div 8)")
    case True
    then have "a - off < length bs" by arith
    then have "mixed_byte xs m0 (off + (a - off)) (bs ! (a - off))" using assms(2) by blast
    with True show ?thesis by (simp add: wr_torn_def)
  next
    case False
    then have "wr_torn sel m off bs a = m a" by (auto simp: wr_torn_def)
    then show ?thesis using assms(1) by (simp add: mixed_def)
  qed
qed

lemma mixed_wr_some: "mixed xs m0 m \<Longrightarrow> mixed_stores xs m0 ps \<Longrightarrow> mixed xs m0 (wr_some sel m ps)"
  by (induction sel m ps rule: wr_some.induct) (auto simp: mixed_wr_torn)

section \<open>The updates a log describes\<close>

lemmas entry_valid_defs = ulog_entry_valid_def entry_valid_gen_def


definition entry_at :: "mem \<Rightarrow> u64 \<Rightarrow> redo option" where
  "entry_at m e =
     (let t = ulog_entry_type m e; off = ulog_entry_offset m e;
          value = ld64 m (e + 8); n = unat (ld64 m (e + 16))
      in if t = ULOG_OPERATION_AND then Some (RAnd off value)
         else if t = ULOG_OPERATION_OR then Some (ROr off value)
         else if t = ULOG_OPERATION_SET then Some (RSet off value)
         else if t = ULOG_OPERATION_BUF_SET then Some (RBufSet off (m (unat (e + 24))) n)
         else if t = ULOG_OPERATION_BUF_CPY then Some (RBufCpy off (rd m (unat (e + 24)) n))
         else None)"

text \<open>The bytes that the code reads of a log header and of an entry.\<close>

definition word_at :: "u64 \<Rightarrow> nat set" where
  "word_at a = {unat a..<unat a + 8}"

definition head_reads :: "u64 \<Rightarrow> nat set" where
  "head_reads r = word_at (r + 8) \<union> word_at (r + 16)"

definition entry_reads :: "mem \<Rightarrow> u64 \<Rightarrow> nat set" where
  "entry_reads m e =
     word_at e \<union>
     (if ld64 m e = 0 then {}
      else word_at (e + 8) \<union>
        (if is_buf_type (ulog_entry_type m e)
         then word_at (e + 16) \<union> {unat (e + 24)..<unat (e + 24) + max 1 (unat (ld64 m (e + 16)))} \<union>
              {unat e..<unat e + unat (ulog_entry_size m e)}
         else {}))"

text \<open>
  \<open>log_holds A m u r offset xs\<close>: the iteration over the log \<open>u\<close>, from \<open>offset\<close> in its
  extension \<open>r\<close> on, meets exactly the updates \<open>xs\<close>, ends, and reads bytes of \<open>A\<close> only.
\<close>

inductive log_holds :: "nat set \<Rightarrow> mem \<Rightarrow> u64 \<Rightarrow> u64 \<Rightarrow> u64 \<Rightarrow> redo list \<Rightarrow> bool" for A m u where
  holds_end: "log_holds A m u r offset []"
    if "head_reads r \<subseteq> A" "\<not> offset < ulog_cap m r" "ulog_next m r = None"
| holds_next: "log_holds A m u r offset xs"
    if "head_reads r \<subseteq> A" "\<not> offset < ulog_cap m r" "ulog_next m r = Some r1" "log_holds A m u r1 0 xs"
| holds_stop: "log_holds A m u r offset []"
    if "head_reads r \<subseteq> A" "offset < ulog_cap m r" "entry_reads m (ulog_data r + offset) \<subseteq> A"
      "\<not> ulog_entry_valid m u (ulog_data r + offset)"
| holds_entry: "log_holds A m u r offset (x # xs)"
    if "head_reads r \<subseteq> A" "offset < ulog_cap m r" "entry_reads m (ulog_data r + offset) \<subseteq> A"
      "ulog_entry_valid m u (ulog_data r + offset)" "entry_at m (ulog_data r + offset) = Some x"
      "log_holds A m u r (offset + ulog_entry_size m (ulog_data r + offset)) xs"

inductive_cases log_holds_cases: "log_holds A m u r offset xs"

definition agree :: "nat set \<Rightarrow> mem \<Rightarrow> mem \<Rightarrow> bool" where
  "agree A m m' \<longleftrightarrow> (\<forall>a \<in> A. m' a = m a)"

lemma agree_refl [simp]: "agree A m m"
  by (simp add: agree_def)

lemma agree_rd: "agree A m m' \<Longrightarrow> {off..<off + n} \<subseteq> A \<Longrightarrow> rd m' off n = rd m off n"
  by (rule rd_eqI) (simp add: agree_def subset_iff)

lemma agree_ld64: "agree A m m' \<Longrightarrow> word_at a \<subseteq> A \<Longrightarrow> ld64 m' a = ld64 m a"
  unfolding ld64_def word_at_def by (simp add: agree_rd)

lemma agree_head:
  assumes "agree A m m'" "head_reads r \<subseteq> A"
  shows "ulog_cap m' r = ulog_cap m r" "ulog_next m' r = ulog_next m r"
  using assms by (simp_all add: head_reads_def ulog_cap_def ulog_next_def ulog_next_off_def agree_ld64)

lemma agree_entry:
  assumes "agree A m m'" "entry_reads m e \<subseteq> A"
  shows "word_at (u + 24) \<subseteq> A \<Longrightarrow> ulog_entry_valid m' u e = ulog_entry_valid m u e"
    and "ld64 m e \<noteq> 0 \<Longrightarrow> ulog_entry_size m' e = ulog_entry_size m e"
    and "ld64 m e \<noteq> 0 \<Longrightarrow> entry_at m' e = entry_at m e"
    and "entry_reads m' e = entry_reads m e"
proof -
  have h: "ld64 m' e = ld64 m e" using assms by (intro agree_ld64) (auto simp: entry_reads_def)
  then have t: "ulog_entry_type m' e = ulog_entry_type m e" "ulog_entry_offset m' e = ulog_entry_offset m e"
    by (simp_all add: ulog_entry_type_def ulog_entry_offset_def)
  have buf: "ld64 m' (e + 16) = ld64 m (e + 16)"
    "rd m' (unat (e + 24)) (unat (ld64 m (e + 16))) = rd m (unat (e + 24)) (unat (ld64 m (e + 16)))"
    "m' (unat (e + 24)) = m (unat (e + 24))"
    "rd m' (unat e) (unat (ulog_entry_size m e)) = rd m (unat e) (unat (ulog_entry_size m e))"
    if "ld64 m e \<noteq> 0" "is_buf_type (ulog_entry_type m e)"
  proof -
    have s: "word_at (e + 16) \<subseteq> A" "{unat (e + 24)..<unat (e + 24) + max 1 (unat (ld64 m (e + 16)))} \<subseteq> A"
      "{unat e..<unat e + unat (ulog_entry_size m e)} \<subseteq> A"
      using that assms(2) by (simp_all add: entry_reads_def)
    show "ld64 m' (e + 16) = ld64 m (e + 16)" by (rule agree_ld64 [OF assms(1) s(1)])
    show "rd m' (unat (e + 24)) (unat (ld64 m (e + 16))) = rd m (unat (e + 24)) (unat (ld64 m (e + 16)))"
      using s(2) by (intro agree_rd [OF assms(1)]) (auto simp: subset_iff)
    show "m' (unat (e + 24)) = m (unat (e + 24))" using assms(1) s(2) by (simp add: agree_def subset_iff)
    show "rd m' (unat e) (unat (ulog_entry_size m e)) = rd m (unat e) (unat (ulog_entry_size m e))"
      by (rule agree_rd [OF assms(1) s(3)])
  qed
  have v: "ld64 m' (e + 8) = ld64 m (e + 8)" if "ld64 m e \<noteq> 0"
    using that assms(2) by (intro agree_ld64 [OF assms(1)]) (auto simp: entry_reads_def)
  show sz: "ulog_entry_size m' e = ulog_entry_size m e" if "ld64 m e \<noteq> 0"
    using that by (simp add: ulog_entry_size_def t buf)
  have g: "rd m' (unat (u + 24)) 8 = rd m (unat (u + 24)) 8"
    if "word_at (u + 24) \<subseteq> A" using that by (intro agree_rd [OF assms(1)]) (simp add: word_at_def)
  show "ulog_entry_valid m' u e = ulog_entry_valid m u e" if "word_at (u + 24) \<subseteq> A"
    by (cases "ld64 m e = 0"; cases "is_buf_type (ulog_entry_type m e)")
      (simp_all add: entry_valid_defs h t sz buf g [OF that] v cong: sum.case_cong)
  show "entry_at m' e = entry_at m e" if "ld64 m e \<noteq> 0"
  proof (cases "is_buf_type (ulog_entry_type m e)")
    case True
    then show ?thesis using buf [OF that True] v [OF that] by (simp add: entry_at_def t Let_def)
  next
    case False
    then show ?thesis using that by (simp add: entry_at_def t v Let_def is_buf_type_def)
  qed
  show "entry_reads m' e = entry_reads m e"
    by (cases "ld64 m e = 0"; cases "is_buf_type (ulog_entry_type m e)")
      (simp_all add: entry_reads_def h t sz buf)
qed

lemma log_holds_agree:
  assumes "log_holds A m u r offset xs" "agree A m m'" "word_at (u + 24) \<subseteq> A"
  shows "log_holds A m' u r offset xs"
  using assms(1)
proof induction
  case (holds_end r offset)
  then show ?case using assms(2) by (intro log_holds.holds_end) (simp_all add: agree_head)
next
  case (holds_next r offset r1 xs)
  then show ?case using assms(2) by (intro log_holds.holds_next [of r A]) (simp_all add: agree_head)
next
  case (holds_stop r offset)
  then show ?case using assms(2,3) by (intro log_holds.holds_stop) (simp_all add: agree_head agree_entry)
next
  case (holds_entry r offset x xs)
  then have "ld64 m (ulog_data r + offset) \<noteq> 0" by (auto simp: entry_valid_defs)
  with holds_entry assms(2,3) show ?case
    by (intro log_holds.holds_entry) (simp_all add: agree_head agree_entry)
qed

lemmas agree_simps = agree_head agree_entry agree_ld64

section \<open>Processing a log\<close>

lemma bind_io_unit: "bind_io q (\<lambda>_ s. (Inr (), s)) = q" for q :: "(err + unit) \<times> 's"
  by (cases q; cases "fst q") auto

lemma entry_at_Some_valid_type: "entry_at m e = Some x \<Longrightarrow> is_val_type (ulog_entry_type m e) \<or> is_buf_type (ulog_entry_type m e)"
  by (auto simp: entry_at_def is_val_type_def is_buf_type_def Let_def split: if_splits)

lemma ulog_entry_apply_redo:
  assumes "entry_at m e = Some x"
  shows "ulog_entry_apply m e False p = pstore True (redo_off x) (redo_bytes x (vis p)) p"
  using assms
  by (auto simp: entry_at_def ulog_entry_apply_def store_val_def bind_io_unit Let_def split: if_splits)

lemma entry_valid_gen_of: "entry_valid_gen (vis p) (gen_of u p) e = ulog_entry_valid (vis p) u e"
  by (simp add: ulog_entry_valid_def gen_of_def)

text \<open>The iteration from an offset inside a log.\<close>

definition foreach_at ::
  "(u64 \<Rightarrow> pmem \<Rightarrow> (err + int) \<times> pmem) \<Rightarrow> (pmem \<Rightarrow> byte list) \<Rightarrow> u64 \<Rightarrow> u64 \<Rightarrow> pmem \<Rightarrow> ((err + int) \<times> pmem) option" where
  "foreach_at cb gen r offset p =
     Option.bind (ulog_foreach_log cb gen r offset p) (\<lambda>(x, p1).
       (case x of
          Inl er \<Rightarrow> Some (Inl er, p1)
        | Inr (Some ret) \<Rightarrow> Some (Inr ret, p1)
        | Inr None \<Rightarrow>
            (case ulog_next (vis p1) r of
               None \<Rightarrow> Some (Inr 0, p1)
             | Some r1 \<Rightarrow> ulog_foreach_from cb gen r1 p1)))"

lemma ulog_foreach_from_at: "ulog_foreach_from cb gen r p = foreach_at cb gen r 0 p"
  by (subst ulog_foreach_from.simps) (simp add: foreach_at_def)

lemma foreach_at_end:
  "\<not> offset < ulog_cap (vis p) r \<Longrightarrow>
   foreach_at cb gen r offset p =
     (case ulog_next (vis p) r of None \<Rightarrow> Some (Inr 0, p) | Some r1 \<Rightarrow> foreach_at cb gen r1 0 p)"
  by (simp add: foreach_at_def [of cb gen r] ulog_foreach_log.simps [of cb gen r] ulog_foreach_from_at split: option.split)

lemma foreach_at_stop:
  "offset < ulog_cap (vis p) r \<Longrightarrow> \<not> entry_valid_gen (vis p) (gen p) (ulog_data r + offset) \<Longrightarrow>
   foreach_at cb gen r offset p = Some (Inr 0, p)"
  by (simp add: foreach_at_def ulog_foreach_log.simps [of cb gen r])

lemma foreach_at_entry:
  "offset < ulog_cap (vis p) r \<Longrightarrow> entry_valid_gen (vis p) (gen p) (ulog_data r + offset) \<Longrightarrow>
   foreach_at cb gen r offset p =
     (case cb (ulog_data r + offset) p of
        (Inl er, p1) \<Rightarrow> Some (Inl er, p1)
      | (Inr ret, p1) \<Rightarrow>
          (if ret \<noteq> 0 then Some (Inr ret, p1)
           else foreach_at cb gen r (offset + ulog_entry_size (vis p1) (ulog_data r + offset)) p1))"
  by (simp add: foreach_at_def ulog_foreach_log.simps [of cb gen r offset] Let_def split: prod.split sum.split)

text \<open>
  How processing the updates \<open>xs\<close> of a log ends: all are visible and their stores wait
  for a drain, or power failed and some words of the stores made so far are on the medium.
\<close>

definition applied :: "redo list \<Rightarrow> mem \<Rightarrow> redo list \<Rightarrow> pmem \<Rightarrow> err + int \<Rightarrow> pmem \<Rightarrow> bool" where
  "applied all m0 xs p r p' \<longleftrightarrow>
     (\<exists>qs. mixed_stores all m0 (plain qs) \<and> (\<forall>(off, bs, f) \<in> set qs. f) \<and>
       (r = Inr 0 \<and> live p' \<and> vis p' = redo_run xs (vis p) \<and> md_img (pm_s p') = md_img (pm_s p) \<and>
          md_torn (pm_s p') = md_torn (pm_s p) \<and> pm_ps p' = pm_ps p @ qs \<and> length qs = length xs \<and>
          md_power (pm_s p') = map_option (\<lambda>n. n - length xs) (md_power (pm_s p)) \<or>
        (\<exists>e. r = Inl e \<and> (\<exists>n \<le> length xs. md_power (pm_s p) = Some n) \<and> \<not> live p' \<and> pm_ps p' = [] \<and>
          md_img (pm_s p') = wr_some (md_torn (pm_s p)) (md_img (pm_s p)) (plain (pm_ps p @ qs)))))"

text \<open>One entry.\<close>

lemma apply_entry_cases:
  assumes e: "entry_at em e = Some x" and p: "live p" "mixed all m0 (vis p)" and x: "x \<in> set all"
  obtains (ok) p1 where "ulog_entry_apply em e False p = (Inr (), p1)" "live p1" "vis p1 = redo_apply x (vis p)"
      "mixed all m0 (vis p1)" "\<forall>xs y p'. applied all m0 xs p1 y p' \<longrightarrow> applied all m0 (x # xs) p y p'"
    | (torn) er p1 where "ulog_entry_apply em e False p = (Inl er, p1)" "\<forall>xs. applied all m0 (x # xs) p (Inl er) p1"
proof -
  let ?q = "(redo_off x, redo_bytes x (vis p), True)"
  have st: "mixed_stores all m0 [(redo_off x, redo_bytes x (vis p))]"
    using mixed_bytes [OF p(2) x] by simp
  show ?thesis
  proof (cases rule: pstore_cases [OF p(1), of True "redo_off x" "redo_bytes x (vis p)", case_names ok torn])
    case (torn er p1)
    then have "applied all m0 (x # xs) p (Inl er) p1" for xs
      unfolding applied_def using st by (intro exI [of _ "[?q]"]) simp
    with torn show ?thesis by (intro that(2) [of er p1]) (simp_all add: ulog_entry_apply_redo [OF e])
  next
    case (ok p1)
    have v1: "vis p1 = redo_apply x (vis p)" by (simp add: ok redo_apply_def)
    have "applied all m0 (x # xs) p y p'" if ap: "applied all m0 xs p1 y p'" for xs y p'
    proof -
      obtain qs where "mixed_stores all m0 (plain qs)" "\<forall>(off, bs, f) \<in> set qs. f" and
        "y = Inr 0 \<and> live p' \<and> vis p' = redo_run xs (vis p1) \<and> md_img (pm_s p') = md_img (pm_s p1) \<and>
            md_torn (pm_s p') = md_torn (pm_s p1) \<and> pm_ps p' = pm_ps p1 @ qs \<and> length qs = length xs \<and>
            md_power (pm_s p') = map_option (\<lambda>n. n - length xs) (md_power (pm_s p1)) \<or>
          (\<exists>e. y = Inl e \<and> (\<exists>n \<le> length xs. md_power (pm_s p1) = Some n) \<and> \<not> live p' \<and> pm_ps p' = [] \<and>
            md_img (pm_s p') = wr_some (md_torn (pm_s p1)) (md_img (pm_s p1)) (plain (pm_ps p1 @ qs)))"
        using ap unfolding applied_def by blast
      then show ?thesis
        unfolding applied_def using st ok by (intro exI [of _ "?q # qs"]) (auto simp: v1 option.map_comp comp_def)
    qed
    with ok v1 show ?thesis using mixed_apply [OF p(2) x]
      by (intro that(1) [of p1]) (simp_all add: ulog_entry_apply_redo [OF e])
  qed
qed

lemma foreach_process:
  assumes "log_holds A m u r offset xs" "word_at (u + 24) \<subseteq> A" "\<forall>x \<in> set all. redo_dom x \<inter> A = {}"
    and "live p" "agree A m (vis p)" "set xs \<subseteq> set all" "mixed all m0 (vis p)"
  shows "\<exists>y p'. foreach_at ulog_process_entry (gen_of u) r offset p = Some (y, p') \<and> applied all m0 xs p y p'"
  using assms(1,4-)
proof (induction arbitrary: p)
  case (holds_end r offset)
  then have "foreach_at ulog_process_entry (gen_of u) r offset p = Some (Inr 0, p)"
    by (simp add: foreach_at_end agree_simps [OF holds_end(5)])
  then show ?case using holds_end.prems by (auto simp: applied_def option.map_ident intro: exI [of _ "[]"])
next
  case (holds_next r offset r1 xs)
  then have "foreach_at ulog_process_entry (gen_of u) r offset p = foreach_at ulog_process_entry (gen_of u) r1 0 p"
    by (simp add: foreach_at_end agree_simps [OF holds_next(7)])
  then show ?case using holds_next by simp
next
  case (holds_stop r offset)
  then have "foreach_at ulog_process_entry (gen_of u) r offset p = Some (Inr 0, p)"
    by (intro foreach_at_stop) (simp_all add: entry_valid_gen_of agree_simps [OF holds_stop(6)] assms(2))
  then show ?case using holds_stop.prems by (auto simp: applied_def option.map_ident intro: exI [of _ "[]"])
next
  case (holds_entry r offset x xs)
  let ?e = "ulog_data r + offset"
  note ag = \<open>agree A m (vis p)\<close>
  have nz: "ld64 m ?e \<noteq> 0" using holds_entry(4) by (auto simp: entry_valid_defs)
  have e: "entry_at (vis p) ?e = Some x" "entry_valid_gen (vis p) (gen_of u p) ?e" "offset < ulog_cap (vis p) r"
    using holds_entry nz by (simp_all add: entry_valid_gen_of agree_simps [OF ag] assms(2))
  note step = foreach_at_entry [where gen = "gen_of u" and cb = ulog_process_entry, OF e(3,2)]
  have x: "x \<in> set all" using holds_entry.prems by simp
  show ?case
  proof (cases rule: apply_entry_cases [OF e(1) holds_entry.prems(1,4) x, case_names ok torn])
    case (torn er p1)
    then have "ulog_process_entry ?e p = (Inl er, p1)" by (simp add: ulog_process_entry_def)
    then show ?thesis using torn(2) by (simp add: step)
  next
    case (ok p1)
    have "agree A (vis p) (vis p1)"
      using assms(3) x unfolding ok(3) agree_def by (auto intro!: redo_apply_outside)
    then have ag1: "agree A m (vis p1)" using ag by (simp add: agree_def)
    obtain y p' where IH: "foreach_at ulog_process_entry (gen_of u) r (offset + ulog_entry_size m ?e) p1 = Some (y, p')"
        "applied all m0 xs p1 y p'"
      using holds_entry.IH [OF ok(2) ag1] holds_entry.prems ok(4) by auto
    have sz: "ulog_entry_size (vis p1) ?e = ulog_entry_size m ?e"
      using holds_entry nz by (simp add: agree_simps [OF ag1] assms(2))
    have "ulog_process_entry ?e p = (Inr 0, p1)" by (simp add: ulog_process_entry_def ok(1))
    then show ?thesis using IH ok(5) by (simp add: step sz)
  qed
qed

end
