(* ===== verification/Redo_Recovery.thy ===== *)
theory Redo_Recovery
  imports Redo
begin

text \<open>
  Recovery from a redo log (\<open>ulog_recover\<close>): its updates are applied and the log is
  emptied; a recovery that power failure interrupts can be restarted any number of times
  as long as the log header is still on the medium.
\<close>

section \<open>When recovery is needed\<close>

lemma ulog_base_nbytes_agree:
  assumes "log_holds A m u r offset xs" "agree A m m'" "word_at (u + 24) \<subseteq> A"
  shows "r = u \<longrightarrow> ulog_base_nbytes m' u offset = ulog_base_nbytes m u offset"
  using assms(1)
proof induction
  case (holds_end r offset)
  then show ?case by (intro impI) (simp add: ulog_base_nbytes.simps [of _ u offset] agree_head [OF assms(2)])
next
  case (holds_next r offset r1 xs)
  then show ?case by (intro impI) (simp add: ulog_base_nbytes.simps [of _ u offset] agree_head [OF assms(2)])
next
  case (holds_stop r offset)
  then show ?case
    by (intro impI) (simp add: ulog_base_nbytes.simps [of _ u offset] agree_simps [OF assms(2)] assms(3))
next
  case (holds_entry r offset x xs)
  then have "ld64 m (ulog_data r + offset) \<noteq> 0" by (auto simp: entry_valid_defs)
  with holds_entry show ?case
    by (intro impI) (simp add: ulog_base_nbytes.simps [of _ u offset] agree_simps [OF assms(2)] assms(3) Let_def)
qed

text \<open>
  A redo log at \<open>u\<close> with the updates \<open>xs\<close>: it lies in \<open>A\<close>, the updates are elsewhere, and
  its checksum is right.
\<close>

definition redo_log :: "nat set \<Rightarrow> mem \<Rightarrow> u64 \<Rightarrow> redo list \<Rightarrow> bool" where
  "redo_log A m u xs \<longleftrightarrow>
     log_holds A m u u 0 xs \<and> (\<forall>x \<in> set xs. redo_dom x \<inter> A = {}) \<and>
     unat u + 64 < 2 ^ 64 \<and> {unat u..<unat u + 64} \<subseteq> A \<and>
     (\<exists>n. ulog_base_nbytes m u 0 = Some n \<and>
        {unat u..<unat u + (64 + unat (min n (ulog_cap m u)))} \<subseteq> A) \<and>
     ulog_recovery_needed m u True = Some (Inr True)"

lemma header_words:
  assumes "unat u + 64 < 2 ^ 64" "{unat u..<unat u + 64} \<subseteq> A"
  shows "word_at (u + 8) \<subseteq> A" "word_at (u + 16) \<subseteq> A" "word_at (u + 24) \<subseteq> A" "head_reads u \<subseteq> A"
proof -
  have "unat (u + of_nat k) = unat u + k" if "k \<le> 24" for k
    using that assms(1) by (subst unat_add_small) (simp_all add: unat_of_nat_small)
  from this [of 8] this [of 16] this [of 24] assms(2)
  show "word_at (u + 8) \<subseteq> A" "word_at (u + 16) \<subseteq> A" "word_at (u + 24) \<subseteq> A" "head_reads u \<subseteq> A"
    by (auto simp: word_at_def head_reads_def subset_iff)
qed

lemma redo_log_agree:
  assumes "redo_log A m u xs" "agree A m m'"
  shows "redo_log A m' u xs"
proof -
  have u: "log_holds A m u u 0 xs" "unat u + 64 < 2 ^ 64" "{unat u..<unat u + 64} \<subseteq> A"
    using assms(1) by (simp_all add: redo_log_def)
  note w = header_words(3,4) [OF u(2,3)]
  have l: "log_holds A m' u u 0 xs" by (rule log_holds_agree [OF u(1) assms(2) w(1)])
  have b: "ulog_base_nbytes m' u 0 = ulog_base_nbytes m u 0"
    using ulog_base_nbytes_agree [OF u(1) assms(2) w(1)] by simp
  have c: "ulog_cap m' u = ulog_cap m u" by (rule agree_head [OF assms(2) w(2)])
  obtain n where n: "ulog_base_nbytes m u 0 = Some n" "{unat u..<unat u + (64 + unat (min n (ulog_cap m u)))} \<subseteq> A"
    using assms(1) unfolding redo_log_def by blast
  have "ulog_checksum m' u (min n (ulog_cap m u)) False = ulog_checksum m u (min n (ulog_cap m u)) False"
    unfolding ulog_checksum_def using agree_rd [OF assms(2) n(2)] by simp
  then have "ulog_recovery_needed m' u True = ulog_recovery_needed m u True"
    by (simp add: ulog_recovery_needed_def b c n(1) Let_def)
  with l b c show ?thesis using assms(1) by (simp add: redo_log_def)
qed

lemma redo_log_mixed:
  assumes "redo_log A m u xs" "mixed xs m m'"
  shows "redo_log A m' u xs"
proof (rule redo_log_agree [OF assms(1)])
  have "m' a = m a" if "a \<in> A" for a
    using that assms by (intro mixed_outside [of xs]) (auto simp: redo_log_def)
  then show "agree A m m'" by (simp add: agree_def)
qed

section \<open>The outcome of a recovery\<close>

lemma wr_some_append:
  "wr_some sel m (ps @ qs) = wr_some (\<lambda>i. sel (length ps + i)) (wr_some sel m ps) qs"
  by (induction sel m ps rule: wr_some.induct) simp_all

lemma length_plain [simp]: "length (plain ps) = length ps"
  by (simp add: plain_def)

lemma all_flushed_drained:
  assumes "\<forall>(off, bs, f) \<in> set ps. f"
  shows "drained_img m ps = wr_all m (plain ps)" "undrained v ps = []"
proof -
  have f: "filter (\<lambda>(off, bs, f). f) ps = ps" "filter (\<lambda>(off, bs, f). \<not> f) ps = []"
    using assms by (auto simp: filter_id_conv filter_empty_conv)
  show "undrained v ps = []" by (simp add: undrained_def f)
  show "drained_img m ps = wr_all m (plain ps)"
    by (rule ext) (simp add: drained_img_def flushed_only_def f wr_all_outside)
qed

text \<open>The header that \<open>ulog_clobber\<close> leaves.\<close>

definition clobbered :: "mem \<Rightarrow> u64 \<Rightarrow> byte list" where
  "clobbered m u = ulog_header 0 (ulog_next_off m u) 0 0 0"

lemma length_clobbered [simp]: "length (clobbered m u) = 64"
  by (simp add: clobbered_def ulog_header_def)

lemma ulog_process_outcome:
  assumes "redo_log A (md_img (pm_s p)) u xs" "live p" "pm_ps p = []"
  shows "\<exists>y p'. ulog_process u p = Some (y, p') \<and> applied xs (md_img (pm_s p)) xs p y p'"
proof -
  have v: "vis p = md_img (pm_s p)" using assms(3) by (simp add: vis_def)
  have u: "log_holds A (vis p) u u 0 xs" "unat u + 64 < 2 ^ 64" "{unat u..<unat u + 64} \<subseteq> A"
      "\<forall>x \<in> set xs. redo_dom x \<inter> A = {}"
    using assms(1) by (simp_all add: redo_log_def v)
  show ?thesis
    using foreach_process [OF u(1) header_words(3) [OF u(2,3)] u(4) assms(2), of "vis p"]
    by (simp add: ulog_process_def ulog_foreach_entry_def ulog_foreach_from_at v)
qed

text \<open>
  The updates of a log are applied, then a new header is copied over it: all of it is done
  and durable, or power failed with some words of the stores made so far on the medium.
\<close>

lemma apply_then_clobber_cases:
  fixes off hdr
  assumes ap: "applied xs m xs p y p1" and p: "pm_ps p = []" "md_img (pm_s p) = m"
  defines "res \<equiv> case y of Inl e \<Rightarrow> (Inl e, p1) | Inr _ \<Rightarrow> ppersist off hdr p1"
  obtains (complete) p' where "res = (Inr (), p')" "live p'" "pm_ps p' = []"
      "md_img (pm_s p') = wr (redo_run xs m) off hdr"
      "\<forall>n. md_power (pm_s p) = Some n \<longrightarrow> n > length xs + 2"
      "md_power (pm_s p) = None \<longrightarrow> md_power (pm_s p') = None"
    | (interrupted) e p' qs hs where "res = (Inl e, p')" "\<not> live p'" "pm_ps p' = []"
      "md_img (pm_s p') = wr_some (md_torn (pm_s p)) m (qs @ hs)" "mixed_stores xs m qs"
      "hs = [] \<and> (\<exists>n \<le> length xs. md_power (pm_s p) = Some n) \<or>
       hs = [(off, hdr)] \<and> length qs = length xs \<and>
         (md_power (pm_s p) = Some (length xs + 1) \<or> md_power (pm_s p) = Some (length xs + 2))"
proof -
  have v: "vis p = m" using p by (simp add: vis_def)
  obtain qs where qs: "mixed_stores xs m (plain qs)" "\<forall>(off, bs, f) \<in> set qs. f" and
    c: "y = Inr 0 \<and> live p1 \<and> vis p1 = redo_run xs m \<and> md_img (pm_s p1) = m \<and>
          md_torn (pm_s p1) = md_torn (pm_s p) \<and> pm_ps p1 = qs \<and> length qs = length xs \<and>
          md_power (pm_s p1) = map_option (\<lambda>n. n - length xs) (md_power (pm_s p)) \<or>
        (\<exists>e. y = Inl e \<and> (\<exists>n \<le> length xs. md_power (pm_s p) = Some n) \<and> \<not> live p1 \<and> pm_ps p1 = [] \<and>
          md_img (pm_s p1) = wr_some (md_torn (pm_s p)) m (plain qs))"
    using ap unfolding applied_def v p by auto
  show ?thesis
  proof (cases y)
    case (Inl e)
    then show ?thesis using c qs by (intro that(2) [where qs = "plain qs" and hs = "[]" and e = e and p' = p1]) (auto simp: res_def)
  next
    case (Inr z)
    then have ok: "live p1" "vis p1 = redo_run xs m" "md_img (pm_s p1) = m" "md_torn (pm_s p1) = md_torn (pm_s p)"
        "pm_ps p1 = qs" "length qs = length xs" "md_power (pm_s p1) = map_option (\<lambda>n. n - length xs) (md_power (pm_s p))"
      using c by auto
    have r: "res = ppersist off hdr p1" by (simp add: res_def Inr)
    show ?thesis
    proof (cases rule: pstore_cases [OF ok(1), of True off hdr, case_names ok1 torn1])
      case (torn1 e p2)
      then show ?thesis using ok qs r
        by (intro that(2) [where qs = "plain qs" and hs = "[(off, hdr)]" and p' = p2 and e = e]) (auto simp: ppersist_def)
    next
      case (ok1 p2)
      show ?thesis
      proof (cases rule: pdrain_cases [OF ok1(2), case_names ok2 torn2])
        case (torn2 e p3)
        then show ?thesis using ok ok1 qs r
          by (intro that(2) [where qs = "plain qs" and hs = "[(off, hdr)]" and p' = p3 and e = e])
            (auto simp: ppersist_def option.map_comp comp_def)
      next
        case (ok2 p3)
        have f: "\<forall>(off, bs, f) \<in> set (pm_ps p2). f" using ok ok1 qs(2) by auto
        have "md_img (pm_s p3) = vis p2"
          using ok2 ok1 all_flushed_drained(1) [OF f] by (simp add: vis_def)
        then have "md_img (pm_s p3) = wr (redo_run xs m) off hdr" using ok1 ok by simp
        then show ?thesis using ok ok1 ok2 r all_flushed_drained(2) [OF f]
          by (intro that(1) [of p3]) (auto simp: ppersist_def live_def powered_def)
      qed
    qed
  qed
qed

text \<open>If the header has not reached the medium, the medium is a mix of old and updated bits.\<close>

lemma spared_header_mixed:
  assumes "m' = wr_some sel m (qs @ hs)" "mixed_stores xs m qs" "hs = [] \<or> hs = [(off, hdr)]"
    and h: "rd m' off (length hdr) = rd m off (length hdr)"
  shows "mixed xs m m'"
proof -
  define m1 where "m1 = wr_some sel m qs"
  have m1: "mixed xs m m1" unfolding m1_def by (rule mixed_wr_some [OF mixed_refl assms(2)])
  have out: "m' a = m1 a" if "\<not> (off \<le> a \<and> a < off + length hdr)" for a
    using that assms(3) unfolding assms(1) m1_def wr_some_append by (auto simp: wr_torn_def)
  have inside: "m' a = m a" if "off \<le> a \<and> a < off + length hdr" for a
  proof -
    have "rd m' off (length hdr) ! (a - off) = rd m off (length hdr) ! (a - off)" by (simp only: h)
    then show ?thesis using that by (simp add: less_diff_conv2)
  qed
  show ?thesis unfolding mixed_def
  proof
    fix a
    show "mixed_byte xs m a (m' a)"
      using m1 by (cases "off \<le> a \<and> a < off + length hdr") (simp_all add: inside out mixed_byte_def mixed_def)
  qed
qed

lemma ulog_recover_cases:
  assumes "redo_log A (md_img (pm_s p)) u xs" "live p" "pm_ps p = []"
  defines "m \<equiv> md_img (pm_s p)"
  obtains (complete) p' where "ulog_recover u p = Some (Inr (), p')" "live p'" "pm_ps p' = []"
      "md_img (pm_s p') = wr (redo_run xs m) (unat u) (clobbered m u)"
      "\<forall>n. md_power (pm_s p) = Some n \<longrightarrow> n > length xs + 2"
    | (interrupted) e p' qs hs where "ulog_recover u p = Some (Inl e, p')" "\<not> live p'" "pm_ps p' = []"
      "md_img (pm_s p') = wr_some (md_torn (pm_s p)) m (qs @ hs)" "mixed_stores xs m qs"
      "hs = [] \<and> (\<exists>n \<le> length xs. md_power (pm_s p) = Some n) \<or>
       hs = [(unat u, clobbered m u)] \<and> length qs = length xs \<and>
         (md_power (pm_s p) = Some (length xs + 1) \<or> md_power (pm_s p) = Some (length xs + 2))"
proof -
  have v: "vis p = m" using assms(3) by (simp add: vis_def m_def)
  have u: "unat u + 64 < 2 ^ 64" "{unat u..<unat u + 64} \<subseteq> A" "\<forall>x \<in> set xs. redo_dom x \<inter> A = {}"
    and need: "ulog_recovery_needed m u True = Some (Inr True)"
    using assms(1) by (simp_all add: redo_log_def m_def)
  obtain y p1 where pr: "ulog_process u p = Some (y, p1)" "applied xs m xs p y p1"
    using ulog_process_outcome [OF assms(1-3)] by (auto simp: m_def)
  have "agree A m (redo_run xs m)"
    using u(3) by (auto simp: agree_def intro!: redo_run_outside)
  then have nx: "ulog_next_off (redo_run xs m) u = ulog_next_off m u"
    using header_words(1) [OF u(1,2)] by (simp add: ulog_next_off_def agree_ld64)
  have "vis p1 = redo_run xs m" if "y = Inr z" for z using pr(2) that v by (auto simp: applied_def)
  then have rec: "ulog_recover u p =
      Some (case y of Inl e \<Rightarrow> (Inl e, p1) | Inr _ \<Rightarrow> ppersist (unat u) (clobbered m u) p1)"
    using nx by (simp add: ulog_recover_def v need pr(1) ulog_clobber_def clobbered_def split: sum.split)
  show ?thesis
  proof (cases rule: apply_then_clobber_cases [OF pr(2) assms(3) m_def [symmetric, THEN meta_eq_to_obj_eq], of "unat u" "clobbered m u", case_names complete interrupted])
    case (complete p')
    then show ?thesis using rec by (intro that(1) [of p']) simp_all
  next
    case (interrupted e p' qs hs)
    then show ?thesis using rec by (intro that(2) [of e p' qs hs]) simp_all
  qed
qed

section \<open>Interrupted recoveries\<close>

text \<open>
  A power failure that spares the header of the log: every byte is still the original one
  or one of the log's updates.
\<close>

lemma interrupted_mixed:
  assumes log: "redo_log A (md_img (pm_s p)) u xs" "live p" "pm_ps p = []"
    and r: "ulog_recover u p = Some (Inl e, p')"
    and h: "rd (md_img (pm_s p')) (unat u) 64 = rd (md_img (pm_s p)) (unat u) 64"
  shows "mixed xs (md_img (pm_s p)) (md_img (pm_s p'))"
proof (cases rule: ulog_recover_cases [OF log, case_names complete interrupted])
  case (complete p1)
  then show ?thesis using r by simp
next
  case (interrupted e1 p1 qs hs)
  then show ?thesis using r h
    by (intro spared_header_mixed [OF _ interrupted(5), of _ _ hs "unat u" "clobbered (md_img (pm_s p)) u"]) auto
qed

lemma mixed_trans:
  assumes "mixed xs m0 m1" "mixed xs m1 m2"
  shows "mixed xs m0 m2"
  unfolding mixed_def mixed_byte_def
proof (intro allI)
  fix a n
  show "bit (m2 a) n = bit (m0 a) n \<or> (\<exists>x \<in> set xs. redo_eff x a n = Some (bit (m2 a) n))"
    using assms(1) [unfolded mixed_def mixed_byte_def, rule_format, of a n]
      assms(2) [unfolded mixed_def mixed_byte_def, rule_format, of a n] by (elim disjE) simp_all
qed

text \<open>The media that any number of interrupted recoveries can leave.\<close>

inductive recoveries :: "u64 \<Rightarrow> mem \<Rightarrow> mem \<Rightarrow> bool" for u m where
  none: "recoveries u m m"
| failed: "recoveries u m (md_img (pm_s p'))"
    if "recoveries u m (md_img (pm_s p))" "live p" "pm_ps p = []" "ulog_recover u p = Some (Inl e, p')"
      "rd (md_img (pm_s p')) (unat u) 64 = rd (md_img (pm_s p)) (unat u) 64"

lemma recoveries_mixed:
  assumes "recoveries u m m'" "redo_log A m u xs"
  shows "mixed xs m m'"
  using assms(1)
proof induction
  case none
  then show ?case by simp
next
  case (failed p e p')
  have "redo_log A (md_img (pm_s p)) u xs" by (rule redo_log_mixed [OF assms(2) failed.IH])
  from interrupted_mixed [OF this failed(2-5)] show ?case by (rule mixed_trans [OF failed.IH])
qed

lemma emptied_not_needed:
  assumes "unat u + 64 < 2 ^ 64"
  shows "ulog_recovery_needed (wr m (unat u) (ulog_header c n 0 g f)) u v = Some (Inr False)"
proof -
  let ?m = "wr m (unat u) (ulog_header c n 0 g f)"
  have "unat (u + 16) = unat u + 16" using assms by (subst unat_add_small) simp_all
  then have "ulog_cap ?m u = unle64 (take 8 (drop 16 (rd ?m (unat u) 64)))"
    by (simp add: ulog_cap_def ld64_def drop_rd take_rd)
  moreover have "rd ?m (unat u) 64 = ulog_header c n 0 g f" by (rule rd_wr_same) (simp add: ulog_header_def)
  ultimately have "ulog_cap ?m u = 0" by (simp add: ulog_header_def)
  then show ?thesis
    by (simp add: ulog_recovery_needed_def ulog_base_nbytes.simps [of _ u 0])
qed

lemma clobbered_not_needed:
  "unat u + 64 < 2 ^ 64 \<Longrightarrow>
   ulog_recovery_needed (wr m (unat u) (clobbered m' u)) u v = Some (Inr False)"
  unfolding clobbered_def by (rule emptied_not_needed)

end
