(* ===== verification/Val_Log.thy ===== *)
theory Val_Log
  imports Redo_Recovery
begin

text \<open>
  Logs of value entries, the logs that \<open>ulog_entry_val_create\<close> fills and \<open>ulog_store\<close>
  copies to the medium: their bytes, and the updates an iteration over them meets.
\<close>

type_synonym val_entry = "u64 \<times> u64 \<times> u64"

fun val_bytes :: "val_entry list \<Rightarrow> byte list" where
  "val_bytes [] = []"
| "val_bytes ((dest, value, type) # vs) = le64 (dest OR type) @ le64 value @ val_bytes vs"

fun val_redo :: "val_entry \<Rightarrow> redo" where
  "val_redo (dest, value, type) =
     (if type = ULOG_OPERATION_AND then RAnd dest value
      else if type = ULOG_OPERATION_OR then ROr dest value
      else RSet dest value)"

fun val_ok :: "val_entry \<Rightarrow> bool" where
  "val_ok (dest, value, type) \<longleftrightarrow> dest \<noteq> 0 \<and> dest AND ULOG_OPERATION_MASK = 0 \<and> is_val_type type"

lemma length_val_bytes [simp]: "length (val_bytes vs) = 16 * length vs"
  by (induction vs rule: val_bytes.induct) simp_all

lemmas ulog_op_defs = ULOG_OPERATION_SET_def ULOG_OPERATION_AND_def ULOG_OPERATION_OR_def
  ULOG_OPERATION_BUF_SET_def ULOG_OPERATION_BUF_CPY_def ULOG_OPERATION_MASK_def

lemma val_type_masked: "is_val_type t \<Longrightarrow> t AND ULOG_OPERATION_MASK = t"
  by (auto simp: is_val_type_def ulog_op_defs)

lemma val_type_not_buf: "is_val_type t \<Longrightarrow> \<not> is_buf_type t"
  by (auto simp: is_val_type_def is_buf_type_def ulog_op_defs)

lemma and_not_self: "x AND m = 0 \<Longrightarrow> x AND NOT m = x" for x m :: u64
proof -
  assume "x AND m = 0"
  then have "bit x n \<Longrightarrow> \<not> bit m n" for n by (metis bit_0_eq bit_and_iff bot_apply bot_bool_def)
  then show ?thesis by (intro bit_word_eqI) (auto simp: bit_and_iff bit_not_iff)
qed

lemma and_of_masked: "y AND m = y \<Longrightarrow> y AND NOT m = 0" for y m :: u64
  by (rule bit_word_eqI) (metis bit_and_iff bit_not_iff bit_0_eq bot_apply bot_bool_def)

lemma tagged_type: "val_ok (d, v, t) \<Longrightarrow> (d OR t) AND ULOG_OPERATION_MASK = t"
  by (simp add: bit.conj_disj_distrib2 val_type_masked)

lemma tagged_offset: "val_ok (d, v, t) \<Longrightarrow> (d OR t) AND NOT ULOG_OPERATION_MASK = d"
  using and_of_masked [OF val_type_masked, of t] and_not_self [of d ULOG_OPERATION_MASK]
  by (simp add: bit.conj_disj_distrib2)

lemma tagged_nonzero: "val_ok (d, v, t) \<Longrightarrow> d OR t \<noteq> 0"
  using tagged_offset [of d v t] by auto

lemma val_bytes_nth:
  assumes "k < length vs" "vs ! k = (d, v, t)"
  shows "take 16 (drop (16 * k) (val_bytes vs)) = le64 (d OR t) @ le64 v"
  using assms
proof (induction vs arbitrary: k)
  case (Cons w vs)
  obtain d' v' t' where w: "w = (d', v', t')" by (cases w)
  show ?case
  proof (cases k)
    case 0
    then show ?thesis using Cons.prems by (simp add: w)
  next
    case (Suc j)
    have *: "16 * Suc j = 8 + (8 + 16 * j)" by simp
    show ?thesis using Cons.IH [of j] Cons.prems unfolding Suc w val_bytes.simps *
      by (simp only: drop_append drop_drop [symmetric]) (simp add: drop_all)
  qed
qed simp

section \<open>Iterating over value entries\<close>

text \<open>A log at \<open>u\<close> without extensions whose data are the entries \<open>vs\<close>, then the end or a zero word.\<close>

definition val_log :: "mem \<Rightarrow> u64 \<Rightarrow> val_entry list \<Rightarrow> bool" where
  "val_log m u vs \<longleftrightarrow>
     unat u + 64 + unat (ulog_cap m u) < 2 ^ 64 \<and> ulog_next_off m u = 0 \<and>
     rd m (unat u + 64) (16 * length vs) = val_bytes vs \<and>
     (unat (ulog_cap m u) = 16 * length vs \<or>
      16 * length vs + 8 \<le> unat (ulog_cap m u) \<and>
        rd m (unat u + 64 + 16 * length vs) 8 = replicate 8 0) \<and>
     list_all val_ok vs"

definition log_area :: "mem \<Rightarrow> u64 \<Rightarrow> nat set" where
  "log_area m u = {unat u..<unat u + 64 + unat (ulog_cap m u)}"

lemma le_enc_zero: "le_enc n 0 = replicate n 0"
  by (induction n) simp_all

lemma le64_zero: "le64 0 = replicate 8 0"
  by (simp only: le64_def unsigned_0 le_enc_zero)

lemma unle64_zeros: "unle64 (replicate 8 0) = 0"
  using unle_le(3) [of 0] by (simp only: le64_zero)

lemma rd_nth_range:
  assumes "rd m off n = bs" "i + k \<le> n"
  shows "rd m (off + i) k = take k (drop i bs)"
  unfolding assms(1) [symmetric] using assms(2) by (simp add: drop_rd take_rd)

lemma val_log_addr:
  assumes "val_log m u vs" "k + j \<le> unat (ulog_cap m u)"
  shows "unat (ulog_data u + of_nat k + of_nat j) = unat u + 64 + k + j"
proof -
  have "unat u + 64 + k + j < 2 ^ 64" using assms by (simp add: val_log_def)
  moreover have "ulog_data u + of_nat k + of_nat j = (of_nat (unat u + 64 + k + j) :: u64)"
    by (simp add: ulog_data_def)
  ultimately show ?thesis by (simp add: unat_of_nat_small del: of_nat_add)
qed

lemma val_log_entry:
  assumes vl: "val_log m u vs" and k: "k < length vs" "vs ! k = (d, v, t)"
  defines "e \<equiv> ulog_data u + of_nat (16 * k)"
  shows "ld64 m e = d OR t" "ld64 m (e + 8) = v" "val_ok (d, v, t)" "16 * k + 16 \<le> unat (ulog_cap m u)"
    "word_at e \<subseteq> log_area m u" "word_at (e + 8) \<subseteq> log_area m u"
proof -
  show c: "16 * k + 16 \<le> unat (ulog_cap m u)" using vl k(1) by (auto simp: val_log_def)
  have a: "unat e = unat u + 64 + 16 * k" "unat (e + 8) = unat u + 64 + 16 * k + 8"
    using val_log_addr [OF vl, of "16 * k" 0] val_log_addr [OF vl, of "16 * k" 8] c by (simp_all add: e_def)
  have "rd m (unat u + 64 + 16 * k) 16 = take 16 (drop (16 * k) (val_bytes vs))"
    using vl k(1) by (intro rd_nth_range) (auto simp: val_log_def)
  also have "\<dots> = le64 (d OR t) @ le64 v" by (rule val_bytes_nth [OF k])
  finally have b: "rd m (unat u + 64 + 16 * k) 16 = le64 (d OR t) @ le64 v" .
  from rd_nth_range [OF b, of 0 8] rd_nth_range [OF b, of 8 8]
  show "ld64 m e = d OR t" "ld64 m (e + 8) = v" by (simp_all add: ld64_def a)
  show "val_ok (d, v, t)" using vl k by (auto simp: val_log_def list_all_length)
  show "word_at e \<subseteq> log_area m u" "word_at (e + 8) \<subseteq> log_area m u"
    using a c by (auto simp: word_at_def log_area_def)
qed

lemma val_entry_facts:
  assumes "ld64 m e = d OR t" "ld64 m (e + 8) = v" "val_ok (d, v, t)"
  shows "ulog_entry_valid m u e" "ulog_entry_size m e = 16" "entry_at m e = Some (val_redo (d, v, t))"
    "entry_reads m e = word_at e \<union> word_at (e + 8)"
proof -
  have t: "ulog_entry_type m e = t" "ulog_entry_offset m e = d"
    using assms by (simp_all add: ulog_entry_type_def ulog_entry_offset_def tagged_type tagged_offset)
  have nz: "d OR t \<noteq> 0" by (rule tagged_nonzero [OF assms(3)])
  have ty: "is_val_type t" "\<not> is_buf_type t" using assms(3) val_type_not_buf by auto
  show "ulog_entry_valid m u e" "ulog_entry_size m e = 16" "entry_reads m e = word_at e \<union> word_at (e + 8)"
    by (simp_all add: entry_valid_defs ulog_entry_size_def entry_reads_def t nz ty assms(1))
  show "entry_at m e = Some (val_redo (d, v, t))"
    using ty by (auto simp: entry_at_def t assms(2) is_val_type_def Let_def)
qed

lemma val_log_stop:
  assumes vl: "val_log m u vs" "16 * length vs < unat (ulog_cap m u)"
  defines "e \<equiv> ulog_data u + of_nat (16 * length vs)"
  shows "\<not> ulog_entry_valid m r e" "entry_reads m e \<subseteq> log_area m u"
proof -
  have c: "16 * length vs + 8 \<le> unat (ulog_cap m u)" "rd m (unat u + 64 + 16 * length vs) 8 = replicate 8 0"
    using vl by (auto simp: val_log_def)
  have a: "unat e = unat u + 64 + 16 * length vs"
    using val_log_addr [OF vl(1), of "16 * length vs" 0] c by (simp add: e_def)
  then have z: "ld64 m e = 0" using c(2) by (simp add: ld64_def unle64_zeros)
  then show "\<not> ulog_entry_valid m r e" by (simp add: entry_valid_defs)
  show "entry_reads m e \<subseteq> log_area m u"
    using a c(1) by (auto simp: entry_reads_def z word_at_def log_area_def)
qed

lemma val_log_head:
  assumes "val_log m u vs"
  shows "head_reads u \<subseteq> log_area m u" "word_at (u + 24) \<subseteq> log_area m u" "ulog_next m u = None"
proof -
  have "unat u + 64 < 2 ^ 64" "{unat u..<unat u + 64} \<subseteq> log_area m u"
    using assms by (auto simp: val_log_def log_area_def)
  from header_words [OF this] show "head_reads u \<subseteq> log_area m u" "word_at (u + 24) \<subseteq> log_area m u" by simp_all
  show "ulog_next m u = None" using assms by (simp add: val_log_def ulog_next_def ulog_by_offset_def)
qed

lemma of_nat_less_u64: "k < unat c \<Longrightarrow> (of_nat k :: u64) < c"
proof -
  assume k: "k < unat c"
  have "unat c < 2 ^ 64" by simp
  with k have "k < 2 ^ 64" by (rule order_less_trans)
  then have "unat (of_nat k :: u64) = k" by (simp add: unat_of_nat_small)
  with k show ?thesis by (simp add: word_less_nat_alt)
qed

lemma base_nbytes_end: "\<not> offset < ulog_cap m u \<Longrightarrow> ulog_base_nbytes m u offset = Some offset"
  by (simp add: ulog_base_nbytes.simps)

lemma base_nbytes_stop:
  "offset < ulog_cap m u \<Longrightarrow> \<not> ulog_entry_valid m u (ulog_data u + offset) \<Longrightarrow>
   ulog_base_nbytes m u offset = Some offset"
  by (simp add: ulog_base_nbytes.simps)

lemma base_nbytes_entry:
  "offset < ulog_cap m u \<Longrightarrow> ulog_entry_valid m u (ulog_data u + offset) \<Longrightarrow>
   ulog_base_nbytes m u offset = ulog_base_nbytes m u (offset + ulog_entry_size m (ulog_data u + offset))"
  by (subst ulog_base_nbytes.simps) (simp add: Let_def)

lemma val_log_holds_from:
  assumes vl: "val_log m u vs" and "k \<le> length vs"
  shows "log_holds (log_area m u) m u u (of_nat (16 * k)) (map val_redo (drop k vs)) \<and>
    ulog_base_nbytes m u (of_nat (16 * k)) = Some (of_nat (16 * length vs))"
  using assms(2)
proof (induction "length vs - k" arbitrary: k)
  case 0
  then have k: "k = length vs" by simp
  let ?o = "of_nat (16 * length vs) :: u64"
  show ?case
  proof (cases "16 * length vs < unat (ulog_cap m u)")
    case True
    then have o: "?o < ulog_cap m u" by (rule of_nat_less_u64)
    note st = val_log_stop [OF vl True]
    show ?thesis unfolding k
      using holds_stop [OF val_log_head(1) [OF vl] o st(2,1)] base_nbytes_stop [OF o st(1)] by simp
  next
    case False
    then have "unat (ulog_cap m u) = 16 * length vs" using vl by (auto simp: val_log_def)
    then have "?o = of_nat (unat (ulog_cap m u))" by (simp only:)
    then have "?o = ulog_cap m u" by simp
    then have o: "\<not> ?o < ulog_cap m u" by (metis order_less_irrefl)
    show ?thesis unfolding k
      using holds_end [OF val_log_head(1) [OF vl] o val_log_head(3) [OF vl]] base_nbytes_end [OF o] by simp
  qed
next
  case (Suc n)
  then have k: "k < length vs" by simp
  obtain d v t where vk: "vs ! k = (d, v, t)" by (cases "vs ! k")
  let ?o = "of_nat (16 * k) :: u64" and ?A = "log_area m u"
  note e = val_log_entry [OF vl k vk]
  note f = val_entry_facts [OF e(1-3)]
  have o: "?o < ulog_cap m u" using e(4) by (intro of_nat_less_u64) simp
  have nx: "?o + ulog_entry_size m (ulog_data u + ?o) = of_nat (16 * Suc k)" by (simp add: f(2) del: of_nat_mult)
  have nk: "n = length vs - Suc k" using Suc.hyps(2) by simp
  have IH: "log_holds ?A m u u (of_nat (16 * Suc k)) (map val_redo (drop (Suc k) vs))"
    "ulog_base_nbytes m u (of_nat (16 * Suc k)) = Some (of_nat (16 * length vs))"
    using Suc.hyps(1) [of "Suc k", OF nk] k by simp_all
  have rds: "entry_reads m (ulog_data u + ?o) \<subseteq> ?A" using e(5,6) f(4) by simp
  have "drop k vs = (d, v, t) # drop (Suc k) vs" using k vk by (metis Cons_nth_drop_Suc)
  then show ?case
    using holds_entry [OF val_log_head(1) [OF vl] o rds f(1,3), unfolded nx, OF IH(1)]
      base_nbytes_entry [OF o f(1), unfolded nx] IH(2) by simp
qed

lemma val_log_holds:
  assumes "val_log m u vs"
  shows "log_holds (log_area m u) m u u 0 (map val_redo vs)"
    "ulog_base_nbytes m u 0 = Some (of_nat (16 * length vs))"
  using val_log_holds_from [OF assms, of 0] by simp_all

section \<open>Storing a shadow log\<close>

text \<open>The data of a transient log (its memory starts with the header at address 0).\<close>

definition shadow_log :: "mem \<Rightarrow> val_entry list \<Rightarrow> bool" where
  "shadow_log src vs \<longleftrightarrow>
     rd src 64 (16 * length vs) = val_bytes vs \<and>
     (vs \<noteq> [] \<longrightarrow> rd src (64 + 16 * length vs) 8 = replicate 8 0) \<and> list_all val_ok vs"

text \<open>The bytes \<open>ulog_store\<close> copies of a log of \<open>n\<close> bytes, and the capacity it stores.\<close>

definition store_nbytes :: "u64 \<Rightarrow> u64 \<Rightarrow> u64" where
  "store_nbytes nbytes tot = (if nbytes \<noteq> tot then CACHELINE_ALIGN (nbytes + 8) else nbytes)"

lemma unat_CACHELINE_ALIGN:
  "unat n + 63 < 2 ^ 64 \<Longrightarrow> unat (CACHELINE_ALIGN n) = 64 * ((unat n + 63) div 64)"
  unfolding CACHELINE_ALIGN_def using unat_roundup64 [of 6 n] by simp

lemma store_nbytes_bound:
  assumes "unat n + 72 < 2 ^ 64"
  shows "unat (store_nbytes n tot) = unat n \<or> unat n + 8 \<le> unat (store_nbytes n tot)"
proof (cases "n = tot")
  case False
  have "unat (n + 8) = unat n + 8" using assms by (subst unat_add_small) simp_all
  then have "unat (store_nbytes n tot) = 64 * ((unat n + 71) div 64)"
    using assms False by (simp add: store_nbytes_def unat_CACHELINE_ALIGN)
  then show ?thesis by linarith
qed (simp add: store_nbytes_def)

text \<open>The log image that reaches the destination: the header with its checksum, then the data.\<close>

lemma ulog_store_image:
  assumes n: "nbytes = of_nat (16 * length vs)" "16 * length vs + 72 < 2 ^ 64" "vs \<noteq> []"
    and base: "store_nbytes nbytes tot \<le> base"
    and src: "shadow_log src vs"
  obtains src' img where
    "\<forall>p. ulog_store dest src nbytes base tot [] p =
       bind_io (ppersist (unat dest) img p) (\<lambda>_ p1. (Inr src', p1))"
    "length img = 64 + unat (store_nbytes nbytes tot)"
    "take (16 * length vs) (drop 64 img) = val_bytes vs"
    "16 * length vs + 8 \<le> unat (store_nbytes nbytes tot) \<Longrightarrow> take 8 (drop (64 + 16 * length vs) img) = replicate 8 0"
    "take 8 (drop 8 img) = le64 0" "take 8 (drop 16 img) = le64 (store_nbytes nbytes tot)"
    "util_checksum (take (64 + 16 * length vs) img) 0 False 0 = Inr (True, take (64 + 16 * length vs) img)"
    "shadow_log src' vs" "ulog_cap src' 0 = ulog_cap src 0" "ulog_next_off src' 0 = 0"
proof -
  let ?nb = "store_nbytes nbytes tot" and ?k = "16 * length vs"
  define src1 where "src1 = wr (wr src 16 (le64 ?nb)) 8 (le64 0)"
  have un: "unat nbytes = ?k" using n by (simp add: unat_of_nat_small del: of_nat_mult)
  have nb: "unat ?nb = ?k \<or> ?k + 8 \<le> unat ?nb" using store_nbytes_bound [of nbytes tot] n(2) un by simp
  have nbase: "unat nbytes \<le> unat base" using base nb un by (auto simp: word_le_nat_alt)
  have mins: "min base nbytes = nbytes" "min base ?nb = ?nb"
    using nbase base by (auto intro!: min_absorb2 simp: word_le_nat_alt)
  define body where "body = rd src1 0 (64 + ?k)"
  have lb: "length body mod 4 = 0" "0 + 8 \<le> length body" by (simp_all add: body_def)
  obtain csum where cs: "util_checksum body 0 True 0 = Inr (True, put_bytes body 0 (le64 csum))"
    "util_checksum (put_bytes body 0 (le64 csum)) 0 False 0 = Inr (True, put_bytes body 0 (le64 csum))"
    using checksum_insert_ok [OF lb(1) _ lb(2), of 0] by auto
  define src2 where "src2 = wr src1 0 (put_bytes body 0 (le64 csum))"
  have src2: "src2 a = (if a < 8 then le64 csum ! a else src1 a)" for a
    by (auto simp: src2_def wr_def put_bytes_def nth_append body_def)
  define img where "img = rd src2 0 (64 + unat ?nb)"
  have img: "take j (drop i img) = rd src1 i j" if "8 \<le> i" "i + j \<le> 64 + unat ?nb" for i j
    unfolding img_def using that by (simp add: drop_rd take_rd) (rule rd_eqI, simp add: src2)
  have s1: "rd src1 i j = rd src i j" if "24 \<le> i" for i j
    unfolding src1_def using that by (simp add: mem_simps disjoint_ranges_def)
  have tk: "take (64 + ?k) img = put_bytes body 0 (le64 csum)"
  proof -
    have "take (64 + ?k) img = rd src2 0 (64 + ?k)" unfolding img_def using nb by (intro take_rd) auto
    then show ?thesis unfolding src2_def by (simp add: mem_simps body_def)
  qed
  show ?thesis
  proof (rule that)
    show "\<forall>p. ulog_store dest src nbytes base tot [] p =
        bind_io (ppersist (unat dest) img p) (\<lambda>_ p1. (Inr (wr src2 16 (le64 (ulog_cap src 0))), p1))"
      unfolding ulog_store_def store_nbytes_def [symmetric] mins Let_def
      using cs(1) by (simp add: store_next.simps ulog_checksum_def un body_def [symmetric] src1_def [symmetric] src2_def [symmetric] img_def [symmetric])
    show "length img = 64 + unat ?nb" by (simp add: img_def)
    show "take (16 * length vs) (drop 64 img) = val_bytes vs"
      using src nb by (subst img) (auto simp: s1 shadow_log_def)
    show "take 8 (drop (64 + 16 * length vs) img) = replicate 8 0" if "16 * length vs + 8 \<le> unat ?nb"
      using src that n(3) by (subst img) (auto simp: s1 shadow_log_def)
    show "take 8 (drop 8 img) = le64 0" by (subst img) (simp_all add: src1_def mem_simps)
    show "take 8 (drop 16 img) = le64 ?nb"
      by (subst img) (simp_all add: src1_def mem_simps disjoint_ranges_def)
    show "util_checksum (take (64 + 16 * length vs) img) 0 False 0 = Inr (True, take (64 + 16 * length vs) img)"
      unfolding tk by (rule cs(2))
    have r2: "rd (wr src2 16 (le64 (ulog_cap src 0))) i j = rd src i j" if "24 \<le> i" for i j
      using that by (simp add: mem_simps disjoint_ranges_def) (rule rd_eqI, simp add: src2 src1_def wr_def)
    show "shadow_log (wr src2 16 (le64 (ulog_cap src 0))) vs"
      using src by (simp add: shadow_log_def r2)
    show "ulog_cap (wr src2 16 (le64 (ulog_cap src 0))) 0 = ulog_cap src 0"
      by (simp add: ulog_cap_def [of "wr _ _ _"] ld64_def mem_simps)
    have "rd src2 8 8 = rd src1 8 8" by (rule rd_eqI) (simp add: src2)
    then show "ulog_next_off (wr src2 16 (le64 (ulog_cap src 0))) 0 = 0"
      by (simp add: ulog_next_off_def ld64_def mem_simps disjoint_ranges_def src1_def)
  qed
qed

lemma ppersist_cases:
  assumes "live p" "pm_ps p = []"
  obtains (ok) p' where "ppersist off bs p = (Inr (), p')" "live p'" "pm_ps p' = []"
      "md_img (pm_s p') = wr (md_img (pm_s p)) off bs" "md_torn (pm_s p') = md_torn (pm_s p)"
      "md_power (pm_s p') = map_option (\<lambda>n. n - 2) (md_power (pm_s p))"
    | (torn) e p' where "ppersist off bs p = (Inl e, p')" "\<not> live p'" "pm_ps p' = []"
      "md_img (pm_s p') = wr_torn (md_torn (pm_s p) 0) (md_img (pm_s p)) off bs"
      "\<exists>n \<le> 2. md_power (pm_s p) = Some n"
proof (cases rule: pstore_cases [OF assms(1), of True off bs, case_names ok1 torn1])
  case (torn1 e p1)
  then show ?thesis using assms(2) by (intro that(2) [of e p1]) (simp_all add: ppersist_def)
next
  case (ok1 p1)
  have f: "\<forall>(o1, b1, f) \<in> set (pm_ps p1). f" using ok1 assms(2) by simp
  show ?thesis
  proof (cases rule: pdrain_cases [OF ok1(2), case_names ok2 torn2])
    case (torn2 e p2)
    then show ?thesis using ok1 assms(2) by (intro that(2) [of e p2]) (auto simp: ppersist_def)
  next
    case (ok2 p2)
    then show ?thesis using ok1 assms(2) all_flushed_drained [OF f]
      by (intro that(1) [of p2]) (simp_all add: ppersist_def option.map_comp comp_def numeral_2_eq_2)
  qed
qed

text \<open>The stored image is a redo log of the entries.\<close>

lemma stored_redo_log:
  fixes m vs img u nb
  defines "m' \<equiv> wr m (unat u) img" and "k \<equiv> 16 * length vs"
  assumes img: "length img = 64 + unat nb" "take k (drop 64 img) = val_bytes vs"
      "k + 8 \<le> unat nb \<longrightarrow> take 8 (drop (64 + k) img) = replicate 8 0"
      "take 8 (drop 8 img) = le64 0" "take 8 (drop 16 img) = le64 nb"
      "util_checksum (take (64 + k) img) 0 False 0 = Inr (True, take (64 + k) img)"
    and u: "unat u + 64 + unat nb < 2 ^ 64" "unat nb = k \<or> k + 8 \<le> unat nb"
    and vs: "vs \<noteq> []" "list_all val_ok vs"
      "\<forall>x \<in> set (map val_redo vs). redo_dom x \<inter> {unat u..<unat u + 64 + unat nb} = {}"
  shows "redo_log {unat u..<unat u + 64 + unat nb} m' u (map val_redo vs)"
proof -
  have rdm: "rd m' (unat u + i) j = take j (drop i img)" if "i + j \<le> length img" for i j
    unfolding m'_def using that by (intro rd_nth_range [of _ _ "length img"]) (simp_all add: mem_simps)
  have ld: "ld64 m' (u + of_nat i) = unle64 (take 8 (drop i img))" if "i + 8 \<le> 64" for i
  proof -
    have "unat (u + of_nat i) = unat u + i"
      using u(1) that by (subst unat_add_small) (simp_all add: unat_of_nat_small)
    then show ?thesis using that img(1) by (simp add: ld64_def rdm)
  qed
  have cap: "ulog_cap m' u = nb" using ld [of 16] img(5) by (simp add: ulog_cap_def)
  have nxt: "ulog_next_off m' u = 0" using ld [of 8] img(4) by (simp add: ulog_next_off_def)
  have vl: "val_log m' u vs"
    unfolding val_log_def cap nxt using u vs img rdm [of 64 k] rdm [of "64 + k" 8]
    by (auto simp: k_def add.assoc)
  have area: "log_area m' u = {unat u..<unat u + 64 + unat nb}" by (simp add: log_area_def cap)
  have kn: "k \<le> unat nb" using u(2) by auto
  have kl: "k < 2 ^ 64" using u(1) kn by simp
  have unk: "unat (of_nat k :: u64) = k" using kl by (simp add: unat_of_nat_small)
  have mn: "min (of_nat k) nb = (of_nat k :: u64)" using kn by (intro min_absorb1) (simp add: word_le_nat_alt unk)
  have bn: "ulog_base_nbytes m' u 0 = Some (of_nat k)" using val_log_holds(2) [OF vl] by (simp only: k_def)
  have ck: "ulog_checksum m' u (of_nat k) False = Inr (True, take (64 + k) img)"
    unfolding ulog_checksum_def unk using rdm [of 0 "64 + k"] kn img(1,6) by simp
  have k0: "(of_nat k :: u64) \<noteq> 0" using vs(1) unk by (auto simp: k_def unat_eq_0 simp del: of_nat_mult)
  have need: "ulog_recovery_needed m' u True = Some (Inr True)"
    by (simp add: ulog_recovery_needed_def bn cap mn ck k0)
  show ?thesis unfolding redo_log_def
  proof (intro conjI exI)
    show "log_holds {unat u..<unat u + 64 + unat nb} m' u u 0 (map val_redo vs)"
      using val_log_holds(1) [OF vl] by (simp only: area)
  qed (use vs(3) u(1) need bn kn in \<open>auto simp: cap mn unk\<close>)
qed

text \<open>
  What \<open>ulog_store\<close> does with a shadow log that fits in the first log: the medium holds it
  as a redo log, or power failed and nothing outside the log has changed.
\<close>

definition storable :: "u64 \<Rightarrow> u64 \<Rightarrow> u64 \<Rightarrow> val_entry list \<Rightarrow> bool" where
  "storable dest base tot vs \<longleftrightarrow>
     (let nb = store_nbytes (of_nat (16 * length vs)) tot
      in vs \<noteq> [] \<and> 16 * length vs + 72 < 2 ^ 64 \<and> nb \<le> base \<and> unat dest + 64 + unat nb < 2 ^ 64 \<and>
         (\<forall>x \<in> set (map val_redo vs). redo_dom x \<inter> {unat dest..<unat dest + 64 + unat nb} = {}))"

definition stored_area :: "u64 \<Rightarrow> u64 \<Rightarrow> val_entry list \<Rightarrow> nat set" where
  "stored_area dest tot vs =
     {unat dest..<unat dest + 64 + unat (store_nbytes (of_nat (16 * length vs)) tot)}"

text \<open>The image that \<open>ulog_store\<close> leaves when the power stays on.\<close>

definition logged :: "u64 \<Rightarrow> mem \<Rightarrow> u64 \<Rightarrow> u64 \<Rightarrow> u64 \<Rightarrow> mem \<Rightarrow> mem" where
  "logged dest src nbytes base tot m =
     md_img (pm_s (snd (ulog_store dest src nbytes base tot []
       \<lparr> pm_s = \<lparr> md_img = m, md_power = None, md_torn = (\<lambda>_ _. False) \<rparr>, pm_ps = [] \<rparr>)))"

lemma ppersist_steady:
  "ppersist off bs \<lparr> pm_s = \<lparr> md_img = m, md_power = None, md_torn = sel \<rparr>, pm_ps = [] \<rparr> =
     (Inr (), \<lparr> pm_s = \<lparr> md_img = wr m off bs, md_power = None, md_torn = sel \<rparr>, pm_ps = [] \<rparr>)"
  using all_flushed_drained [of "[(off, bs, True)]"]
  by (simp add: ppersist_def pstore_def pdrain_def tick_def Let_def)

lemma ulog_store_cases:
  assumes st: "storable dest base tot vs" and src: "shadow_log src vs" and p: "live p" "pm_ps p = []"
  obtains (ok) src' p' where
      "ulog_store dest src (of_nat (16 * length vs)) base tot [] p = (Inr src', p')" "live p'" "pm_ps p' = []"
      "redo_log (stored_area dest tot vs) (md_img (pm_s p')) dest (map val_redo vs)"
      "md_img (pm_s p') = logged dest src (of_nat (16 * length vs)) base tot (md_img (pm_s p))"
      "\<forall>a. a \<notin> stored_area dest tot vs \<longrightarrow> md_img (pm_s p') a = md_img (pm_s p) a"
      "md_torn (pm_s p') = md_torn (pm_s p)"
      "md_power (pm_s p') = map_option (\<lambda>n. n - 2) (md_power (pm_s p))"
      "shadow_log src' vs" "ulog_cap src' 0 = ulog_cap src 0" "ulog_next_off src' 0 = 0"
    | (torn) e p' where
      "ulog_store dest src (of_nat (16 * length vs)) base tot [] p = (Inl e, p')" "\<not> live p'" "pm_ps p' = []"
      "\<forall>a. a \<notin> stored_area dest tot vs \<longrightarrow> md_img (pm_s p') a = md_img (pm_s p) a"
      "\<exists>n \<le> 2. md_power (pm_s p) = Some n"
proof -
  let ?k = "16 * length vs" and ?n = "of_nat (16 * length vs) :: u64"
  define nb where "nb = store_nbytes ?n tot"
  have s: "vs \<noteq> []" "?k + 72 < 2 ^ 64" "nb \<le> base" "unat dest + 64 + unat nb < 2 ^ 64"
      "\<forall>x \<in> set (map val_redo vs). redo_dom x \<inter> {unat dest..<unat dest + 64 + unat nb} = {}"
    using st by (simp_all add: storable_def nb_def Let_def)
  have area: "stored_area dest tot vs = {unat dest..<unat dest + 64 + unat nb}"
    by (simp add: stored_area_def nb_def)
  have un: "unat ?n = ?k" using s(2) by (simp add: unat_of_nat_small del: of_nat_mult)
  have ub: "unat nb = ?k \<or> ?k + 8 \<le> unat nb" using store_nbytes_bound [of ?n tot] s(2) un by (simp add: nb_def)
  obtain src' img where i:
    "\<forall>p. ulog_store dest src ?n base tot [] p = bind_io (ppersist (unat dest) img p) (\<lambda>_ p1. (Inr src', p1))"
    "length img = 64 + unat nb" "take ?k (drop 64 img) = val_bytes vs"
    "?k + 8 \<le> unat nb \<longrightarrow> take 8 (drop (64 + ?k) img) = replicate 8 0"
    "take 8 (drop 8 img) = le64 0" "take 8 (drop 16 img) = le64 nb"
    "util_checksum (take (64 + ?k) img) 0 False 0 = Inr (True, take (64 + ?k) img)"
    and sh: "shadow_log src' vs" "ulog_cap src' 0 = ulog_cap src 0" "ulog_next_off src' 0 = 0"
    using ulog_store_image [OF refl s(2,1) s(3) [unfolded nb_def] src, of dest] unfolding nb_def by blast
  have ok: "list_all val_ok vs" using src by (simp add: shadow_log_def)
  show ?thesis
  proof (cases rule: ppersist_cases [OF p, of "unat dest" img, case_names ok torn])
    case (ok p')
    have "redo_log (stored_area dest tot vs) (md_img (pm_s p')) dest (map val_redo vs)"
      unfolding ok area by (rule stored_redo_log [OF i(2-7) s(4) ub s(1) \<open>list_all val_ok vs\<close> s(5)])
    moreover have "md_img (pm_s p') = logged dest src ?n base tot (md_img (pm_s p))"
      unfolding ok logged_def by (simp add: i(1) ppersist_steady del: of_nat_mult)
    moreover have "md_img (pm_s p') a = md_img (pm_s p) a" if "a \<notin> stored_area dest tot vs" for a
      using that i(2) unfolding ok area by (intro wr_outside) auto
    ultimately show ?thesis using ok i(1) sh by (intro that(1) [of src' p']) (simp_all del: of_nat_mult)
  next
    case (torn e p')
    have "md_img (pm_s p') a = md_img (pm_s p) a" if "a \<notin> stored_area dest tot vs" for a
      using that i(2) unfolding torn area by (intro wr_torn_outside) auto
    then show ?thesis using torn i(1) by (intro that(2) [of e p']) (simp_all del: of_nat_mult)
  qed
qed

end
