(* ===== verification/Buf_Log.thy ===== *)
theory Buf_Log
  imports Val_Log
begin

text \<open>
  Buffer entries, the entries of undo logs: \<open>ulog_entry_buf_create\<close> copies the data in up
  to three pieces and computes the checksum piece by piece; \<open>ulog_entry_valid\<close> checks the
  whole entry at once.
\<close>

lemma pstore_steady:
  "md_power (pm_s p) = None \<Longrightarrow> pstore f off bs p = (Inr (), p\<lparr>pm_ps := pm_ps p @ [(off, bs, f)]\<rparr>)"
  by (cases p) (simp add: pstore_def tick_def Let_def)

lemma pdrain_steady:
  "md_power (pm_s p) = None \<Longrightarrow>
   pdrain p = (Inr (), \<lparr> pm_s = (pm_s p)\<lparr>md_img := drained_img (md_img (pm_s p)) (pm_ps p)\<rparr>,
                        pm_ps = undrained (vis p) (pm_ps p) \<rparr>)"
  by (simp add: pdrain_def tick_def)

lemma vis_pstore: "vis (p\<lparr>pm_ps := pm_ps p @ [(off, bs, f)]\<rparr>) = wr (vis p) off bs"
  by (simp add: vis_def wr_all_append)

lemma csum_pack_unpack: "csum_pack (csum_unpack w) = w"
  unfolding csum_pack_def csum_unpack_def
  by (rule bit_word_eqI) (auto simp: bit_simps)

lemma seq_opt_seq: "seq_opt bs (Inr c) = util_checksum_seq bs c"
  using csum_pack_unpack [of c]
  by (simp add: seq_opt_def util_checksum_seq_def words32_def case_prod_beta)

lemma util_checksum_seq_ok: "length bs mod 4 = 0 \<Longrightarrow> \<exists>c'. util_checksum_seq bs c = Inr c'"
  by (simp add: util_checksum_seq_def)

text \<open>The pieces of an entry and its bytes on the medium.\<close>

definition entry_line :: "u64 \<Rightarrow> u64 \<Rightarrow> byte list \<Rightarrow> u64 \<Rightarrow> byte list" where
  "entry_line dest type src csum =
     le64 (dest OR type) @ le64 csum @ le64 (of_nat (length src)) @
     take (min (length src) 40) src @ replicate (40 - min (length src) 40) 0"

definition entry_rest :: "byte list \<Rightarrow> byte list" where
  "entry_rest src =
     (let r = length src - min (length src) 40
      in drop 40 src @ replicate (if r mod 64 = 0 then 0 else 64 - r mod 64) 0)"

lemma length_entry_line [simp]: "length (entry_line dest type src csum) = 64"
  by (simp add: entry_line_def)

text \<open>The two copies after the first line, and what they make up.\<close>

lemma entry_rest_pieces:
  fixes src
  defines "n \<equiv> length src"
  defines "nc \<equiv> min n 40"
  defines "r \<equiv> 64 * ((n - nc) div 64)"
  defines "l \<equiv> (n - nc) - r"
  shows "take r (drop nc src) @ (if l = 0 then [] else drop (nc + r) src @ replicate (64 - l) 0) = entry_rest src"
    and "length (take r (drop nc src)) = r"
    and "length (if l = 0 then [] else drop (nc + r) src @ replicate (64 - l) 0) mod 64 = 0"
    and "n \<le> 40 \<Longrightarrow> r = 0 \<and> l = 0"
proof -
  have l: "l = (n - nc) mod 64" unfolding l_def r_def by (simp add: minus_mult_div_eq_mod)
  have r: "r \<le> n - nc" unfolding r_def by simp
  show lt: "length (take r (drop nc src)) = r" using r by (simp add: n_def)
  show "n \<le> 40 \<Longrightarrow> r = 0 \<and> l = 0" by (simp add: r_def l_def nc_def)
  have len: "length (drop (nc + r) src) = l" using r by (simp add: l_def n_def)
  show "length (if l = 0 then [] else drop (nc + r) src @ replicate (64 - l) 0) mod 64 = 0"
    using len l by simp
  have d: "drop nc src = drop 40 src" by (auto simp: nc_def n_def min_def)
  have eq: "take r (drop nc src) @ drop (nc + r) src = drop 40 src"
    unfolding d [symmetric] by (metis append_take_drop_id drop_drop add.commute)
  show "take r (drop nc src) @ (if l = 0 then [] else drop (nc + r) src @ replicate (64 - l) 0) = entry_rest src"
  proof (cases "l = 0")
    case True
    then have "drop (nc + r) src = []" using len by simp
    with eq have "take r (drop nc src) = drop 40 src" by (simp only: append_Nil2)
    with True show ?thesis
      unfolding entry_rest_def Let_def n_def [symmetric] nc_def [symmetric] l [symmetric] by simp
  next
    case False
    then show ?thesis
      unfolding entry_rest_def Let_def n_def [symmetric] nc_def [symmetric] l [symmetric] eq [symmetric] by simp
  qed
qed

lemma length_entry_rest: "64 + length (entry_rest src) = 64 * ((length src + 87) div 64)"
proof (cases "length src \<le> 40")
  case True
  then have "(length src + 87) div 64 = 1" by linarith
  with True show ?thesis by (simp add: entry_rest_def)
next
  case False
  then obtain k where k: "length src = 40 + k" "k \<noteq> 0" by (metis le_Suc_ex linorder_linear add_0_right)
  define q s where "q = k div 64" and "s = k mod 64"
  have ks: "k = 64 * q + s" "s < 64" by (simp_all add: q_def s_def)
  have "(k + 63) div 64 = (if s = 0 then q else q + 1)"
  proof (cases "s = 0")
    case False
    then have "k + 63 = 64 * (q + 1) + (s - 1)" "s - 1 < 64" using ks by simp_all
    then show ?thesis using False by (simp add: div_mult_self1)
  qed (simp add: ks)
  then have "k + (if k mod 64 = 0 then 0 else 64 - k mod 64) = 64 * ((k + 63) div 64)"
    using ks by (auto simp: s_def [symmetric])
  moreover have "(length src + 87) div 64 = 1 + (k + 63) div 64"
    using div_add_self1 [of 64 "k + 63"] by (simp add: k add.assoc)
  ultimately show ?thesis by (simp add: entry_rest_def k min_def)
qed

lemma wr_commute:
  "disjoint_ranges a (length x) b (length y) \<Longrightarrow> wr (wr m a x) b y = wr (wr m b y) a x"
  by (rule ext) (auto simp: wr_def disjoint_ranges_def)

text \<open>The checksum computed in pieces.\<close>

definition entry_csum :: "u64 \<Rightarrow> u64 \<Rightarrow> byte list \<Rightarrow> u64 \<Rightarrow> err + u64" where
  "entry_csum dest type src gen_num =
     util_checksum_seq (entry_line dest type src 0 @ entry_rest src @ le64 gen_num) 0"

lemma seq_opt_append:
  assumes "length as mod 4 = 0" "length bs mod 4 = 0"
  shows "seq_opt bs (util_checksum_seq as c) = util_checksum_seq (as @ bs) c"
  using util_checksum_seq_ok [OF assms(1), of c] seq_append [OF assms(1), of bs c] seq_opt_seq by auto

lemma covers_flushed_snoc:
  "covers (flushed_only (ps @ [(off, bs, True)])) a \<longleftrightarrow>
   covers (flushed_only ps) a \<or> off \<le> a \<and> a < off + length bs"
  by (auto simp: flushed_only_def covers_def)

text \<open>The stores of \<open>ulog_entry_buf_create\<close> make up the entry, and the drain makes it durable.\<close>

lemma ulog_entry_buf_create_steady:
  fixes u offset dest type src gen_num
  defines "e \<equiv> ulog_data u + offset"
  assumes pw: "md_power (pm_s p) = None"
  obtains p' csum where "ulog_entry_buf_create u offset gen_num dest src type p = (Inr e, p')"
    "entry_csum dest type src gen_num = Inr csum"
    "vis p' = wr (vis p) (unat e) (entry_line dest type src csum @ entry_rest src)"
    "\<forall>a. unat e \<le> a \<and> a < unat e + 64 + length (entry_rest src) \<longrightarrow> md_img (pm_s p') a = vis p' a"
    "md_power (pm_s p') = None"
proof -
  define n nc where "n = length src" and "nc = min n 40"
  define r where "r = 64 * ((n - nc) div 64)"
  define l where "l = (n - nc) - r"
  define mid last where "mid = take r (drop nc src)"
    and "last = (if l = 0 then [] else drop (nc + r) src @ replicate (64 - l) 0)"
  define line where "line = entry_line dest type src"
  note pieces = entry_rest_pieces [of src, folded n_def nc_def r_def l_def, folded nc_def, folded r_def l_def mid_def last_def]
  have lm: "mid @ last = entry_rest src" "length mid = r" "length last mod 64 = 0" "n \<le> 40 \<Longrightarrow> mid = [] \<and> last = []"
    using pieces by (auto simp: mid_def last_def)
  have r64: "r mod 64 = 0" "r mod 4 = 0" by (simp_all add: r_def)
  have last4: "length last mod 4 = 0" using lm(3) by presburger
  have line4: "length (line c) mod 4 = 0" for c by (simp add: line_def)
  have cs: "seq_opt (le64 gen_num) (seq_opt last (seq_opt mid (util_checksum_seq (line 0) 0))) =
      entry_csum dest type src gen_num"
    unfolding entry_csum_def line_def [symmetric] lm(1) [symmetric]
    using line4 [of 0] r64 last4
    by (simp add: seq_opt_append lm(2) line_def mod_add_eq [symmetric])
  obtain csum where csum: "entry_csum dest type src gen_num = Inr csum"
    using util_checksum_seq_ok [of "line 0 @ mid @ last @ le64 gen_num" 0] r64 last4
    unfolding entry_csum_def line_def lm(1) [symmetric]
    by (auto simp: lm(2) mod_add_eq [symmetric])
  let ?E = "unat e"
  define p1 where "p1 = (if r \<noteq> 0 then p\<lparr>pm_ps := pm_ps p @ [(?E + 24 + nc, mid, True)]\<rparr> else p)"
  define p2 where "p2 = (if l \<noteq> 0 then p1\<lparr>pm_ps := pm_ps p1 @ [(?E + 24 + nc + r, last, True)]\<rparr> else p1)"
  define p3 where "p3 = p2\<lparr>pm_ps := pm_ps p2 @ [(?E, line csum, True)]\<rparr>"
  have pw3: "md_power (pm_s p1) = None" "md_power (pm_s p2) = None" "md_power (pm_s p3) = None"
    using pw by (simp_all add: p1_def p2_def p3_def)
  obtain p4 where p4: "pdrain p3 = (Inr (), p4)" "vis p4 = vis p3"
      "md_img (pm_s p4) = drained_img (md_img (pm_s p3)) (pm_ps p3)" "md_power (pm_s p4) = None"
    using pw3(3) vis_drained [of "md_img (pm_s p3)" "pm_ps p3"]
    by (simp add: pdrain_steady vis_def)
  have v3: "vis p3 = wr (vis p) ?E (line csum @ mid @ last)"
  proof (cases "n \<le> 40")
    case True
    then show ?thesis using lm(4) pieces(4)
      by (simp add: p3_def p2_def p1_def vis_pstore)
  next
    case False
    then have nc: "nc = 40" by (simp add: nc_def)
    have l0: "l = 0 \<Longrightarrow> last = []" "r = 0 \<Longrightarrow> mid = []" by (simp_all add: last_def mid_def)
    have "vis p2 = wr (wr (vis p) (?E + 64) mid) (?E + 64 + r) last"
      using l0 by (auto simp: p2_def p1_def vis_pstore nc add.assoc)
    then have "vis p3 = wr (wr (vis p) (?E + 64) (mid @ last)) ?E (line csum)"
      by (simp add: p3_def vis_pstore wr_append lm(2) add.assoc)
    also have "\<dots> = wr (vis p) ?E (line csum @ mid @ last)"
      by (subst wr_commute) (simp_all add: disjoint_ranges_def line_def wr_append [of _ _ "entry_line _ _ _ _"])
    finally show ?thesis .
  qed
  have covered: "covers (flushed_only (pm_ps p3)) a" if "?E \<le> a" "a < ?E + 64 + length (entry_rest src)" for a
  proof -
    have len: "length (entry_rest src) = r + length last" by (simp add: lm(2) flip: lm(1))
    have c3: "covers (flushed_only (pm_ps p3)) a \<longleftrightarrow> covers (flushed_only (pm_ps p2)) a \<or> ?E \<le> a \<and> a < ?E + 64"
      by (simp add: p3_def covers_flushed_snoc line_def)
    show ?thesis
    proof (cases "n \<le> 40 \<or> a < ?E + 64")
      case True
      then show ?thesis using that lm c3 by auto
    next
      case False
      then have nc: "nc = 40" by (simp add: nc_def)
      have "covers (flushed_only (pm_ps p2)) a"
        using that False len lm(2) pieces(2) last_def
        by (auto simp: p2_def p1_def covers_flushed_snoc nc)
      with c3 show ?thesis by simp
    qed
  qed
  have s1: "(if r \<noteq> 0 then pstore True (?E + 24 + nc) mid p else (Inr (), p)) = (Inr (), p1)"
    using pw by (simp add: p1_def pstore_steady)
  have s2: "(if l \<noteq> 0 then pstore True (?E + 24 + nc + r) last p1 else (Inr (), p1)) = (Inr (), p2)"
    using pw3 by (simp add: p2_def pstore_steady)
  have s3: "pstore True ?E (line csum) p2 = (Inr (), p3)" using pw3 by (simp add: p3_def pstore_steady)
  have lineq: "le64 (dest OR type) @ le64 c @ le64 (of_nat n) @ take nc src @ replicate (40 - nc) 0 = line c" for c
    by (simp add: line_def entry_line_def n_def nc_def)
  show ?thesis
  proof (rule that)
    show "ulog_entry_buf_create u offset gen_num dest src type p = (Inr e, p4)"
      unfolding ulog_entry_buf_create_def Let_def e_def [symmetric] n_def [symmetric] nc_def [symmetric]
        r_def [symmetric] l_def [symmetric] mid_def [symmetric] last_def [symmetric]
      by (simp only: lineq s1 s2 s3 bind_io_Inr cs csum sum.case p4(1))
    show "entry_csum dest type src gen_num = Inr csum" by (rule csum)
    show "vis p4 = wr (vis p) ?E (entry_line dest type src csum @ entry_rest src)"
      using v3 lm(1) p4(2) by (simp add: line_def)
    show "\<forall>a. ?E \<le> a \<and> a < ?E + 64 + length (entry_rest src) \<longrightarrow> md_img (pm_s p4) a = vis p4 a"
      using covered p4 by (simp add: drained_img_def vis_def)
    show "md_power (pm_s p4) = None" by (rule p4(4))
  qed
qed

text \<open>Such an entry is valid and reads back.\<close>

lemma zero_field_entry:
  "zero_field (entry_line dest type src csum @ rest) 8 = entry_line dest type src 0 @ rest"
  by (simp add: zero_field_def put_bytes_def entry_line_def le64_zero)

lemma buf_entry_reads_back:
  fixes m e dest type src csum
  defines "m' \<equiv> wr m (unat e) (entry_line dest type src csum @ entry_rest src)"
  assumes fit: "unat e + 64 * ((length src + 87) div 64) < 2 ^ 64"
    and ty: "is_buf_type type" "dest AND ULOG_OPERATION_MASK = 0"
  shows "ulog_entry_type m' e = type" "ulog_entry_offset m' e = dest" "ld64 m' e \<noteq> 0"
    "ld64 m' (e + 8) = csum" "ld64 m' (e + 16) = of_nat (length src)"
    "unat (ulog_entry_size m' e) = 64 + length (entry_rest src)"
    "rd m' (unat (e + 24)) (length src) = src"
proof -
  let ?img = "entry_line dest type src csum @ entry_rest src" and ?n = "length src"
  have n: "?n + 24 \<le> 64 * ((?n + 87) div 64)" by linarith
  have "64 * ((?n + 87) div 64) < 64 * 2 ^ 58" using fit by simp
  then have "(?n + 87) div 64 + 1 \<le> 2 ^ 58" by simp
  then have n64: "?n + 87 < 2 ^ 64" by simp
  have un: "unat (of_nat ?n :: u64) = ?n" using n64 by (simp add: unat_of_nat_small)
  have li: "length ?img = 64 * ((?n + 87) div 64)" using length_entry_rest by simp
  have "64 * 1 \<le> length ?img" unfolding li by (intro mult_le_mono2) linarith
  then have l64: "64 \<le> length ?img" by simp
  have rdm: "rd m' (unat e + i) j = take j (drop i ?img)" if "i + j \<le> length ?img" for i j
    unfolding m'_def using that by (intro rd_nth_range [of _ _ "length ?img"]) (simp_all add: mem_simps)
  have ad: "unat (e + of_nat i) = unat e + i" if "i \<le> 24" for i
    using that fit l64 li by (subst unat_add_small) (simp_all add: unat_of_nat_small)
  have ld: "ld64 m' (e + of_nat i) = unle64 (take 8 (drop i ?img))" if "i \<le> 16" for i
    using that ad [of i] l64 by (simp add: ld64_def rdm)
  have f: "ld64 m' e = dest OR type" "ld64 m' (e + 8) = csum" "ld64 m' (e + 16) = of_nat ?n"
    using ld [of 0] ld [of 8] ld [of 16] by (simp_all add: entry_line_def)
  then show "ld64 m' (e + 8) = csum" "ld64 m' (e + 16) = of_nat ?n" by simp_all
  have tm: "type AND ULOG_OPERATION_MASK = type" "type \<noteq> 0"
    using ty(1) by (auto simp: is_buf_type_def ulog_op_defs)
  then show t: "ulog_entry_type m' e = type" "ulog_entry_offset m' e = dest"
    using ty(2) and_of_masked [OF tm(1)] and_not_self [OF ty(2)]
    by (simp_all add: ulog_entry_type_def ulog_entry_offset_def f(1) bit.conj_disj_distrib2)
  show "ld64 m' e \<noteq> 0" using t(1) tm(2) by (auto simp: ulog_entry_type_def)
  have nv: "\<not> is_val_type type" using ty(1) by (auto dest: val_type_not_buf)
  have "unat (24 + of_nat ?n :: u64) = 24 + ?n" using n64 un by (subst unat_add_small) simp_all
  then show "unat (ulog_entry_size m' e) = 64 + length (entry_rest src)"
    using n64 ty(1) nv length_entry_rest [of src]
    by (simp add: ulog_entry_size_def t f unat_CACHELINE_ALIGN algebra_simps)
  have "rd m' (unat e + 24) ?n = take ?n (drop 24 ?img)" using n li by (intro rdm) simp
  also have "\<dots> = src" by (simp add: entry_line_def entry_rest_def Let_def min_def)
  finally show "rd m' (unat (e + 24)) ?n = src" using ad [of 24] by simp
qed

lemma buf_entry_valid:
  fixes m e dest type src csum
  defines "m' \<equiv> wr m (unat e) (entry_line dest type src csum @ entry_rest src)"
  assumes fit: "unat e + 64 * ((length src + 87) div 64) < 2 ^ 64"
    and ty: "is_buf_type type" "dest AND ULOG_OPERATION_MASK = 0"
    and gen: "rd m' (unat (u + 24)) 8 = le64 gen_num"
    and csum: "entry_csum dest type src gen_num = Inr csum"
  shows "ulog_entry_valid m' u e"
proof -
  let ?img = "entry_line dest type src csum @ entry_rest src"
  note rb = buf_entry_reads_back [OF fit ty, where m = m and csum = csum, folded m'_def]
  have li: "length ?img = 64 * ((length src + 87) div 64)" using length_entry_rest by simp
  then have l4: "length ?img mod 4 = 0" "8 + 8 \<le> length ?img" by (simp_all add: mod_mult_left_eq [symmetric])
  have z4: "length (entry_line dest type src 0 @ entry_rest src) mod 4 = 0" using l4 by simp
  have rdi: "rd m' (unat e) (unat (ulog_entry_size m' e)) = ?img" unfolding rb(6) by (simp add: m'_def mem_simps)
  have "util_checksum_compute ?img 8 0 = util_checksum_seq (entry_line dest type src 0 @ entry_rest src) 0"
    using compute_seq [OF l4(1) _ l4(2)] by (simp only: zero_field_entry) simp
  moreover obtain c where "util_checksum_seq (entry_line dest type src 0 @ entry_rest src) 0 = Inr c"
    using util_checksum_seq_ok [OF z4] by blast
  ultimately have c: "util_checksum_compute ?img 8 0 = Inr c" "util_checksum_seq (le64 gen_num) c = Inr csum"
    using csum seq_append [OF z4, of "le64 gen_num" 0] by (simp_all add: entry_csum_def)
  show ?thesis using rb(1,3,4) ty(1) c by (simp add: entry_valid_defs rdi gen)
qed

end
