(* ===== verification/Ulog_Theorems.thy ===== *)
theory Ulog_Theorems
  imports Buf_Log
begin

text \<open>
  The theorems about redo logs, and a pool with a log of two entries on which their
  hypotheses hold.
\<close>

lemma clobbered_agree:
  assumes "redo_log A m u xs" "agree A m m'"
  shows "clobbered m' u = clobbered m u"
proof -
  have "unat u + 64 < 2 ^ 64" "{unat u..<unat u + 64} \<subseteq> A" using assms(1) by (simp_all add: redo_log_def)
  from header_words(1) [OF this] show ?thesis
    using assms(2) by (simp add: clobbered_def ulog_next_off_def agree_ld64)
qed

lemma redo_log_mixed_agree: "redo_log A m u xs \<Longrightarrow> mixed xs m m' \<Longrightarrow> agree A m m'"
  by (auto simp: agree_def redo_log_def intro!: mixed_outside [of xs])

lemma wr_some_none: "\<forall>i < length qs. \<forall>w. \<not> sel i w \<Longrightarrow> wr_some sel m qs = m"
proof (induction sel m qs rule: wr_some.induct)
  case (2 sel m off bs ps)
  then have "sel 0 = (\<lambda>_. False)" by auto
  with 2 show ?case by auto
qed simp

section \<open>An example\<close>

definition ex_entries :: "val_entry list" where
  "ex_entries = [(0x10000, 42, ULOG_OPERATION_SET), (0x10008, 7, ULOG_OPERATION_OR)]"

definition ex_shadow :: mem where
  "ex_shadow = wr (\<lambda>_. 0) 64 (val_bytes ex_entries)"

definition ex_pmem :: "nat option \<Rightarrow> (nat \<Rightarrow> nat \<Rightarrow> bool) \<Rightarrow> mem \<Rightarrow> pmem" where
  "ex_pmem n sel m = \<lparr> pm_s = \<lparr> md_img = m, md_power = n, md_torn = sel \<rparr>, pm_ps = [] \<rparr>"

lemma ex_pmem_sel [simp]:
  "pm_ps (ex_pmem n sel m) = []" "md_img (pm_s (ex_pmem n sel m)) = m"
  "md_power (pm_s (ex_pmem n sel m)) = n" "md_torn (pm_s (ex_pmem n sel m)) = sel"
  "live (ex_pmem n sel m) \<longleftrightarrow> n \<noteq> Some 0"
  by (simp_all add: ex_pmem_def live_def powered_def)

lemma ex_len [simp]: "length ex_entries = 2"
  by (simp add: ex_entries_def)

lemma ex_shadow_log: "shadow_log ex_shadow ex_entries"
proof -
  have "rd ex_shadow (64 + 32) 8 = replicate 8 0"
    unfolding ex_shadow_def by (rule nth_equalityI) (simp_all add: wr_def ex_entries_def)
  then show ?thesis
    unfolding shadow_log_def
    by (simp add: ex_shadow_def mem_simps) (simp add: ex_entries_def is_val_type_def ulog_op_defs)
qed

lemma ex_storable: "storable 4096 640 640 ex_entries"
proof -
  have "store_nbytes (of_nat (16 * length ex_entries)) 640 = 64"
    by (simp add: store_nbytes_def ex_entries_def CACHELINE_ALIGN_def roundup64_def)
  then show ?thesis
    unfolding storable_def
    by (simp add: Let_def) (simp add: ex_entries_def redo_dom_def ulog_op_defs)
qed

text \<open>The image after \<open>ulog_store\<close> on an empty pool.\<close>

definition ex_stored :: mem where
  "ex_stored = md_img (pm_s (snd (ulog_store 4096 ex_shadow 32 640 640 [] (ex_pmem None (\<lambda>_ _. False) (\<lambda>_. 0)))))"

lemma ex_redo_log: "redo_log (stored_area 4096 640 ex_entries) ex_stored 4096 (map val_redo ex_entries)"
proof -
  have l: "live (ex_pmem None (\<lambda>_ _. False) (\<lambda>_. 0))" by simp
  have n: "(of_nat (16 * length ex_entries) :: u64) = 32" by (simp add: ex_entries_def)
  show ?thesis
  proof (cases rule: ulog_store_cases [OF ex_storable ex_shadow_log l ex_pmem_sel(1), case_names ok torn])
    case (ok src' p')
    then show ?thesis unfolding n by (simp add: ex_stored_def)
  next
    case (torn e p')
    then show ?thesis by simp
  qed
qed

section \<open>Theorems\<close>

text \<open>
  C4: Recovery can be restarted.  Let the medium hold a redo log with the updates \<open>xs\<close>, and
  let recovery be interrupted by power failures any number of times, with any selection of
  words torn, as long as the header of the log stays as it was.  Then a recovery that is
  not interrupted returns, leaves on the medium what applying the log once to the original
  contents gives, with the log emptied, and no further recovery is needed.
\<close>

theorem ulog_recovery_restartable:
  assumes "redo_log A m u xs" "recoveries u m (md_img (pm_s p))"
    and "pm_ps p = []" "md_power (pm_s p) = None"
  shows "\<exists>p'. ulog_recover u p = Some (Inr (), p') \<and> pm_ps p' = [] \<and>
    md_img (pm_s p') = wr (redo_run xs m) (unat u) (clobbered m u) \<and>
    ulog_recovery_needed (md_img (pm_s p')) u True = Some (Inr False)"
proof -
  let ?m = "md_img (pm_s p)"
  have mx: "mixed xs m ?m" by (rule recoveries_mixed [OF assms(2,1)])
  have log: "redo_log A ?m u xs" by (rule redo_log_mixed [OF assms(1) mx])
  have cl: "clobbered ?m u = clobbered m u"
    by (rule clobbered_agree [OF assms(1) redo_log_mixed_agree [OF assms(1) mx]])
  have u: "unat u + 64 < 2 ^ 64" using assms(1) by (simp add: redo_log_def)
  have l: "live p" using assms(4) by (simp add: live_def powered_def)
  show ?thesis
  proof (cases rule: ulog_recover_cases [OF log l assms(3), case_names complete interrupted])
    case (complete p')
    then show ?thesis
      using clobbered_not_needed [OF u, of "redo_run xs m" m True] redo_run_mixed [OF mx] cl by auto
  next
    case (interrupted e p' qs hs)
    then show ?thesis using assms(4) by auto
  qed
qed

lemma ex_interrupted:
  "recoveries 4096 ex_stored
     (md_img (pm_s (snd (the (ulog_recover 4096 (ex_pmem (Some 1) (\<lambda>_ _. True) ex_stored))))))"
proof -
  let ?p = "ex_pmem (Some 1) (\<lambda>_ _. True) ex_stored"
  have log: "redo_log (stored_area 4096 640 ex_entries) (md_img (pm_s ?p)) 4096 (map val_redo ex_entries)"
    using ex_redo_log by simp
  have none: "recoveries 4096 ex_stored (md_img (pm_s ?p))" using recoveries.none by simp
  show ?thesis
  proof (cases rule: ulog_recover_cases [OF log _ ex_pmem_sel(1), case_names live complete interrupted])
    case (interrupted e p' qs hs)
    then have hs: "hs = []" by simp
    have "mixed (map val_redo ex_entries) ex_stored (md_img (pm_s p'))"
      using interrupted(4,5) hs by (simp add: mixed_wr_some)
    then have "rd (md_img (pm_s p')) 4096 64 = rd ex_stored 4096 64"
      by (intro agree_rd [OF redo_log_mixed_agree [OF ex_redo_log]]) (simp_all add: stored_area_def)
    then have "recoveries 4096 ex_stored (md_img (pm_s p'))"
      by (intro recoveries.failed [OF none _ _ interrupted(1)]) simp_all
    then show ?thesis using interrupted(1) by simp
  qed simp_all
qed

theorem ulog_recovery_restartable_witness:
  "\<exists>p'. ulog_recover 4096 (ex_pmem None (\<lambda>_ _. False) (md_img (pm_s (snd (the
        (ulog_recover 4096 (ex_pmem (Some 1) (\<lambda>_ _. True) ex_stored))))))) = Some (Inr (), p') \<and>
     md_img (pm_s p') = wr (redo_run (map val_redo ex_entries) ex_stored) 4096 (clobbered ex_stored 4096)"
  using ulog_recovery_restartable [OF ex_redo_log, of "ex_pmem None (\<lambda>_ _. False) (md_img (pm_s (snd (the
      (ulog_recover 4096 (ex_pmem (Some 1) (\<lambda>_ _. True) ex_stored))))))"] ex_interrupted
  by auto

text \<open>
  C7: Recovery loses updates when the power fails while it empties the log.
  \<open>ulog_process\<close> flushes the updates and does not wait for them; \<open>ulog_clobber\<close> then stores
  the empty header.  If the power fails before the drain of that store has completed, the
  header may be on the medium and the updates not: then recovery is not needed any more
  and the medium holds the old contents.
\<close>

theorem ulog_recover_loses_updates:
  assumes "redo_log A (md_img (pm_s p)) u xs" "pm_ps p = []"
    and "md_power (pm_s p) = Some (length xs + 2)" "md_torn (pm_s p) = (\<lambda>i w. i = length xs)"
  shows "\<exists>e p'. ulog_recover u p = Some (Inl e, p') \<and>
    md_img (pm_s p') = wr (md_img (pm_s p)) (unat u) (clobbered (md_img (pm_s p)) u) \<and>
    ulog_recovery_needed (md_img (pm_s p')) u True = Some (Inr False)"
proof -
  have l: "live p" using assms(3) by (simp add: live_def powered_def)
  have u: "unat u + 64 < 2 ^ 64" using assms(1) by (simp add: redo_log_def)
  show ?thesis
  proof (cases rule: ulog_recover_cases [OF assms(1) l assms(2), case_names complete interrupted])
    case (complete p')
    then show ?thesis using assms(3) by auto
  next
    case (interrupted e p' qs hs)
    then have h: "hs = [(unat u, clobbered (md_img (pm_s p)) u)]" "length qs = length xs"
      using assms(3) by auto
    have "md_img (pm_s p') = wr (md_img (pm_s p)) (unat u) (clobbered (md_img (pm_s p)) u)"
      using interrupted(4) unfolding assms(4) wr_some_append h
      by (simp add: wr_some_none h(2) wr_torn_all)
    then show ?thesis using interrupted(1) clobbered_not_needed [OF u] by simp
  qed
qed

theorem ulog_recover_loses_updates_witness:
  "\<exists>e p'. ulog_recover 4096 (ex_pmem (Some 4) (\<lambda>i w. i = 2) ex_stored) = Some (Inl e, p') \<and>
     md_img (pm_s p') = wr ex_stored 4096 (clobbered ex_stored 4096) \<and>
     ulog_recovery_needed (md_img (pm_s p')) 4096 True = Some (Inr False)"
  using ulog_recover_loses_updates [of _ "ex_pmem (Some 4) (\<lambda>i w. i = 2) ex_stored" 4096 "map val_redo ex_entries"]
    ex_redo_log by simp

text \<open>
  C5: A log that is stored and recovered takes effect.  A shadow log with the value entries
  \<open>vs\<close> that fits in the first log is written by \<open>ulog_store\<close>; whenever \<open>ulog_recover\<close> then
  runs, the memory outside of the log is what applying the entries to the original memory
  gives.
\<close>

theorem ulog_store_recover:
  assumes "storable dest base tot vs" "shadow_log src vs"
    and "pm_ps p = []" "md_power (pm_s p) = None"
  shows "\<exists>src' p1 p2. ulog_store dest src (of_nat (16 * length vs)) base tot [] p = (Inr src', p1) \<and>
    ulog_recover dest p1 = Some (Inr (), p2) \<and> pm_ps p2 = [] \<and>
    (\<forall>a. a \<notin> stored_area dest tot vs \<longrightarrow>
       md_img (pm_s p2) a = redo_run (map val_redo vs) (md_img (pm_s p)) a)"
proof -
  let ?xs = "map val_redo vs" and ?A = "stored_area dest tot vs" and ?m = "md_img (pm_s p)"
  have l: "live p" using assms(4) by (simp add: live_def powered_def)
  show ?thesis
  proof (cases rule: ulog_store_cases [OF assms(1,2) l assms(3), case_names ok torn])
    case (torn e p')
    then show ?thesis using assms(4) by auto
  next
    case (ok src' p1)
    let ?m1 = "md_img (pm_s p1)"
    have hdr: "{unat dest..<unat dest + 64} \<subseteq> ?A" using ok(4) by (simp add: redo_log_def)
    show ?thesis
    proof (cases rule: ulog_recover_cases [OF ok(4) ok(2,3), case_names complete interrupted])
      case (interrupted e p' qs hs)
      then show ?thesis using assms(4) ok(8) by auto
    next
      case (complete p2)
      have "md_img (pm_s p2) a = redo_run ?xs ?m a" if a: "a \<notin> ?A" for a
      proof -
        have "md_img (pm_s p2) a = redo_run ?xs ?m1 a"
          unfolding complete using a hdr
          by (intro wr_outside) (metis atLeastLessThan_iff length_clobbered not_le subsetD)
        also have "\<dots> = redo_run ?xs ?m a" using ok(6) a by (intro redo_run_local) simp
        finally show ?thesis .
      qed
      then show ?thesis using ok complete by blast
    qed
  qed
qed

theorem ulog_store_recover_witness:
  "\<exists>src' p1 p2. ulog_store 4096 ex_shadow (of_nat (16 * length ex_entries)) 640 640 []
       (ex_pmem None (\<lambda>_ _. False) (\<lambda>_. 0)) = (Inr src', p1) \<and>
     ulog_recover 4096 p1 = Some (Inr (), p2) \<and> pm_ps p2 = []"
  using ulog_store_recover [OF ex_storable ex_shadow_log, of "ex_pmem None (\<lambda>_ _. False) (\<lambda>_. 0)"] by auto

text \<open>
  C6: Buffer entries round trip.  With power, \<open>ulog_entry_buf_create\<close> leaves at its address a
  valid entry with the given destination, type and data for buffers of any length that
  fits; the entry is durable when the call returns and nothing else has changed.  The
  checksum that is accumulated over the three copies is the one \<open>ulog_entry_valid\<close>
  recomputes over the whole entry and the generation number of the log.
\<close>

theorem ulog_entry_buf_roundtrip:
  assumes "md_power (pm_s p) = None"
    and "is_buf_type type" "dest AND ULOG_OPERATION_MASK = 0"
    and "gen_num = ulog_gen_num (vis p) u"
    and "unat u + 64 \<le> unat (ulog_data u + offset)"
    and "unat (ulog_data u + offset) + 64 * ((length src + 87) div 64) < 2 ^ 64"
  shows "\<exists>p'. ulog_entry_buf_create u offset gen_num dest src type p = (Inr (ulog_data u + offset), p') \<and>
    ulog_entry_valid (vis p') u (ulog_data u + offset) \<and>
    ulog_entry_type (vis p') (ulog_data u + offset) = type \<and>
    ulog_entry_offset (vis p') (ulog_data u + offset) = dest \<and>
    ld64 (vis p') (ulog_data u + offset + 16) = of_nat (length src) \<and>
    rd (vis p') (unat (ulog_data u + offset + 24)) (length src) = src \<and>
    (\<forall>a. if unat (ulog_data u + offset) \<le> a \<and>
            a < unat (ulog_data u + offset) + 64 * ((length src + 87) div 64)
         then md_img (pm_s p') a = vis p' a else vis p' a = vis p a)"
proof -
  let ?e = "ulog_data u + offset"
  obtain p' csum where p':
    "ulog_entry_buf_create u offset gen_num dest src type p = (Inr ?e, p')"
    "entry_csum dest type src gen_num = Inr csum"
    "vis p' = wr (vis p) (unat ?e) (entry_line dest type src csum @ entry_rest src)"
    "\<forall>a. unat ?e \<le> a \<and> a < unat ?e + 64 + length (entry_rest src) \<longrightarrow> md_img (pm_s p') a = vis p' a"
    using ulog_entry_buf_create_steady [OF assms(1), of u offset gen_num dest src type] by blast
  have "unat (u + 24) = unat u + 24" using assms(5,6) by (subst unat_add_small) simp_all
  then have "rd (vis p') (unat (u + 24)) 8 = rd (vis p) (unat (u + 24)) 8"
    unfolding p'(3) using assms(5) by (intro rd_wr_disjoint) (simp add: disjoint_ranges_def)
  also have "\<dots> = le64 gen_num" using assms(4) by (simp add: ulog_gen_num_def ld64_def le_simps)
  finally have gen: "rd (vis p') (unat (u + 24)) 8 = le64 gen_num" .
  have frame: "if unat ?e \<le> a \<and> a < unat ?e + 64 * ((length src + 87) div 64)
      then md_img (pm_s p') a = vis p' a else vis p' a = vis p a" for a
    using p'(4) unfolding p'(3) length_entry_rest [symmetric] by (auto simp: add.assoc intro!: wr_outside)
  note valid = buf_entry_valid [OF assms(6,2,3) gen [unfolded p'(3)] p'(2), folded p'(3)]
  note rb = buf_entry_reads_back [OF assms(6,2,3), where m = "vis p" and csum = csum, folded p'(3)]
  show ?thesis
    using p'(1) valid rb frame by (intro exI [of _ p']) simp
qed

theorem ulog_entry_buf_roundtrip_witness:
  "\<exists>p'. ulog_entry_buf_create 4096 0 0 0x10000 (replicate 200 9) ULOG_OPERATION_BUF_CPY
       (ex_pmem None (\<lambda>_ _. False) (\<lambda>_. 0)) = (Inr 4160, p') \<and>
     ulog_entry_valid (vis p') 4096 4160 \<and> rd (vis p') 4184 200 = replicate 200 9"
proof -
  have "ulog_gen_num (vis (ex_pmem None (\<lambda>_ _. False) (\<lambda>_. 0))) 4096 = 0"
    by (simp add: ulog_gen_num_def vis_def ex_pmem_def ld64_def rd_def map_replicate_trivial unle64_zeros)
  then show ?thesis
    using ulog_entry_buf_roundtrip [of "ex_pmem None (\<lambda>_ _. False) (\<lambda>_. 0)" ULOG_OPERATION_BUF_CPY 65536 0 4096 0 "replicate 200 9"]
    by (simp add: ulog_data_def is_buf_type_def) (auto simp: ulog_op_defs)
qed

lemma foreach_log_unknown_type:
  assumes "ulog_foreach_log cb gen r offset p = Some y" "cb = ulog_process_entry"
    and "offset < ulog_cap (vis p) r" "ld64 (vis p) (ulog_data r + offset) \<noteq> 0"
    and "\<not> is_val_type (ulog_entry_type (vis p) (ulog_data r + offset))"
      "\<not> is_buf_type (ulog_entry_type (vis p) (ulog_data r + offset))"
  shows False
  using assms(2-)
proof (induction rule: ulog_foreach_log.raw_induct [OF _ assms(1)])
  case (1 rec cb gen r offset p y)
  let ?e = "ulog_data r + offset"
  have "ulog_entry_apply (vis p) ?e False p = (Inr (), p)"
    using 1(5-) by (auto simp: ulog_entry_apply_def Let_def is_val_type_def is_buf_type_def)
  then have cb: "cb ?e p = (Inr 0, p)" using 1(3) by (simp add: ulog_process_entry_def)
  have v: "entry_valid_gen (vis p) (gen p) ?e" using 1(5-) by (simp add: entry_valid_defs)
  have sz: "ulog_entry_size (vis p) ?e = 0" using 1(5-) by (simp add: ulog_entry_size_def)
  have "rec cb gen r offset p = Some y" using 1(2,4) v by (simp add: Let_def cb sz)
  then show False using 1 by blast
qed

text \<open>
  C8: An entry whose operation type does not exist makes the processing of a log run
  forever: such an entry is valid, its size is 0, and the iteration does not advance.
\<close>

theorem ulog_process_unknown_type_hangs:
  assumes "0 < ulog_cap (vis p) u" "ld64 (vis p) (ulog_data u) \<noteq> 0"
    and "\<not> is_val_type (ulog_entry_type (vis p) (ulog_data u))"
      "\<not> is_buf_type (ulog_entry_type (vis p) (ulog_data u))"
  shows "ulog_process u p = None"
proof -
  have "ulog_foreach_log ulog_process_entry (gen_of u) u 0 p = None"
    using foreach_log_unknown_type [OF _ refl, of "gen_of u" u 0 p] assms
    by (cases "ulog_foreach_log ulog_process_entry (gen_of u) u 0 p") auto
  then show ?thesis
    by (simp add: ulog_process_def ulog_foreach_entry_def ulog_foreach_from_at foreach_at_def)
qed

theorem ulog_process_unknown_type_hangs_witness:
  "ulog_process 4096 (ex_pmem None (\<lambda>_ _. False) (wr (\<lambda>_. 0) 4112 (le64 64 @ replicate 40 0 @ le64 0x6000000000000001))) = None"
proof -
  let ?m = "wr (\<lambda>_. 0) 4112 (le64 64 @ replicate 40 0 @ le64 0x6000000000000001)"
  have v: "vis (ex_pmem None (\<lambda>_ _. False) ?m) = ?m" by (simp add: vis_def)
  have all: "rd ?m 4112 56 = le64 64 @ replicate 40 0 @ le64 0x6000000000000001" by (simp add: mem_simps)
  have f: "ulog_cap ?m 4096 = 64" "ld64 ?m (ulog_data 4096) = 0x6000000000000001"
    using rd_nth_range [OF all, of 0 8] rd_nth_range [OF all, of 48 8]
    by (simp_all add: ulog_cap_def ld64_def ulog_data_def)
  show ?thesis
    by (rule ulog_process_unknown_type_hangs)
      (simp_all add: v f ulog_entry_type_def is_val_type_def is_buf_type_def ulog_op_defs)
qed

end
