(* ===== verification/Vecq.thy ===== *)
theory Vecq
  imports Prelude
begin

text \<open>
  The vector queue of common/vecq.h: a ring buffer whose capacity is a power of two.  The
  cells of the buffer are a function from positions; \<open>size_t\<close> counters are natural
  numbers (they count the elements ever queued).  Growing may fail for lack of memory.  An
  element may be taken from a queue that has one only: on an empty queue the macro would
  move \<open>front\<close> past \<open>back\<close> and the size would wrap around.  The only caller,
  \<open>operation_merge_entry_add\<close>, dequeues from a full queue.
\<close>

definition VECQ_INIT_SIZE :: nat where "VECQ_INIT_SIZE = 64"

record vecq =
  vq_buffer :: "nat \<Rightarrow> u64"
  vq_capacity :: nat
  vq_front :: nat
  vq_back :: nat

definition VECQ_INIT :: vecq where
  "VECQ_INIT = \<lparr> vq_buffer = (\<lambda>_. 0), vq_capacity = 0, vq_front = 0, vq_back = 0 \<rparr>"

text \<open>\<open>i & (capacity - 1)\<close>; with capacity 0 the mask is all ones.\<close>

definition vecq_pos :: "vecq \<Rightarrow> nat \<Rightarrow> nat" where
  "vecq_pos q i = (if vq_capacity q = 0 then i else i mod vq_capacity q)"

definition VECQ_FRONT_POS :: "vecq \<Rightarrow> nat" where
  "VECQ_FRONT_POS q = vecq_pos q (vq_front q)"

definition VECQ_BACK_POS :: "vecq \<Rightarrow> nat" where
  "VECQ_BACK_POS q = vecq_pos q (vq_back q)"

definition VECQ_DEQUEUE :: "vecq \<Rightarrow> u64 \<times> vecq" where
  "VECQ_DEQUEUE q = (vq_buffer q (VECQ_FRONT_POS q), q\<lparr>vq_front := vq_front q + 1\<rparr>)"

definition VECQ_SIZE :: "vecq \<Rightarrow> nat" where
  "VECQ_SIZE q = vq_back q - vq_front q"

definition VECQ_NCAPACITY :: "vecq \<Rightarrow> nat" where
  "VECQ_NCAPACITY q = (if vq_capacity q = 0 then VECQ_INIT_SIZE else vq_capacity q * 2)"

definition VECQ_GROW :: "vecq \<Rightarrow> vecq" where
  "VECQ_GROW q =
     (let front_pos = VECQ_FRONT_POS q
      in \<lparr> vq_buffer = (\<lambda>i. if vq_capacity q \<le> i \<and> i < vq_capacity q + front_pos
                           then vq_buffer q (i - vq_capacity q) else vq_buffer q i),
           vq_capacity = VECQ_NCAPACITY q, vq_front = front_pos, vq_back = front_pos + vq_capacity q \<rparr>)"

definition VECQ_INSERT :: "vecq \<Rightarrow> u64 \<Rightarrow> vecq" where
  "VECQ_INSERT q x = q\<lparr>vq_buffer := (vq_buffer q)(VECQ_BACK_POS q := x), vq_back := vq_back q + 1\<rparr>"

definition VECQ_ENQUEUE :: "bool \<Rightarrow> vecq \<Rightarrow> u64 \<Rightarrow> vecq option" where
  "VECQ_ENQUEUE grow_ok q x =
     (if vq_capacity q = VECQ_SIZE q
      then (if grow_ok then Some (VECQ_INSERT (VECQ_GROW q) x) else None)
      else Some (VECQ_INSERT q x))"

text \<open>The elements in the order in which \<open>VECQ_FOREACH_REVERSE\<close> visits them.\<close>

definition VECQ_FOREACH_REVERSE :: "vecq \<Rightarrow> u64 list" where
  "VECQ_FOREACH_REVERSE q = map (\<lambda>i. vq_buffer q (vecq_pos q i)) (rev [0..<VECQ_SIZE q])"

definition VECQ_CLEAR :: "vecq \<Rightarrow> vecq" where
  "VECQ_CLEAR q = q\<lparr>vq_front := 0, vq_back := 0\<rparr>"

text \<open>The queue as the list of its elements, oldest first.\<close>

definition vecq_list :: "vecq \<Rightarrow> u64 list" where
  "vecq_list q = map (\<lambda>i. vq_buffer q (vecq_pos q i)) [vq_front q..<vq_back q]"

definition vecq_wf :: "vecq \<Rightarrow> bool" where
  "vecq_wf q \<longleftrightarrow> vq_front q \<le> vq_back q \<and> vq_back q - vq_front q \<le> vq_capacity q"

lemma vecq_pos_less: "0 < vq_capacity q \<Longrightarrow> vecq_pos q i < vq_capacity q"
  by (simp add: vecq_pos_def)

lemma mod_window_inj:
  fixes i j c :: nat
  assumes "i mod c = j mod c" "i \<le> j" "j - i < c"
  shows "i = j"
proof -
  have "(j - i) mod c = 0" using assms(1,2) by (metis mod_eq_dvd_iff_nat mod_0_imp_dvd dvd_eq_mod_eq_0)
  with assms show ?thesis by simp
qed

lemma vecq_insert_list:
  assumes "vecq_wf q" "VECQ_SIZE q < vq_capacity q"
  shows "vecq_list (VECQ_INSERT q x) = vecq_list q @ [x]" "vecq_wf (VECQ_INSERT q x)"
proof -
  have fb: "vq_front q \<le> vq_back q" using assms(1) by (simp add: vecq_wf_def)
  have "vecq_pos q i \<noteq> VECQ_BACK_POS q" if "vq_front q \<le> i" "i < vq_back q" for i
  proof -
    have "vq_back q - i < vq_capacity q" using that assms(2) by (simp add: VECQ_SIZE_def)
    then show ?thesis using mod_window_inj [of i "vq_capacity q" "vq_back q"] that
      by (auto simp: vecq_pos_def VECQ_BACK_POS_def)
  qed
  then show "vecq_list (VECQ_INSERT q x) = vecq_list q @ [x]"
    using fb by (auto simp: vecq_list_def VECQ_INSERT_def VECQ_BACK_POS_def vecq_pos_def)
  show "vecq_wf (VECQ_INSERT q x)"
    using assms by (simp add: vecq_wf_def VECQ_INSERT_def VECQ_SIZE_def)
qed

lemma vecq_grow_list:
  assumes wf: "vecq_wf q" and full: "vq_capacity q = VECQ_SIZE q"
  shows "vecq_list (VECQ_GROW q) = vecq_list q" "vecq_wf (VECQ_GROW q)" "VECQ_SIZE (VECQ_GROW q) < vq_capacity (VECQ_GROW q)"
    "vq_capacity (VECQ_GROW q) = VECQ_NCAPACITY q"
proof -
  let ?c = "vq_capacity q" and ?f = "VECQ_FRONT_POS q"
  have c: "?c = vq_back q - vq_front q" using full by (simp add: VECQ_SIZE_def)
  show "vecq_wf (VECQ_GROW q)" "VECQ_SIZE (VECQ_GROW q) < vq_capacity (VECQ_GROW q)" "vq_capacity (VECQ_GROW q) = VECQ_NCAPACITY q"
    by (simp_all add: vecq_wf_def VECQ_GROW_def VECQ_SIZE_def Let_def VECQ_NCAPACITY_def VECQ_INIT_SIZE_def)
  show "vecq_list (VECQ_GROW q) = vecq_list q"
  proof (cases "?c = 0")
    case True
    then show ?thesis using c wf by (simp add: vecq_list_def VECQ_GROW_def Let_def vecq_wf_def)
  next
    case False
    have f: "?f < ?c" using False by (simp add: VECQ_FRONT_POS_def vecq_pos_def)
    show ?thesis
    proof (rule nth_equalityI)
      show "length (vecq_list (VECQ_GROW q)) = length (vecq_list q)"
        by (simp add: vecq_list_def VECQ_GROW_def Let_def c)
    next
      fix i
      assume "i < length (vecq_list (VECQ_GROW q))"
      then have i: "i < ?c" by (simp add: vecq_list_def VECQ_GROW_def Let_def)
      have "vecq_pos (VECQ_GROW q) (?f + i) = ?f + i"
        using False f i by (simp add: vecq_pos_def VECQ_GROW_def Let_def VECQ_NCAPACITY_def)
      moreover have "vecq_pos q (vq_front q + i) = (if ?f + i < ?c then ?f + i else ?f + i - ?c)"
      proof -
        have "(vq_front q + i) mod ?c = (?f + i) mod ?c"
          using False by (simp add: VECQ_FRONT_POS_def vecq_pos_def mod_add_left_eq)
        also have "\<dots> = (if ?f + i < ?c then ?f + i else ?f + i - ?c)"
          using f i by (auto simp: le_mod_geq)
        finally show ?thesis using False by (simp add: vecq_pos_def)
      qed
      ultimately show "vecq_list (VECQ_GROW q) ! i = vecq_list q ! i"
        using i f c by (auto simp: vecq_list_def VECQ_GROW_def Let_def)
    qed
  qed
qed

text \<open>
  Queuing an element appends it, and growing keeps the elements.
\<close>

lemma vecq_enqueue_list:
  assumes "vecq_wf q" "VECQ_ENQUEUE ok q x = Some q'"
  shows "vecq_list q' = vecq_list q @ [x]" "vecq_wf q'"
proof -
  have "VECQ_SIZE q \<le> vq_capacity q" using assms(1) by (simp add: vecq_wf_def VECQ_SIZE_def)
  then show "vecq_list q' = vecq_list q @ [x]" "vecq_wf q'"
    using assms vecq_insert_list [of q x] vecq_grow_list [of q] vecq_insert_list [of "VECQ_GROW q" x]
    by (auto simp: VECQ_ENQUEUE_def split: if_splits)
qed

lemma vecq_dequeue_list:
  assumes "vecq_wf q" "VECQ_SIZE q \<noteq> 0"
  shows "vecq_list q = fst (VECQ_DEQUEUE q) # vecq_list (snd (VECQ_DEQUEUE q))" "vecq_wf (snd (VECQ_DEQUEUE q))"
  using assms
  by (auto simp: vecq_list_def VECQ_DEQUEUE_def VECQ_FRONT_POS_def VECQ_SIZE_def vecq_wf_def vecq_pos_def upt_conv_Cons)

text \<open>
  The reverse iteration starts at position 0 of the buffer, not at the front.  It visits
  the elements newest first as long as nothing has been removed.
\<close>

lemma foreach_reverse_list: "vq_front q = 0 \<Longrightarrow> VECQ_FOREACH_REVERSE q = rev (vecq_list q)"
  by (simp add: VECQ_FOREACH_REVERSE_def vecq_list_def VECQ_SIZE_def rev_map)

text \<open>
  In a full queue with the front at position \<open>f\<close> it visits the newest \<open>f\<close> elements last.
\<close>

lemma foreach_reverse_rotated:
  assumes "vecq_wf q" "VECQ_SIZE q = vq_capacity q" "0 < vq_capacity q"
  shows "VECQ_FOREACH_REVERSE q = rev (rotate (vq_capacity q - VECQ_FRONT_POS q) (vecq_list q))"
proof -
  let ?c = "vq_capacity q" and ?f = "VECQ_FRONT_POS q" and ?L = "vecq_list q"
  have f: "?f = vq_front q mod ?c" "?f < ?c" using assms(3) by (simp_all add: VECQ_FRONT_POS_def vecq_pos_def)
  have len: "length ?L = ?c" using assms(2) by (simp add: vecq_list_def VECQ_SIZE_def)
  have "map (\<lambda>i. vq_buffer q (vecq_pos q i)) [0..<?c] = rotate (?c - ?f) ?L"
  proof (rule nth_equalityI)
    fix i
    assume "i < length (map (\<lambda>i. vq_buffer q (vecq_pos q i)) [0..<?c])"
    then have i: "i < ?c" by simp
    define j where "j = (?c - ?f + i) mod ?c"
    have j: "j < ?c" using assms(3) by (simp add: j_def)
    have "(vq_front q + j) mod ?c = (?f + (?c - ?f + i)) mod ?c" unfolding j_def f(1) by (simp add: mod_simps)
    also have "\<dots> = i" using i f(2) by simp
    finally have "vecq_pos q (vq_front q + j) = i" using assms(3) by (simp add: vecq_pos_def)
    moreover have "vecq_pos q i = i" using i by (simp add: vecq_pos_def)
    moreover have "?L ! j = vq_buffer q (vecq_pos q (vq_front q + j))"
      using j assms(2) by (simp add: vecq_list_def VECQ_SIZE_def)
    moreover have "rotate (?c - ?f) ?L ! i = ?L ! j" using i len by (simp add: nth_rotate j_def)
    ultimately show "map (\<lambda>i. vq_buffer q (vecq_pos q i)) [0..<?c] ! i = rotate (?c - ?f) ?L ! i" using i by simp
  qed (simp add: len)
  then show ?thesis unfolding VECQ_FOREACH_REVERSE_def assms(2) rev_map [symmetric] by simp
qed

end
