(* ===== verification/Ravl.thy ===== *)
theory Ravl
  imports Prelude
begin

text \<open>
  The relaxed AVL tree of libpmemobj (ravl.c): an ordered tree with ranks, in which only
  insertion rebalances.  A node is an element of a datatype; a pointer to a node is the
  node with the path to the root, the chain of its parent pointers.  The order is given by
  a comparison function.  Ranks are integers; they grow by at most one per insertion.
\<close>

section \<open>Nodes and their position\<close>

text \<open>The slot type of a root (\<open>RAVL_ROOT\<close>) is \<open>None\<close>.\<close>

datatype ravl_slot_type = RAVL_LEFT | RAVL_RIGHT

datatype 'a ravl_node = RNil | RNode "'a ravl_node" int 'a "'a ravl_node"

text \<open>A parent: the slot in which the child lies, rank and data, and the other child.\<close>

datatype 'a parent = Parent ravl_slot_type int 'a "'a ravl_node"

type_synonym 'a node_ptr = "'a ravl_node \<times> 'a parent list"

record 'a ravl =
  rv_root :: "'a ravl_node"
  rv_compare :: "'a \<Rightarrow> 'a \<Rightarrow> int"

definition ravl_new :: "('a \<Rightarrow> 'a \<Rightarrow> int) \<Rightarrow> 'a ravl" where
  "ravl_new compare = \<lparr> rv_root = RNil, rv_compare = compare \<rparr>"

text \<open>The callbacks of \<open>ravl_foreach_node\<close> run in order.\<close>

fun ravl_foreach_node :: "'a ravl_node \<Rightarrow> ('a \<Rightarrow> 's \<Rightarrow> 's) \<Rightarrow> 's \<Rightarrow> 's" where
  "ravl_foreach_node RNil cb s = s"
| "ravl_foreach_node (RNode l k x r) cb s = ravl_foreach_node r cb (cb x (ravl_foreach_node l cb s))"

definition ravl_clear :: "'a ravl \<Rightarrow> 'a ravl" where
  "ravl_clear ravl = ravl\<lparr>rv_root := RNil\<rparr>"

definition ravl_delete_cb :: "'a ravl \<Rightarrow> ('a \<Rightarrow> 's \<Rightarrow> 's) \<Rightarrow> 's \<Rightarrow> 's" where
  "ravl_delete_cb ravl cb s = ravl_foreach_node (rv_root ravl) cb s"

definition ravl_foreach :: "'a ravl \<Rightarrow> ('a \<Rightarrow> 's \<Rightarrow> 's) \<Rightarrow> 's \<Rightarrow> 's" where
  "ravl_foreach ravl cb s = ravl_foreach_node (rv_root ravl) cb s"

definition ravl_empty :: "'a ravl \<Rightarrow> bool" where
  "ravl_empty ravl \<longleftrightarrow> (case rv_root ravl of RNil \<Rightarrow> True | RNode l k x r \<Rightarrow> False)"

definition ravl_new_node :: "'a \<Rightarrow> 'a ravl_node" where
  "ravl_new_node x = RNode RNil 0 x RNil"

definition ravl_slot_opposite :: "ravl_slot_type \<Rightarrow> ravl_slot_type" where
  "ravl_slot_opposite t = (if t = RAVL_LEFT then RAVL_RIGHT else RAVL_LEFT)"

definition ravl_node_slot_type :: "'a node_ptr \<Rightarrow> ravl_slot_type option" where
  "ravl_node_slot_type p = (case snd p of [] \<Rightarrow> None | Parent t k x s # ps \<Rightarrow> Some t)"

definition ravl_node_sibling :: "'a node_ptr \<Rightarrow> 'a ravl_node" where
  "ravl_node_sibling p = (case snd p of [] \<Rightarrow> RNil | Parent t k x s # ps \<Rightarrow> s)"

text \<open>The parent with \<open>n\<close> as its child.\<close>

definition with_child :: "ravl_slot_type \<Rightarrow> int \<Rightarrow> 'a \<Rightarrow> 'a ravl_node \<Rightarrow> 'a ravl_node \<Rightarrow> 'a ravl_node" where
  "with_child t k x n s = (if t = RAVL_LEFT then RNode n k x s else RNode s k x n)"

text \<open>The tree in which a pointer points, as seen from its root.\<close>

fun root_of :: "'a ravl_node \<Rightarrow> 'a parent list \<Rightarrow> 'a ravl_node" where
  "root_of n [] = n"
| "root_of n (Parent t k x s # ps) = root_of (with_child t k x n s) ps"

fun ravl_slot :: "'a ravl_node \<Rightarrow> ravl_slot_type \<Rightarrow> 'a ravl_node" where
  "ravl_slot RNil t = RNil"
| "ravl_slot (RNode l k x r) t = (if t = RAVL_LEFT then l else r)"

text \<open>The pointer to a child.\<close>

fun slot_ptr :: "'a node_ptr \<Rightarrow> ravl_slot_type \<Rightarrow> 'a node_ptr" where
  "slot_ptr (RNil, ps) t = (RNil, ps)"
| "slot_ptr (RNode l k x r, ps) t =
     (if t = RAVL_LEFT then (l, Parent RAVL_LEFT k x r # ps) else (r, Parent RAVL_RIGHT k x l # ps))"

section \<open>Ranks\<close>

fun ravl_node_rank :: "'a ravl_node \<Rightarrow> int" where
  "ravl_node_rank RNil = - 1"
| "ravl_node_rank (RNode l k x r) = k"

definition parent_rank :: "'a parent list \<Rightarrow> int" where
  "parent_rank ps = (case ps of [] \<Rightarrow> - 1 | Parent t k x s # ps' \<Rightarrow> k)"

definition ravl_node_rank_difference :: "'a node_ptr \<Rightarrow> int" where
  "ravl_node_rank_difference p = parent_rank (snd p) - ravl_node_rank (fst p)"

definition ravl_node_is_i_j :: "'a ravl_node \<Rightarrow> int \<Rightarrow> int \<Rightarrow> bool" where
  "ravl_node_is_i_j n i j \<longleftrightarrow>
     ravl_node_rank n - ravl_node_rank (ravl_slot n RAVL_LEFT) = i \<and>
     ravl_node_rank n - ravl_node_rank (ravl_slot n RAVL_RIGHT) = j"

definition ravl_node_is :: "'a ravl_node \<Rightarrow> int \<Rightarrow> int \<Rightarrow> bool" where
  "ravl_node_is n i j \<longleftrightarrow> ravl_node_is_i_j n i j \<or> ravl_node_is_i_j n j i"

fun ravl_node_promote :: "'a ravl_node \<Rightarrow> 'a ravl_node" where
  "ravl_node_promote RNil = RNil"
| "ravl_node_promote (RNode l k x r) = RNode l (k + 1) x r"

fun ravl_node_demote :: "'a ravl_node \<Rightarrow> 'a ravl_node" where
  "ravl_node_demote RNil = RNil"
| "ravl_node_demote (RNode l k x r) = RNode l (k - 1) x r"

fun in_slot :: "('a ravl_node \<Rightarrow> 'a ravl_node) \<Rightarrow> 'a ravl_node \<Rightarrow> ravl_slot_type \<Rightarrow> 'a ravl_node" where
  "in_slot f RNil t = RNil"
| "in_slot f (RNode l k x r) t = (if t = RAVL_LEFT then RNode (f l) k x r else RNode l k x (f r))"

section \<open>Balancing\<close>

text \<open>The node takes the place of its parent, which becomes its child.\<close>

fun ravl_rotate :: "'a node_ptr \<Rightarrow> 'a node_ptr" where
  "ravl_rotate (RNode l k x r, Parent t pk px s # ps) =
     (if t = RAVL_LEFT then (RNode l k x (RNode r pk px s), ps)
      else (RNode (RNode s pk px l) k x r, ps))"
| "ravl_rotate p = p"

text \<open>The first loop of \<open>ravl_balance\<close>.\<close>

fun promote_parents :: "'a ravl_node \<Rightarrow> 'a parent list \<Rightarrow> 'a node_ptr" where
  "promote_parents n [] = (n, [])"
| "promote_parents n (Parent t k x s # ps) =
     (if ravl_node_is (with_child t k x n s) 0 1
      then promote_parents (ravl_node_promote (with_child t k x n s)) ps
      else (n, Parent t k x s # ps))"

definition ravl_balance :: "'a node_ptr \<Rightarrow> 'a node_ptr" where
  "ravl_balance p =
     (let (n, ps) = promote_parents (fst p) (snd p);
          s = ravl_node_sibling (n, ps)
      in if \<not> (ravl_node_rank_difference (n, ps) = 0 \<and> parent_rank ps - ravl_node_rank s > 1) then (n, ps)
         else
           (case ravl_node_slot_type (n, ps) of
              None \<Rightarrow> (n, ps)
            | Some tn \<Rightarrow>
                (let t = ravl_slot_opposite tn;
                     z = slot_ptr (n, ps) t
                 in if ravl_slot n t = RNil \<or> ravl_node_rank_difference z = 2
                    then (case ravl_rotate (n, ps) of (n1, ps1) \<Rightarrow> (in_slot ravl_node_demote n1 t, ps1))
                    else if ravl_node_rank_difference z = 1
                    then (case ravl_rotate (ravl_rotate z) of (z1, ps1) \<Rightarrow>
                            (in_slot ravl_node_demote (in_slot ravl_node_demote (ravl_node_promote z1) tn) t, ps1))
                    else (n, ps))))"

section \<open>Insertion\<close>

text \<open>The walk down to the missing slot; \<open>None\<close> if the data is there already.\<close>

fun emplace_slot :: "('a \<Rightarrow> 'a \<Rightarrow> int) \<Rightarrow> 'a \<Rightarrow> 'a ravl_node \<Rightarrow> 'a parent list \<Rightarrow> 'a parent list option" where
  "emplace_slot compare d RNil ps = Some ps"
| "emplace_slot compare d (RNode l k x r) ps =
     (let cmp_result = compare d x
      in if cmp_result = 0 then None
         else if cmp_result > 0 then emplace_slot compare d r (Parent RAVL_RIGHT k x l # ps)
         else emplace_slot compare d l (Parent RAVL_LEFT k x r # ps))"

definition ravl_emplace :: "bool \<Rightarrow> 'a ravl \<Rightarrow> 'a \<Rightarrow> (err + unit) \<times> 'a ravl" where
  "ravl_emplace mem_ok ravl d =
     (if \<not> mem_ok then (Inl ENOMEM, ravl)
      else case emplace_slot (rv_compare ravl) d (rv_root ravl) [] of
             None \<Rightarrow> (Inl EEXIST, ravl)
           | Some ps \<Rightarrow>
               (case ravl_balance (ravl_new_node d, ps) of
                  (n, ps1) \<Rightarrow> (Inr (), ravl\<lparr>rv_root := root_of n ps1\<rparr>)))"

section \<open>Search\<close>

fun ravl_node_type_most :: "'a ravl_node \<Rightarrow> 'a parent list \<Rightarrow> ravl_slot_type \<Rightarrow> 'a node_ptr" where
  "ravl_node_type_most RNil ps t = (RNil, ps)"
| "ravl_node_type_most (RNode l k x r) ps t =
     (if t = RAVL_LEFT
      then (if l = RNil then (RNode l k x r, ps) else ravl_node_type_most l (Parent RAVL_LEFT k x r # ps) t)
      else (if r = RNil then (RNode l k x r, ps) else ravl_node_type_most r (Parent RAVL_RIGHT k x l # ps) t))"

text \<open>The first parent on the \<open>t\<close> path.\<close>

fun climb :: "'a ravl_node \<Rightarrow> 'a parent list \<Rightarrow> ravl_slot_type \<Rightarrow> 'a node_ptr option" where
  "climb n [] t = None"
| "climb n (Parent t' k x s # ps) t =
     (if t' = t then climb (with_child t' k x n s) ps t else Some (with_child t' k x n s, ps))"

definition ravl_node_cessor :: "'a node_ptr \<Rightarrow> ravl_slot_type \<Rightarrow> 'a node_ptr option" where
  "ravl_node_cessor p t =
     (if ravl_slot (fst p) t \<noteq> RNil
      then (case slot_ptr p t of (c, ps) \<Rightarrow> Some (ravl_node_type_most c ps (ravl_slot_opposite t)))
      else climb (fst p) (snd p) t)"

definition ravl_node_successor :: "'a node_ptr \<Rightarrow> 'a node_ptr option" where
  "ravl_node_successor p = ravl_node_cessor p RAVL_RIGHT"

definition ravl_node_predecessor :: "'a node_ptr \<Rightarrow> 'a node_ptr option" where
  "ravl_node_predecessor p = ravl_node_cessor p RAVL_LEFT"

record ravl_predicate =
  RAVL_PREDICATE_EQUAL :: bool
  RAVL_PREDICATE_GREATER :: bool
  RAVL_PREDICATE_LESS :: bool

definition ravl_predicate_holds ::
  "int \<Rightarrow> 'a node_ptr option \<Rightarrow> 'a node_ptr \<Rightarrow> ravl_predicate \<Rightarrow> bool \<times> 'a node_ptr option" where
  "ravl_predicate_holds result ret n flags =
     (if RAVL_PREDICATE_EQUAL flags \<and> result = 0 then (True, Some n)
      else if RAVL_PREDICATE_GREATER flags \<and> result < 0 then (False, Some n)
      else if RAVL_PREDICATE_GREATER flags \<and> result = 0 then (True, ravl_node_successor n)
      else if RAVL_PREDICATE_LESS flags \<and> result > 0 then (False, Some n)
      else if RAVL_PREDICATE_LESS flags \<and> result = 0 then (True, ravl_node_predecessor n)
      else (False, ret))"

fun find_from ::
  "('a \<Rightarrow> 'a \<Rightarrow> int) \<Rightarrow> 'a \<Rightarrow> ravl_predicate \<Rightarrow> 'a ravl_node \<Rightarrow> 'a parent list \<Rightarrow> 'a node_ptr option \<Rightarrow> 'a node_ptr option" where
  "find_from compare d flags RNil ps ret = ret"
| "find_from compare d flags (RNode l k x r) ps ret =
     (let result = compare d x
      in case ravl_predicate_holds result ret (RNode l k x r, ps) flags of
           (True, ret1) \<Rightarrow> ret1
         | (False, ret1) \<Rightarrow>
             (if result > 0 then find_from compare d flags r (Parent RAVL_RIGHT k x l # ps) ret1
              else find_from compare d flags l (Parent RAVL_LEFT k x r # ps) ret1))"

definition ravl_find :: "'a ravl \<Rightarrow> 'a \<Rightarrow> ravl_predicate \<Rightarrow> 'a node_ptr option" where
  "ravl_find ravl d flags = find_from (rv_compare ravl) d flags (rv_root ravl) [] None"

definition ravl_data :: "'a node_ptr \<Rightarrow> 'a option" where
  "ravl_data p = (case fst p of RNil \<Rightarrow> None | RNode l k x r \<Rightarrow> Some x)"

section \<open>Removal\<close>

definition two_children :: "'a node_ptr \<Rightarrow> bool" where
  "two_children p \<longleftrightarrow> ravl_slot (fst p) RAVL_LEFT \<noteq> RNil \<and> ravl_slot (fst p) RAVL_RIGHT \<noteq> RNil"

fun set_data :: "'a ravl_node \<Rightarrow> 'a \<Rightarrow> 'a ravl_node" where
  "set_data RNil y = RNil"
| "set_data (RNode l k x r) y = RNode l k y r"

lemma type_most_left_nil: "n \<noteq> RNil \<Longrightarrow> ravl_slot (fst (ravl_node_type_most n ps RAVL_LEFT)) RAVL_LEFT = RNil"
  by (induction n ps RAVL_LEFT rule: ravl_node_type_most.induct) auto

lemma successor_of_two:
  assumes "two_children p" "ravl_node_successor p = Some s"
  shows "\<not> two_children s"
proof -
  obtain l k x r ps where p: "p = (RNode l k x r, ps)"
    using assms(1) by (cases p; cases "fst p") (auto simp: two_children_def)
  then have "r \<noteq> RNil" "s = ravl_node_type_most r (Parent RAVL_RIGHT k x l # ps) RAVL_LEFT"
    using assms by (simp_all add: two_children_def ravl_node_successor_def ravl_node_cessor_def ravl_slot_opposite_def)
  then show ?thesis using type_most_left_nil [of r] by (simp add: two_children_def)
qed

text \<open>
  The data of the successor is copied to the node, then the successor is removed; it is
  looked up in the changed tree.
\<close>

function remove_at :: "'a node_ptr \<Rightarrow> 'a ravl_node" where
  "remove_at p =
     (if two_children p then
        (case Option.bind (ravl_node_successor p) ravl_data of
           None \<Rightarrow> root_of (fst p) (snd p)
         | Some y \<Rightarrow>
             (case ravl_node_successor (set_data (fst p) y, snd p) of
                None \<Rightarrow> root_of (fst p) (snd p)
              | Some s \<Rightarrow> remove_at s))
      else
        (let r = (if ravl_slot (fst p) RAVL_LEFT \<noteq> RNil then ravl_slot (fst p) RAVL_LEFT else ravl_slot (fst p) RAVL_RIGHT)
         in root_of r (snd p)))"
  by auto

lemma two_children_set_data [simp]: "two_children (set_data n y, ps) = two_children (n, ps)"
  by (cases n) (simp_all add: two_children_def)

termination remove_at
proof (relation "measure (\<lambda>p. if two_children p then 1 else 0)")
  fix p :: "'a node_ptr" and y s
  assume "two_children p" "ravl_node_successor (set_data (fst p) y, snd p) = Some s"
  then show "(s, p) \<in> measure (\<lambda>p. if two_children p then 1 else 0)"
    using successor_of_two [of "(set_data (fst p) y, snd p)" s] by (cases p) simp
qed simp

declare remove_at.simps [simp del]

definition ravl_remove :: "'a ravl \<Rightarrow> 'a node_ptr \<Rightarrow> 'a ravl" where
  "ravl_remove ravl p = ravl\<lparr>rv_root := remove_at p\<rparr>"

end
