(* ===== verification/Memops.thy ===== *)
theory Memops
  imports Ulog Vecq Ravl
begin

text \<open>
  Aggregated memory operations (libpmemobj/memops.c, memops.h): an operation context
  collects updates in a shadow copy of a redo log or in an undo log and processes them.
  A pointer is a 64-bit address; the pool is mapped at \<open>oc_base\<close>, and offsets into it are
  differences to that address.  A DRAM log is a memory of its own with its header at
  address 0, and a pointer to one of its entries is an address in it.  Allocations may fail;
  what memory obtained by \<open>realloc\<close> holds is an argument.
\<close>

section \<open>Pools and contexts\<close>

datatype operation_log_type = LOG_PERSISTENT | LOG_TRANSIENT
datatype log_type = LOG_TYPE_UNDO | LOG_TYPE_REDO
datatype operation_state = OPERATION_IDLE | OPERATION_IN_PROGRESS | OPERATION_CLEANUP

definition ULOG_BASE_SIZE :: u64 where "ULOG_BASE_SIZE = 1024"
definition OP_MERGE_SEARCH :: nat where "OP_MERGE_SEARCH = 64"

text \<open>The fields of \<open>PMEMobjpool\<close> that decide whether an offset belongs to the pool.\<close>

record pool_bounds =
  pop_lanes_offset :: u64
  pop_nlanes :: u64
  pop_heap_offset :: u64
  pop_heap_size :: u64

definition OBJ_OFF_FROM_HEAP :: "pool_bounds \<Rightarrow> u64 \<Rightarrow> bool" where
  "OBJ_OFF_FROM_HEAP pop off \<longleftrightarrow> off \<ge> pop_heap_offset pop \<and> off < pop_heap_offset pop + pop_heap_size pop"

text \<open>\<open>sizeof (struct lane_layout)\<close> is 3072; \<open>root_offset\<close> lies at 6144 and \<open>root_size\<close> at 6160.\<close>

definition OBJ_OFF_FROM_LANES :: "pool_bounds \<Rightarrow> u64 \<Rightarrow> bool" where
  "OBJ_OFF_FROM_LANES pop off \<longleftrightarrow>
     off \<ge> pop_lanes_offset pop \<and> off < pop_lanes_offset pop + pop_nlanes pop * 3072"

definition OBJ_OFF_IS_VALID :: "pool_bounds \<Rightarrow> u64 \<Rightarrow> bool" where
  "OBJ_OFF_IS_VALID pop off \<longleftrightarrow>
     OBJ_OFF_FROM_HEAP pop off \<or> off = 6144 \<or> off = 6160 \<or> OBJ_OFF_FROM_LANES pop off"

record operation_log =
  ol_capacity :: u64
  ol_offset :: u64
  ol_ulog :: mem

record operation_context =
  oc_type :: log_type
  oc_extend :: "(u64 \<Rightarrow> u64 \<Rightarrow> pmem \<Rightarrow> (err + unit) \<times> pmem) option"
  oc_ulog_free :: ulog_fn
  oc_base :: u64
  oc_curr_offset :: u64
  oc_curr_capacity :: u64
  oc_curr_gen_num :: u64
  oc_curr :: "u64 option"
  oc_total_logged :: u64
  oc_ulog :: u64
  oc_base_nbytes :: u64
  oc_capacity :: u64
  oc_auto_reserve :: bool
  oc_any_user_buffer :: bool
  oc_next :: "u64 list"
  oc_state :: operation_state
  oc_pshadow :: operation_log
  oc_transient :: operation_log
  oc_merge_entries :: vecq

text \<open>A zeroed log structure of which the capacity field is set.\<close>

definition operation_log_init :: "u64 \<Rightarrow> operation_log" where
  "operation_log_init capacity =
     \<lparr> ol_capacity = ULOG_BASE_SIZE, ol_offset = 0, ol_ulog = wr (\<lambda>_. 0) 16 (le64 capacity) \<rparr>"

definition operation_log_transient_init :: operation_log where
  "operation_log_transient_init = operation_log_init ULOG_BASE_SIZE"

definition operation_log_persistent_init :: "u64 \<Rightarrow> operation_log" where
  "operation_log_persistent_init base_nbytes = operation_log_init base_nbytes"

text \<open>
  \<open>operation_new\<close>: \<open>Inl ENOMEM\<close> if one of the allocations fails.  Not returning (a cycle of
  log extensions) is \<open>None\<close>.
\<close>

definition operation_new ::
  "bool \<Rightarrow> u64 \<Rightarrow> u64 \<Rightarrow> (u64 \<Rightarrow> u64 \<Rightarrow> pmem \<Rightarrow> (err + unit) \<times> pmem) option \<Rightarrow> ulog_fn \<Rightarrow> u64 \<Rightarrow> log_type \<Rightarrow> mem \<Rightarrow>
     (err + operation_context) option" where
  "operation_new mem_ok ulog base_nbytes extend_fn ulog_free base type m =
     (if \<not> mem_ok then Some (Inl ENOMEM)
      else Option.bind (ulog_capacity m ulog base_nbytes) (\<lambda>capacity.
           Option.bind (ulog_rebuild_next_vec m ulog []) (\<lambda>nxt.
             Some (Inr \<lparr> oc_type = type, oc_extend = extend_fn, oc_ulog_free = ulog_free, oc_base = base,
                oc_curr_offset = 0, oc_curr_capacity = 0, oc_curr_gen_num = 0, oc_curr = None,
                oc_total_logged = 0, oc_ulog = ulog, oc_base_nbytes = base_nbytes, oc_capacity = capacity,
                oc_auto_reserve = False, oc_any_user_buffer = False, oc_next = nxt,
                oc_state = OPERATION_IDLE, oc_pshadow = operation_log_persistent_init base_nbytes,
                oc_transient = operation_log_transient_init, oc_merge_entries = VECQ_INIT \<rparr>))))"

section \<open>Run-time state\<close>

definition operation_init :: "operation_context \<Rightarrow> operation_context" where
  "operation_init ctx =
     ctx\<lparr>oc_transient := (oc_transient ctx)\<lparr>ol_offset := 0\<rparr>, oc_pshadow := (oc_pshadow ctx)\<lparr>ol_offset := 0\<rparr>,
        oc_merge_entries := VECQ_CLEAR (oc_merge_entries ctx),
        oc_curr_offset := 0, oc_curr_capacity := 0, oc_curr_gen_num := 0, oc_curr := None,
        oc_total_logged := 0, oc_auto_reserve := True, oc_any_user_buffer := False\<rparr>"

definition operation_start :: "operation_context \<Rightarrow> operation_context" where
  "operation_start ctx = (operation_init ctx)\<lparr>oc_state := OPERATION_IN_PROGRESS\<rparr>"

definition operation_resume :: "mem \<Rightarrow> operation_context \<Rightarrow> operation_context option" where
  "operation_resume m ctx =
     (let ctx1 = operation_start ctx
      in Option.bind (ulog_base_nbytes m (oc_ulog ctx1) 0) (\<lambda>n. Some (ctx1\<lparr>oc_total_logged := n\<rparr>)))"

definition operation_cancel :: "operation_context \<Rightarrow> operation_context" where
  "operation_cancel ctx = ctx\<lparr>oc_state := OPERATION_IDLE\<rparr>"

definition operation_set_auto_reserve :: "operation_context \<Rightarrow> bool \<Rightarrow> operation_context" where
  "operation_set_auto_reserve ctx b = ctx\<lparr>oc_auto_reserve := b\<rparr>"

definition operation_set_any_user_buffer :: "operation_context \<Rightarrow> bool \<Rightarrow> operation_context" where
  "operation_set_any_user_buffer ctx b = ctx\<lparr>oc_any_user_buffer := b\<rparr>"

definition operation_get_any_user_buffer :: "operation_context \<Rightarrow> bool" where
  "operation_get_any_user_buffer ctx = oc_any_user_buffer ctx"

section \<open>Value entries\<close>

definition operation_merge :: "mem \<Rightarrow> u64 \<Rightarrow> u64 \<Rightarrow> u64 \<Rightarrow> mem" where
  "operation_merge m e value type =
     (let old = ld64 m (e + 8)
      in if type = ULOG_OPERATION_AND then wr m (unat (e + 8)) (le64 (old AND value))
         else if type = ULOG_OPERATION_OR then wr m (unat (e + 8)) (le64 (old OR value))
         else if type = ULOG_OPERATION_SET then wr m (unat (e + 8)) (le64 value)
         else m)"

text \<open>The search of \<open>operation_try_merge_entry\<close>: the first entry visited for the offset decides.\<close>

fun merge_search :: "mem \<Rightarrow> u64 list \<Rightarrow> u64 \<Rightarrow> u64 \<Rightarrow> u64 option" where
  "merge_search m [] offset type = None"
| "merge_search m (e # es) offset type =
     (if ulog_entry_offset m e = offset then (if ulog_entry_type m e = type then Some e else None)
      else merge_search m es offset type)"

definition operation_try_merge_entry ::
  "operation_context \<Rightarrow> u64 \<Rightarrow> u64 \<Rightarrow> u64 \<Rightarrow> bool \<times> operation_context" where
  "operation_try_merge_entry ctx ptr value type =
     (let m = ol_ulog (oc_pshadow ctx)
      in case merge_search m (VECQ_FOREACH_REVERSE (oc_merge_entries ctx)) (ptr - oc_base ctx) type of
           None \<Rightarrow> (False, ctx)
         | Some e \<Rightarrow> (True, ctx\<lparr>oc_pshadow := (oc_pshadow ctx)\<lparr>ol_ulog := operation_merge m e value type\<rparr>\<rparr>))"

definition operation_merge_entry_add :: "bool \<Rightarrow> operation_context \<Rightarrow> u64 \<Rightarrow> operation_context" where
  "operation_merge_entry_add grow_ok ctx entry =
     (let q = oc_merge_entries ctx;
          q1 = (if VECQ_SIZE q = OP_MERGE_SEARCH then snd (VECQ_DEQUEUE q) else q)
      in case VECQ_ENQUEUE grow_ok q1 entry of
           None \<Rightarrow> ctx\<lparr>oc_merge_entries := q1\<rparr>
         | Some q2 \<Rightarrow> ctx\<lparr>oc_merge_entries := q2\<rparr>)"

text \<open>\<open>ulog_entry_val_create\<close> in a DRAM log, with the operations table of base \<open>base\<close>.\<close>

definition dram_val_create :: "mem \<Rightarrow> u64 \<Rightarrow> u64 \<Rightarrow> u64 \<Rightarrow> u64 \<Rightarrow> u64 \<Rightarrow> mem" where
  "dram_val_create m offset base dest value type =
     wr m (unat (ulog_data 0 + offset)) (le64 ((dest - base) OR type) @ le64 value @ le64 0)"

definition op_log :: "operation_log_type \<Rightarrow> operation_context \<Rightarrow> operation_log" where
  "op_log t ctx = (case t of LOG_PERSISTENT \<Rightarrow> oc_pshadow ctx | LOG_TRANSIENT \<Rightarrow> oc_transient ctx)"

definition set_op_log :: "operation_log_type \<Rightarrow> operation_log \<Rightarrow> operation_context \<Rightarrow> operation_context" where
  "set_op_log t l ctx =
     (case t of LOG_PERSISTENT \<Rightarrow> ctx\<lparr>oc_pshadow := l\<rparr> | LOG_TRANSIENT \<Rightarrow> ctx\<lparr>oc_transient := l\<rparr>)"

text \<open>
  Make room for another entry: \<open>realloc = None\<close> is a failed reallocation, otherwise it is
  what the new part of the block holds.
\<close>

definition grow_log ::
  "mem option \<Rightarrow> operation_log_type \<Rightarrow> operation_context \<Rightarrow> err + operation_context" where
  "grow_log realloc t ctx =
     (let l = op_log t ctx
      in if ol_offset l + 64 = ol_capacity l then
           (case realloc of
              None \<Rightarrow> Inl FAIL
            | Some junk \<Rightarrow>
                (let capacity = ol_capacity l + ULOG_BASE_SIZE;
                     m = (\<lambda>a. if a < 64 + unat (ol_capacity l) then ol_ulog l a else junk a)
                 in Inr ((set_op_log t \<lparr> ol_capacity = capacity, ol_offset = ol_offset l,
                            ol_ulog = wr m 16 (le64 capacity) \<rparr> ctx)
                         \<lparr>oc_merge_entries := VECQ_CLEAR (oc_merge_entries ctx)\<rparr>)))
         else Inr ctx)"

definition operation_add_typed_entry ::
  "mem option \<Rightarrow> bool \<Rightarrow> operation_context \<Rightarrow> u64 \<Rightarrow> u64 \<Rightarrow> u64 \<Rightarrow> operation_log_type \<Rightarrow> (err + unit) \<times> operation_context" where
  "operation_add_typed_entry realloc grow_ok ctx ptr value type t =
     (case grow_log realloc t ctx of
        Inl e \<Rightarrow> (Inl e, ctx)
      | Inr ctx1 \<Rightarrow>
          (case (if t = LOG_PERSISTENT then operation_try_merge_entry ctx1 ptr value type else (False, ctx1)) of
             (True, ctx2) \<Rightarrow> (Inr (), ctx2)
           | (False, ctx2) \<Rightarrow>
               (let l = op_log t ctx2;
                    entry = ulog_data 0 + ol_offset l;
                    m = dram_val_create (ol_ulog l) (ol_offset l) (if t = LOG_TRANSIENT then 0 else oc_base ctx2)
                          ptr value type;
                    ctx3 = set_op_log t (l\<lparr>ol_ulog := m\<rparr>) ctx2;
                    ctx4 = (if t = LOG_PERSISTENT then operation_merge_entry_add grow_ok ctx3 entry else ctx3)
                in (Inr (), set_op_log t (l\<lparr>ol_ulog := m, ol_offset := ol_offset l + ulog_entry_size m entry\<rparr>) ctx4))))"

definition operation_add_entry ::
  "pool_bounds \<Rightarrow> mem option \<Rightarrow> bool \<Rightarrow> operation_context \<Rightarrow> u64 \<Rightarrow> u64 \<Rightarrow> u64 \<Rightarrow> (err + unit) \<times> operation_context" where
  "operation_add_entry pop realloc grow_ok ctx ptr value type =
     operation_add_typed_entry realloc grow_ok ctx ptr value type
       (if OBJ_OFF_IS_VALID pop (ptr - oc_base ctx) then LOG_PERSISTENT else LOG_TRANSIENT)"

section \<open>Buffer entries\<close>

definition operation_reserve ::
  "operation_context \<Rightarrow> u64 \<Rightarrow> pmem \<Rightarrow> ((err + unit) \<times> operation_context \<times> pmem) option" where
  "operation_reserve ctx new_capacity p =
     (if new_capacity > oc_capacity ctx then
        (case oc_extend ctx of
           None \<Rightarrow> Some (Inl FAIL, ctx, p)
         | Some extend_fn \<Rightarrow>
             Option.bind (ulog_reserve (oc_ulog ctx) (oc_base_nbytes ctx) (oc_curr_gen_num ctx)
                            (oc_auto_reserve ctx) new_capacity extend_fn (oc_next ctx) p)
               (\<lambda>(x, nxt, p1). Some (case x of
                  Inl e \<Rightarrow> (Inl e, ctx\<lparr>oc_next := nxt\<rparr>, p1)
                | Inr capacity \<Rightarrow> (Inr (), ctx\<lparr>oc_capacity := capacity, oc_next := nxt\<rparr>, p1))))
      else Some (Inr (), ctx, p))"

text \<open>The next log to fill when the current one is used up.\<close>

definition buffer_room ::
  "operation_context \<Rightarrow> u64 \<Rightarrow> pmem \<Rightarrow> ((err + unit) \<times> operation_context \<times> pmem) option" where
  "buffer_room ctx real_size p =
     (if oc_curr_capacity ctx = 0 then
        (let ctx1 = ctx\<lparr>oc_curr_gen_num := ulog_gen_num (vis p) (oc_ulog ctx)\<rparr>
         in Option.bind (operation_reserve ctx1 (oc_total_logged ctx1 + real_size) p) (\<lambda>(x, ctx2, p1).
              (case x of
                 Inl e \<Rightarrow> Some (Inl e, ctx2, p1)
               | Inr _ \<Rightarrow>
                   (case (case oc_curr ctx2 of None \<Rightarrow> Some (oc_ulog ctx2) | Some c \<Rightarrow> ulog_next (vis p1) c) of
                      None \<Rightarrow> Some (Inl ABORT, ctx2, p1)
                    | Some c \<Rightarrow> Some (Inr (), ctx2\<lparr>oc_curr := Some c, oc_curr_offset := 0,
                                            oc_curr_capacity := ulog_cap (vis p1) c\<rparr>, p1)))))
      else Some (Inr (), ctx, p))"

text \<open>The header of the entry behind the new one, which has to be zeroed first.\<close>

definition next_entry_addr :: "operation_context \<Rightarrow> u64 \<Rightarrow> u64 \<Rightarrow> mem \<Rightarrow> u64 option" where
  "next_entry_addr ctx c entry_size m =
     (if entry_size = oc_curr_capacity ctx
      then (case ulog_next m c of None \<Rightarrow> None | Some u \<Rightarrow> Some (ulog_data u))
      else Some (ulog_data c + (oc_curr_offset ctx + entry_size)))"

text \<open>
  \<open>operation_add_buffer\<close>; \<open>src\<close> are the bytes to log.  A log extension without room for an
  entry header makes \<open>data_size\<close> wrap around; the call then reads past the buffer.
\<close>

partial_function (option) operation_add_buffer ::
  "operation_context \<Rightarrow> u64 \<Rightarrow> byte list \<Rightarrow> u64 \<Rightarrow> pmem \<Rightarrow> ((err + unit) \<times> operation_context \<times> pmem) option" where
  "operation_add_buffer ctx dest src type p =
     (let size = of_nat (length src); real_size = size + 24
      in Option.bind (buffer_room ctx real_size p) (\<lambda>(x, ctx1, p1).
           (case x of
              Inl e \<Rightarrow> Some (Inl e, ctx1, p1)
            | Inr _ \<Rightarrow>
                (case oc_curr ctx1 of
                   None \<Rightarrow> Some (Inl ABORT, ctx1, p1)
                 | Some c \<Rightarrow>
                     (let curr_size = min real_size (oc_curr_capacity ctx1);
                          data_size = curr_size - 24;
                          entry_size = CACHELINE_ALIGN curr_size
                      in if data_size > size then Some (Inl ABORT, ctx1, p1)
                         else
                           (case (case next_entry_addr ctx1 c entry_size (vis p1) of
                                    None \<Rightarrow> (Inr (), p1) | Some e \<Rightarrow> ulog_clobber_entry e p1) of
                              (Inl e, p2) \<Rightarrow> Some (Inl e, ctx1, p2)
                            | (Inr _, p2) \<Rightarrow>
                                (case ulog_entry_buf_create c (oc_curr_offset ctx1) (oc_curr_gen_num ctx1)
                                        (dest - oc_base ctx1) (take (unat data_size) src) type p2 of
                                   (Inl e, p3) \<Rightarrow> Some (Inl e, ctx1, p3)
                                 | (Inr _, p3) \<Rightarrow>
                                     (let ctx2 = ctx1\<lparr>oc_total_logged := oc_total_logged ctx1 + entry_size,
                                                     oc_curr_offset := oc_curr_offset ctx1 + entry_size,
                                                     oc_curr_capacity := oc_curr_capacity ctx1 - entry_size\<rparr>
                                      in if size - data_size = 0 then Some (Inr (), ctx2, p3)
                                         else operation_add_buffer ctx2 (dest + data_size)
                                                (drop (unat data_size) src) type p3))))))))"

section \<open>User buffers\<close>

text \<open>
  The ranges in use as log buffers, \<open>(addr, size)\<close>, in a tree ordered by address.  The pool
  keeps them if \<open>verify\<close> is set.
\<close>

type_synonym user_buffer_def = "u64 \<times> u64"

record user_buffers =
  ub_verify :: bool
  ub_map :: "user_buffer_def ravl"

definition operation_user_buffer_range_cmp :: "user_buffer_def \<Rightarrow> user_buffer_def \<Rightarrow> int" where
  "operation_user_buffer_range_cmp l r = (if fst l > fst r then 1 else if fst l < fst r then - 1 else 0)"

definition RAVL_LESS_EQUAL :: ravl_predicate where
  "RAVL_LESS_EQUAL = \<lparr> RAVL_PREDICATE_EQUAL = True, RAVL_PREDICATE_GREATER = False, RAVL_PREDICATE_LESS = True \<rparr>"

definition RAVL_EQUAL :: ravl_predicate where
  "RAVL_EQUAL = \<lparr> RAVL_PREDICATE_EQUAL = True, RAVL_PREDICATE_GREATER = False, RAVL_PREDICATE_LESS = False \<rparr>"

definition operation_user_buffer_try_insert ::
  "bool \<Rightarrow> user_buffers \<Rightarrow> user_buffer_def \<Rightarrow> (err + unit) \<times> user_buffers" where
  "operation_user_buffer_try_insert mem_ok ub userbuf =
     (if \<not> ub_verify ub then (Inr (), ub)
      else (let addr = fst userbuf; addr_end = addr + snd userbuf
            in if (case Option.bind (ravl_find (ub_map ub) (addr_end, 0) RAVL_LESS_EQUAL) ravl_data of
                     None \<Rightarrow> False
                   | Some r \<Rightarrow> fst r + snd r > addr \<and> fst r < addr_end)
               then (Inl FAIL, ub)
               else (case ravl_emplace mem_ok (ub_map ub) userbuf of
                       (Inl e, map1) \<Rightarrow> (Inl FAIL, ub\<lparr>ub_map := map1\<rparr>)
                     | (Inr _, map1) \<Rightarrow> (Inr (), ub\<lparr>ub_map := map1\<rparr>))))"

text \<open>
  A range that is not in the tree is a bug of the caller: the assertion fails, and in a build
  without assertions \<open>ravl_remove\<close> gets a null pointer and dereferences it.  Either way the
  call does not return, which is \<open>ABORT\<close>.
\<close>

definition operation_user_buffer_remove :: "user_buffers \<Rightarrow> u64 \<Rightarrow> (err + unit) \<times> user_buffers" where
  "operation_user_buffer_remove ub addr =
     (if \<not> ub_verify ub then (Inr (), ub)
      else (case ravl_find (ub_map ub) (addr, 0) RAVL_EQUAL of
              None \<Rightarrow> (Inl ABORT, ub)
            | Some n \<Rightarrow> (Inr (), ub\<lparr>ub_map := ravl_remove (ub_map ub) n\<rparr>)))"

text \<open>The signed arithmetic of \<open>operation_user_buffer_verify_align\<close> is on 64 bits.\<close>

definition operation_user_buffer_verify_align ::
  "bool \<Rightarrow> user_buffers \<Rightarrow> operation_context \<Rightarrow> user_buffer_def \<Rightarrow> (err + user_buffer_def) \<times> user_buffers" where
  "operation_user_buffer_verify_align mem_ok ub ctx userbuf =
     (let (addr, size) = userbuf;
          buffer_offset = addr - oc_base ctx
      in case ulog_by_offset buffer_offset of
           None \<Rightarrow> (Inl ABORT, ub)
         | Some u \<Rightarrow>
             (let size_diff = (oc_base ctx + u) - addr;
                  capacity_unaligned = size - size_diff - 64
              in if sint capacity_unaligned < 64 then (Inl FAIL, ub)
                 else (let userbuf1 = (oc_base ctx + u, ALIGN_DOWN capacity_unaligned 64 + 64)
                       in case operation_user_buffer_try_insert mem_ok ub userbuf1 of
                            (Inl e, ub1) \<Rightarrow> (Inl FAIL, ub1)
                          | (Inr _, ub1) \<Rightarrow> (Inr userbuf1, ub1))))"

definition operation_add_user_buffer ::
  "operation_context \<Rightarrow> user_buffer_def \<Rightarrow> pmem \<Rightarrow> (err + operation_context) \<times> pmem" where
  "operation_add_user_buffer ctx userbuf p =
     (let buffer_offset = fst userbuf - oc_base ctx; capacity = snd userbuf - 64
      in bind_io (ulog_construct buffer_offset capacity (ulog_gen_num (vis p) (oc_ulog ctx)) True ULOG_USER_OWNED p) (\<lambda>_ p1.
           (case (if oc_next ctx = [] then Some (oc_ulog ctx) else ulog_by_offset (last (oc_next ctx))) of
              None \<Rightarrow> (Inl ABORT, p1)
            | Some last_log \<Rightarrow>
                bind_io (ppersist (unat (last_log + 8)) (le64 buffer_offset) p1) (\<lambda>_ p2.
                  (Inr (operation_set_any_user_buffer
                          (ctx\<lparr>oc_next := oc_next ctx @ [buffer_offset], oc_capacity := oc_capacity ctx + capacity\<rparr>) True),
                   p2)))))"

section \<open>Processing\<close>

text \<open>\<open>ulog_process\<close> on a DRAM log \<open>src\<close>: its entries, then those of the logs its link leads to.\<close>

partial_function (option) shadow_foreach_log ::
  "(mem \<Rightarrow> u64 \<Rightarrow> 's \<Rightarrow> (err + unit) \<times> 's) \<Rightarrow> mem \<Rightarrow> u64 \<Rightarrow> 's \<Rightarrow> ((err + bool) \<times> 's) option" where
  "shadow_foreach_log cb src offset s =
     (if offset < ulog_cap src 0 then
        (let e = ulog_data 0 + offset
         in if \<not> ulog_entry_valid src 0 e then Some (Inr False, s)
            else (case cb src e s of
                    (Inl er, s1) \<Rightarrow> Some (Inl er, s1)
                  | (Inr _, s1) \<Rightarrow> shadow_foreach_log cb src (offset + ulog_entry_size src e) s1))
      else Some (Inr True, s))"

definition shadow_process :: "mem \<Rightarrow> pmem \<Rightarrow> ((err + unit) \<times> pmem) option" where
  "shadow_process src p =
     Option.bind (shadow_foreach_log (\<lambda>m e. ulog_entry_apply m e False) src 0 p) (\<lambda>(x, p1).
       (case x of
          Inl er \<Rightarrow> Some (Inl er, p1)
        | Inr False \<Rightarrow> Some (Inr (), p1)
        | Inr True \<Rightarrow>
            (case ulog_next src 0 of
               None \<Rightarrow> Some (Inr (), p1)
             | Some r \<Rightarrow>
                 Option.bind (ulog_foreach_from ulog_process_entry (\<lambda>_. rd src 24 8) r p1) (\<lambda>(y, p2).
                   Some (case y of Inl er \<Rightarrow> Inl er | Inr _ \<Rightarrow> Inr (), p2)))))"

definition operation_process_persistent_redo ::
  "operation_context \<Rightarrow> pmem \<Rightarrow> ((err + operation_context) \<times> pmem) option" where
  "operation_process_persistent_redo ctx p =
     (case ulog_store (oc_ulog ctx) (ol_ulog (oc_pshadow ctx)) (ol_offset (oc_pshadow ctx))
             (oc_base_nbytes ctx) (oc_capacity ctx) (oc_next ctx) p of
        (Inl e, p1) \<Rightarrow> Some (Inl e, p1)
      | (Inr src, p1) \<Rightarrow>
          Option.bind (shadow_process src p1) (\<lambda>(x, p2).
            (case x of
               Inl e \<Rightarrow> Some (Inl e, p2)
             | Inr _ \<Rightarrow>
                 Some (bind_io (ulog_clobber (oc_ulog ctx) (Some (oc_next ctx)) p2) (\<lambda>_ p3.
                   (Inr (ctx\<lparr>oc_pshadow := (oc_pshadow ctx)\<lparr>ol_ulog := src\<rparr>\<rparr>), p3))))))"

definition operation_process_persistent_undo ::
  "operation_context \<Rightarrow> pmem \<Rightarrow> ((err + unit) \<times> pmem) option" where
  "operation_process_persistent_undo ctx p =
     Option.bind (ulog_process (oc_ulog ctx) p) (\<lambda>(x, p1).
       Some (case x of Inl e \<Rightarrow> Inl e | Inr _ \<Rightarrow> Inr (), p1))"

text \<open>
  Transient entries are applied through absolute addresses: to the pool (without a flush)
  when the address lies in its mapping of \<open>len\<close> bytes at \<open>base\<close>, otherwise to DRAM.  The
  operations table for them has no \<open>memset\<close>, so a
  \<open>BUF_SET\<close> entry is a call through NULL.
\<close>

definition in_mapping :: "u64 \<Rightarrow> u64 \<Rightarrow> u64 \<Rightarrow> bool" where
  "in_mapping base len a \<longleftrightarrow> a - base < len"

definition transient_load :: "u64 \<Rightarrow> u64 \<Rightarrow> u64 \<Rightarrow> mem \<times> pmem \<Rightarrow> u64" where
  "transient_load base len a s =
     (if in_mapping base len a then ld64 (vis (snd s)) (a - base) else ld64 (fst s) a)"

definition transient_store :: "u64 \<Rightarrow> u64 \<Rightarrow> u64 \<Rightarrow> byte list \<Rightarrow> mem \<times> pmem \<Rightarrow> (err + unit) \<times> mem \<times> pmem" where
  "transient_store base len a bs s =
     (if in_mapping base len a
      then (case pstore False (unat (a - base)) bs (snd s) of (r, p) \<Rightarrow> (r, fst s, p))
      else (Inr (), wr (fst s) (unat a) bs, snd s))"

definition transient_apply :: "u64 \<Rightarrow> u64 \<Rightarrow> mem \<Rightarrow> u64 \<Rightarrow> mem \<times> pmem \<Rightarrow> (err + unit) \<times> mem \<times> pmem" where
  "transient_apply base len m e s =
     (let t = ulog_entry_type m e; a = ulog_entry_offset m e; value = ld64 m (e + 8)
      in if t = ULOG_OPERATION_AND then transient_store base len a (le64 (transient_load base len a s AND value)) s
         else if t = ULOG_OPERATION_OR then transient_store base len a (le64 (transient_load base len a s OR value)) s
         else if t = ULOG_OPERATION_SET then transient_store base len a (le64 value) s
         else if t = ULOG_OPERATION_BUF_SET then (Inl ABORT, s)
         else if t = ULOG_OPERATION_BUF_CPY
           then transient_store base len a (rd m (unat (e + 24)) (unat (ld64 m (e + 16)))) s
         else (Inr (), s))"

text \<open>
  The persistent part of \<open>operation_process\<close>: a single entry is applied at once, several go
  through the redo log, and an undo log is played back.
\<close>

definition process_persistent ::
  "operation_context \<Rightarrow> pmem \<Rightarrow> ((err + operation_context) \<times> pmem) option" where
  "process_persistent ctx p =
     (let l = oc_pshadow ctx; e = ulog_data 0; t = ulog_entry_type (ol_ulog l) e;
          redo_process = (oc_type ctx = LOG_TYPE_REDO \<and> ol_offset l \<noteq> 0)
      in if redo_process \<and> ol_offset l = 16 \<and> is_val_type t then
           Some (bind_io (ulog_entry_apply (ol_ulog l) e True p) (\<lambda>_ p1. (Inr ctx, p1)))
         else if redo_process then
           Option.bind (operation_process_persistent_redo ctx p) (\<lambda>(x, p1).
             Some (case x of Inl er \<Rightarrow> Inl er | Inr ctx1 \<Rightarrow> Inr (ctx1\<lparr>oc_state := OPERATION_CLEANUP\<rparr>), p1))
         else if oc_type ctx = LOG_TYPE_UNDO \<and> oc_total_logged ctx \<noteq> 0 then
           Option.bind (operation_process_persistent_undo ctx p) (\<lambda>(x, p1).
             Some (case x of Inl er \<Rightarrow> Inl er | Inr _ \<Rightarrow> Inr (ctx\<lparr>oc_state := OPERATION_CLEANUP\<rparr>), p1))
         else Some (Inr ctx, p))"

definition operation_process ::
  "u64 \<Rightarrow> operation_context \<Rightarrow> mem \<Rightarrow> pmem \<Rightarrow> ((err + operation_context) \<times> mem \<times> pmem) option" where
  "operation_process len ctx dram p =
     Option.bind (process_persistent ctx p) (\<lambda>(x, p1).
       (case x of
          Inl e \<Rightarrow> Some (Inl e, dram, p1)
        | Inr ctx1 \<Rightarrow>
            (if ol_offset (oc_transient ctx1) \<noteq> 0 then
               Option.bind (shadow_foreach_log (transient_apply (oc_base ctx1) len) (ol_ulog (oc_transient ctx1)) 0 (dram, p1))
                 (\<lambda>(y, s). Some (case y of Inl e \<Rightarrow> Inl e | Inr _ \<Rightarrow> Inr ctx1, s))
             else Some (Inr ctx1, dram, p1))))"

text \<open>The context is brought in line with the extensions that are left; \<open>rm\<close> unpins a user buffer.\<close>

definition rescan_logs :: "operation_context \<Rightarrow> mem \<Rightarrow> operation_context option" where
  "rescan_logs ctx m =
     Option.bind (ulog_capacity m (oc_ulog ctx) (oc_base_nbytes ctx)) (\<lambda>capacity.
     Option.bind (ulog_rebuild_next_vec m (oc_ulog ctx) []) (\<lambda>nxt.
       Some (ctx\<lparr>oc_capacity := capacity, oc_next := nxt\<rparr>)))"

definition operation_free_logs ::
  "ulog_fn \<Rightarrow> operation_context \<Rightarrow> u64 \<Rightarrow> pmem \<Rightarrow> ((err + operation_context) \<times> pmem) option" where
  "operation_free_logs rm ctx flags p =
     Option.bind (ulog_free_next (Some (oc_ulog ctx)) (oc_ulog_free ctx) rm flags p) (\<lambda>(x, p1).
       (case x of
          Inl e \<Rightarrow> Some (Inl e, p1)
        | Inr freed \<Rightarrow>
            (if freed then Option.bind (rescan_logs ctx (vis p1)) (\<lambda>ctx1. Some (Inr ctx1, p1))
             else Some (Inr ctx, p1))))"

definition operation_finish ::
  "ulog_fn \<Rightarrow> operation_context \<Rightarrow> u64 \<Rightarrow> pmem \<Rightarrow> ((err + operation_context) \<times> pmem) option" where
  "operation_finish rm ctx flags p =
     (let ctx1 = (if oc_type ctx = LOG_TYPE_UNDO \<and> oc_total_logged ctx \<noteq> 0
                  then ctx\<lparr>oc_state := OPERATION_CLEANUP\<rparr> else ctx);
          flags1 = (if oc_any_user_buffer ctx1 then flags OR ULOG_ANY_USER_BUFFER else flags);
          ctx2 = (if oc_any_user_buffer ctx1 then ctx1\<lparr>oc_state := OPERATION_CLEANUP\<rparr> else ctx1)
      in if oc_state ctx2 \<noteq> OPERATION_CLEANUP then Some (Inr (ctx2\<lparr>oc_state := OPERATION_IDLE\<rparr>), p)
         else
           Option.bind
             (case oc_type ctx2 of
                LOG_TYPE_UNDO \<Rightarrow> ulog_clobber_data (oc_ulog ctx2) (oc_next ctx2) (oc_ulog_free ctx2) rm flags1 p
              | LOG_TYPE_REDO \<Rightarrow> ulog_free_next (Some (oc_ulog ctx2)) (oc_ulog_free ctx2) rm flags1 p)
             (\<lambda>(x, p1).
               (case x of
                  Inl e \<Rightarrow> Some (Inl e, p1)
                | Inr freed \<Rightarrow>
                    (if freed
                     then Option.bind (rescan_logs ctx2 (vis p1)) (\<lambda>ctx3. Some (Inr (ctx3\<lparr>oc_state := OPERATION_IDLE\<rparr>), p1))
                     else Some (Inr (ctx2\<lparr>oc_state := OPERATION_IDLE\<rparr>), p1)))))"

end
