(* ===== verification/Memops_Entries.thy ===== *)
theory Memops_Entries
  imports Memops Val_Log
begin

text \<open>
  The shadow log of an operation context: a new entry is merged into the newest entry for
  the same word or appended, and in both cases the log means what it meant before, followed
  by the new update.
\<close>

section \<open>Merging updates\<close>

fun val_merge :: "val_entry \<Rightarrow> u64 \<Rightarrow> val_entry" where
  "val_merge (d, v, t) value =
     (d, if t = ULOG_OPERATION_AND then v AND value else if t = ULOG_OPERATION_OR then v OR value else value, t)"

fun val_dest :: "val_entry \<Rightarrow> u64" where
  "val_dest (d, v, t) = d"

lemma val_redo_simps [simp]:
  "redo_off (val_redo (d, v, t)) = unat d" "redo_len (val_redo (d, v, t)) = 8"
  by simp_all

lemma redo_dom_val: "redo_dom (val_redo w) = {unat (val_dest w)..<unat (val_dest w) + 8}"
  by (cases w) (simp add: redo_dom_def del: val_redo.simps)

lemma val_merge_eff:
  "redo_eff (val_redo (val_merge (d, v, t) value)) a n =
     (case redo_eff (val_redo (d, value, t)) a n of
        Some b \<Rightarrow> Some b | None \<Rightarrow> redo_eff (val_redo (d, v, t)) a n)"
proof (cases "a \<in> {unat d..<unat d + 8}")
  case True
  then have "a - unat d < 8" by auto
  then show ?thesis using True
    by (simp add: redo_eff_def redo_dom_def bit_le64 bit_and_iff bit_or_iff) blast
qed (simp add: redo_eff_def redo_dom_def)

lemma run_eff_append:
  "run_eff (xs @ ys) a n = (case run_eff ys a n of Some b \<Rightarrow> Some b | None \<Rightarrow> run_eff xs a n)"
  by (induction xs) (auto split: option.splits)

lemma redo_run_eqI: "(\<And>a n. run_eff xs a n = run_eff ys a n) \<Longrightarrow> redo_run xs m = redo_run ys m"
  by (rule ext, rule bit_word_eqI) (simp add: redo_run_bit)

text \<open>The bits that the updates of a list set, with their values.\<close>

definition effs :: "redo list \<Rightarrow> (nat \<times> nat \<times> bool) set" where
  "effs xs = {(a, n, b). \<exists>x \<in> set xs. redo_eff x a n = Some b}"

lemma effs_append [simp]: "effs (xs @ ys) = effs xs \<union> effs ys"
  by (auto simp: effs_def)

lemma effs_Cons: "effs (x # xs) = effs [x] \<union> effs xs"
  by (auto simp: effs_def)

lemma mixed_byte_mono: "effs xs \<subseteq> effs ys \<Longrightarrow> mixed_byte xs m a b \<Longrightarrow> mixed_byte ys m a b"
  unfolding mixed_byte_def effs_def by blast

lemma effs_merge: "effs [val_redo (val_merge (d, v, t) value)] \<subseteq> effs [val_redo (d, v, t)] \<union> effs [val_redo (d, value, t)]"
  by (auto simp: effs_def val_merge_eff simp del: val_merge.simps val_redo.simps split: option.splits)

text \<open>An update may be moved before updates of other words.\<close>

lemma run_merge:
  assumes "\<forall>w \<in> set ws. redo_dom (val_redo w) \<inter> redo_dom (val_redo (d, value, t)) = {}"
  shows "redo_run (map val_redo (us @ val_merge (d, v, t) value # ws)) m =
    redo_run (map val_redo (us @ (d, v, t) # ws) @ [val_redo (d, value, t)]) m"
proof (rule redo_run_eqI)
  fix a n
  let ?x = "val_redo (d, value, t)" and ?W = "map val_redo ws"
  have "redo_eff ?x a n \<noteq> None \<Longrightarrow> run_eff ?W a n = None"
    using assms by (auto simp: run_eff_None redo_eff_def split: if_splits)
  then show "run_eff (map val_redo (us @ val_merge (d, v, t) value # ws)) a n =
      run_eff (map val_redo (us @ (d, v, t) # ws) @ [?x]) a n"
    by (auto simp: run_eff_append val_merge_eff simp del: val_merge.simps val_redo.simps split: option.splits)
qed

lemma aligned_words_disjoint:
  fixes a b :: nat
  assumes "a mod 8 = 0" "b mod 8 = 0" "a \<noteq> b"
  shows "{a..<a + 8} \<inter> {b..<b + 8} = {}"
proof -
  have "a + 8 \<le> b \<or> b + 8 \<le> a" using assms by presburger
  then show ?thesis by auto
qed

section \<open>The shadow log\<close>

definition entry_ptr :: "nat \<Rightarrow> u64" where
  "entry_ptr k = ulog_data 0 + of_nat (16 * k)"

lemma unat_entry_ptr: "16 * k + 64 + j < 2 ^ 64 \<Longrightarrow> unat (entry_ptr k + of_nat j) = 64 + 16 * k + j"
proof -
  assume "16 * k + 64 + j < 2 ^ 64"
  moreover have "entry_ptr k + of_nat j = (of_nat (64 + 16 * k + j) :: u64)"
    by (simp add: entry_ptr_def ulog_data_def)
  ultimately show ?thesis by (simp add: unat_of_nat_small del: of_nat_add of_nat_mult)
qed

lemma val_bytes_append: "val_bytes (us @ ws) = val_bytes us @ val_bytes ws"
  by (induction us rule: val_bytes.induct) simp_all

text \<open>The bytes of a shadow log around one of its entries.\<close>

lemma shadow_log_split:
  "shadow_log m (us @ (d, v, t) # ws) \<longleftrightarrow>
     (let k = 64 + 16 * length us
      in rd m 64 (16 * length us) = val_bytes us \<and> rd m k 8 = le64 (d OR t) \<and> rd m (k + 8) 8 = le64 v \<and>
         rd m (k + 16) (16 * length ws) = val_bytes ws \<and>
         rd m (k + 16 + 16 * length ws) 8 = replicate 8 0 \<and> list_all val_ok (us @ (d, v, t) # ws))"
proof -
  have n: "16 * length (us @ (d, v, t) # ws) = 16 * length us + (8 + (8 + 16 * length ws))" by simp
  show ?thesis
    unfolding shadow_log_def n rd_append val_bytes_append val_bytes.simps Let_def
    by (auto simp: add.assoc)
qed

lemma shadow_log_append:
  "shadow_log m (vs @ [(d, v, t)]) \<longleftrightarrow>
     rd m 64 (16 * length vs) = val_bytes vs \<and> rd m (64 + 16 * length vs) 24 = le64 (d OR t) @ le64 v @ le64 0 \<and>
     list_all val_ok (vs @ [(d, v, t)])"
proof -
  have 24: "rd m k 24 = rd m k 8 @ rd m (k + 8) 8 @ rd m (k + 16) 8" for k
    using rd_append [of m k 8 16] rd_append [of m "k + 8" 8 8] by (simp add: add.assoc)
  show ?thesis unfolding shadow_log_split 24 le64_zero by (simp add: Let_def)
qed

lemma shadow_entry:
  assumes "shadow_log m (us @ (d, v, t) # ws)" "16 * length us + 80 < 2 ^ 64"
  shows "ulog_entry_offset m (entry_ptr (length us)) = d" "ulog_entry_type m (entry_ptr (length us)) = t"
    "ld64 m (entry_ptr (length us) + 8) = v"
proof -
  have a: "unat (entry_ptr (length us)) = 64 + 16 * length us" "unat (entry_ptr (length us) + 8) = 64 + 16 * length us + 8"
    using unat_entry_ptr [of "length us" 0] unat_entry_ptr [of "length us" 8] assms(2) by simp_all
  have "rd m (64 + 16 * length us) 8 = le64 (d OR t)" "rd m (64 + 16 * length us + 8) 8 = le64 v" "val_ok (d, v, t)"
    using assms(1) by (simp_all add: shadow_log_split Let_def)
  then show "ulog_entry_offset m (entry_ptr (length us)) = d" "ulog_entry_type m (entry_ptr (length us)) = t"
    "ld64 m (entry_ptr (length us) + 8) = v"
    by (simp_all add: ulog_entry_offset_def ulog_entry_type_def ld64_def a tagged_offset tagged_type)
qed

text \<open>Merging into an entry changes its value and nothing else.\<close>

lemma shadow_log_merge:
  assumes sl: "shadow_log m (us @ (d, v, t) # ws)" and b: "16 * length us + 80 < 2 ^ 64"
  shows "shadow_log (operation_merge m (entry_ptr (length us)) value t) (us @ val_merge (d, v, t) value # ws)"
proof -
  let ?k = "64 + 16 * length us"
  have ok: "val_ok (d, v, t)" using sl by (simp add: shadow_log_split Let_def)
  define v' where "v' = (if t = ULOG_OPERATION_AND then v AND value else if t = ULOG_OPERATION_OR then v OR value else value)"
  have v': "val_merge (d, v, t) value = (d, v', t)" by (simp add: v'_def)
  have ty: "t = ULOG_OPERATION_AND \<or> t = ULOG_OPERATION_OR \<or> t = ULOG_OPERATION_SET"
    using ok by (simp add: is_val_type_def)
  have "unat (entry_ptr (length us) + 8) = ?k + 8" using unat_entry_ptr [of "length us" 8] b by simp
  then have m: "operation_merge m (entry_ptr (length us)) value t = wr m (?k + 8) (le64 v')"
    using shadow_entry(3) [OF sl b] ty by (simp add: operation_merge_def Let_def v'_def) blast
  show ?thesis
    using sl unfolding m v' shadow_log_split Let_def
    by (auto simp: mem_simps disjoint_ranges_def)
qed

lemma shadow_log_create:
  assumes sl: "shadow_log m vs" and ok: "val_ok (dest - base, value, type)" and b: "16 * length vs + 88 < 2 ^ 64"
  shows "shadow_log (dram_val_create m (of_nat (16 * length vs)) base dest value type) (vs @ [(dest - base, value, type)])"
proof -
  have a: "unat (ulog_data 0 + of_nat (16 * length vs)) = 64 + 16 * length vs"
    using unat_entry_ptr [of "length vs" 0] b by (simp add: entry_ptr_def)
  show ?thesis
    using sl ok unfolding shadow_log_append dram_val_create_def a
    by (simp add: shadow_log_def mem_simps disjoint_ranges_def)
qed

section \<open>The invariant of a redo context\<close>

text \<open>
  The context has collected the entries \<open>vs\<close>: they are in the shadow log, followed by a zero
  word and at least a cache line of room, they concern aligned words, the capacity in its
  header is that of the base log or of its own memory, and the merge queue has not wrapped
  around and holds the pointers to the newest of them.
\<close>

definition queue_inv :: "vecq \<Rightarrow> nat \<Rightarrow> bool" where
  "queue_inv q n \<longleftrightarrow>
     vecq_wf q \<and> vq_front q = 0 \<and> (vq_capacity q = 0 \<or> vq_capacity q = 64) \<and>
     (\<exists>j \<le> n. vecq_list q = map entry_ptr [j..<n])"

definition shadow_inv :: "operation_context \<Rightarrow> val_entry list \<Rightarrow> bool" where
  "shadow_inv ctx vs \<longleftrightarrow>
     shadow_log (ol_ulog (oc_pshadow ctx)) vs \<and>
     ol_offset (oc_pshadow ctx) = of_nat (16 * length vs) \<and>
     16 * length vs + 64 \<le> unat (ol_capacity (oc_pshadow ctx)) \<and>
     unat (ol_capacity (oc_pshadow ctx)) mod 1024 = 0 \<and>
     unat (ol_capacity (oc_pshadow ctx)) + 64 < 2 ^ 64 \<and>
     (\<forall>w \<in> set vs. unat (val_dest w) mod 8 = 0) \<and>
     (ulog_cap (ol_ulog (oc_pshadow ctx)) 0 = oc_base_nbytes ctx \<or>
      ulog_cap (ol_ulog (oc_pshadow ctx)) 0 = ol_capacity (oc_pshadow ctx)) \<and>
     queue_inv (oc_merge_entries ctx) (length vs)"

text \<open>What adding entries leaves alone.\<close>

definition same_log :: "operation_context \<Rightarrow> operation_context \<Rightarrow> bool" where
  "same_log ctx ctx' \<longleftrightarrow>
     oc_type ctx' = oc_type ctx \<and> oc_base ctx' = oc_base ctx \<and> oc_ulog ctx' = oc_ulog ctx \<and>
     oc_base_nbytes ctx' = oc_base_nbytes ctx \<and> oc_capacity ctx' = oc_capacity ctx \<and>
     oc_next ctx' = oc_next ctx \<and> oc_transient ctx' = oc_transient ctx \<and>
     oc_state ctx' = oc_state ctx \<and> oc_any_user_buffer ctx' = oc_any_user_buffer ctx"

lemma same_log_refl [simp]: "same_log ctx ctx"
  by (simp add: same_log_def)

lemma same_log_trans: "same_log a b \<Longrightarrow> same_log b c \<Longrightarrow> same_log a c"
  by (simp add: same_log_def)

lemma ulog_cap_wr [simp]: "64 \<le> off \<Longrightarrow> ulog_cap (wr m off bs) 0 = ulog_cap m 0"
  by (simp add: ulog_cap_def ld64_def mem_simps disjoint_ranges_def)

lemma queue_inv_clear: "queue_inv q n \<Longrightarrow> queue_inv (VECQ_CLEAR q) n'"
  by (auto simp: queue_inv_def VECQ_CLEAR_def vecq_wf_def vecq_list_def)

lemma queue_inv_add:
  assumes "queue_inv q n" "VECQ_SIZE q \<noteq> OP_MERGE_SEARCH"
  shows "queue_inv (case VECQ_ENQUEUE grow_ok q (entry_ptr n) of None \<Rightarrow> q | Some q' \<Rightarrow> q') (Suc n)"
proof -
  obtain j where j: "j \<le> n" "vecq_list q = map entry_ptr [j..<n]" and wf: "vecq_wf q" "vq_front q = 0"
    and c: "vq_capacity q = 0 \<or> vq_capacity q = 64"
    using assms(1) by (auto simp: queue_inv_def)
  have sz: "VECQ_SIZE q \<le> vq_capacity q" using wf by (simp add: vecq_wf_def VECQ_SIZE_def)
  show ?thesis
  proof (cases "VECQ_ENQUEUE grow_ok q (entry_ptr n)")
    case None
    then have "vq_capacity q = VECQ_SIZE q" by (simp add: VECQ_ENQUEUE_def split: if_splits)
    then have "VECQ_SIZE q = 0" using c assms(2) by (auto simp: OP_MERGE_SEARCH_def)
    then have "vecq_list q = map entry_ptr [Suc n..<Suc n]" by (simp add: vecq_list_def VECQ_SIZE_def)
    then show ?thesis using None wf c by (auto simp: queue_inv_def simp del: upt_rec upt_Suc)
  next
    case (Some q')
    have "vq_front q' = 0 \<and> (vq_capacity q' = 0 \<or> vq_capacity q' = 64)"
      using Some wf c sz assms(2)
      by (auto simp: VECQ_ENQUEUE_def VECQ_INSERT_def VECQ_GROW_def VECQ_FRONT_POS_def vecq_pos_def Let_def
          VECQ_NCAPACITY_def VECQ_INIT_SIZE_def OP_MERGE_SEARCH_def split: if_splits)
    moreover have "vecq_list q' = map entry_ptr [j..<Suc n]" using vecq_enqueue_list(1) [OF wf(1) Some] j by simp
    ultimately show ?thesis using Some vecq_enqueue_list(2) [OF wf(1) Some] j(1)
      by (auto simp: queue_inv_def intro!: exI [of _ j])
  qed
qed

lemma vecq_enqueue_size:
  "VECQ_ENQUEUE grow_ok q e = Some q' \<Longrightarrow> VECQ_SIZE q' \<le> Suc (VECQ_SIZE q)"
  by (auto simp: VECQ_ENQUEUE_def VECQ_INSERT_def VECQ_GROW_def VECQ_SIZE_def Let_def split: if_splits)

lemma merge_search_Some:
  "merge_search m es offset type = Some e \<Longrightarrow>
   \<exists>pre post. es = pre @ e # post \<and> (\<forall>x \<in> set pre. ulog_entry_offset m x \<noteq> offset) \<and>
     ulog_entry_offset m e = offset \<and> ulog_entry_type m e = type"
proof (induction es)
  case (Cons x es)
  show ?case
  proof (cases "ulog_entry_offset m x = offset")
    case True
    then show ?thesis using Cons.prems by (intro exI [of _ "[]"] exI [of _ es]) (auto split: if_splits)
  next
    case False
    then obtain pre post where "es = pre @ e # post" "\<forall>x \<in> set pre. ulog_entry_offset m x \<noteq> offset"
        "ulog_entry_offset m e = offset" "ulog_entry_type m e = type"
      using Cons by auto
    with False show ?thesis by (intro exI [of _ "x # pre"] exI [of _ post]) simp
  qed
qed simp

text \<open>The entry found is the newest one for its word.\<close>

lemma merge_finds_newest:
  assumes sl: "shadow_log m vs" and b: "16 * length vs + 64 < 2 ^ 64" and q: "queue_inv q (length vs)"
    and s: "merge_search m (VECQ_FOREACH_REVERSE q) d t = Some e"
  obtains us v ws where "vs = us @ (d, v, t) # ws" "e = entry_ptr (length us)" "\<forall>w \<in> set ws. val_dest w \<noteq> d"
proof -
  obtain j where j: "j \<le> length vs" "vecq_list q = map entry_ptr [j..<length vs]" and f: "vq_front q = 0"
    using q by (auto simp: queue_inv_def)
  obtain pre post where p: "rev (map entry_ptr [j..<length vs]) = pre @ e # post"
      "\<forall>x \<in> set pre. ulog_entry_offset m x \<noteq> d" "ulog_entry_offset m e = d" "ulog_entry_type m e = t"
    using merge_search_Some [OF s] by (auto simp: foreach_reverse_list [OF f] j)
  have at: "ulog_entry_offset m (entry_ptr i) = val_dest (vs ! i) \<and> ulog_entry_type m (entry_ptr i) = snd (snd (vs ! i))"
    if i: "i < length vs" for i
  proof -
    obtain d' v' t' where w: "vs ! i = (d', v', t')" by (cases "vs ! i")
    have sp: "vs = take i vs @ (d', v', t') # drop (Suc i) vs" using i w by (metis id_take_nth_drop)
    have "shadow_log m (take i vs @ (d', v', t') # drop (Suc i) vs)" using sl sp by simp
    from shadow_entry [OF this] i b show ?thesis by (simp add: w)
  qed
  have e: "map entry_ptr [j..<length vs] = rev post @ e # rev pre" using p(1) by (metis rev_append rev_rev_ident rev.simps(2) append_assoc append_Cons append_Nil)
  define k where "k = j + length post"
  have len: "length vs = j + length post + 1 + length pre"
    using arg_cong [OF e, of length] j(1) by simp
  have nth: "entry_ptr (j + i) = (rev post @ e # rev pre) ! i" if "i < length post + 1 + length pre" for i
  proof -
    have "map entry_ptr [j..<length vs] ! i = entry_ptr (j + i)" using that len by (simp add: nth_map del: upt_Suc)
    then show ?thesis by (simp only: e)
  qed
  have ek: "e = entry_ptr k" using nth [of "length post"] by (simp add: k_def nth_append)
  have later: "val_dest (vs ! i) \<noteq> d" if "k < i" "i < length vs" for i
  proof -
    define r where "r = i - Suc k"
    have i: "i = j + (length post + Suc r)" "r < length pre" using that len by (simp_all add: k_def r_def)
    have "entry_ptr i = (rev post @ e # rev pre) ! (length post + Suc r)" unfolding i(1) using i(2) by (intro nth) simp
    then have "entry_ptr i = rev pre ! (i - Suc k)" by (simp add: nth_append r_def)
    moreover have "i - Suc k < length (rev pre)" using that len by (simp add: k_def)
    ultimately have "entry_ptr i \<in> set pre" by (metis nth_mem set_rev)
    then show ?thesis using p(2) at [OF that(2)] by auto
  qed
  obtain d' v t' where w: "vs ! k = (d', v, t')" by (cases "vs ! k")
  have kl: "k < length vs" using len by (simp add: k_def)
  have "d' = d" "t' = t" using at [OF kl] p(3,4) ek w by simp_all
  then have "vs = take k vs @ (d, v, t) # drop (Suc k) vs" using kl w by (metis id_take_nth_drop)
  moreover have "\<forall>w \<in> set (drop (Suc k) vs). val_dest w \<noteq> d"
  proof
    fix w
    assume "w \<in> set (drop (Suc k) vs)"
    then obtain i where "i < length vs - Suc k" "w = vs ! (Suc k + i)" by (auto simp: in_set_conv_nth)
    then show "val_dest w \<noteq> d" using later [of "Suc k + i"] by simp
  qed
  ultimately show ?thesis using that [of "take k vs" v "drop (Suc k) vs"] ek kl by simp
qed

section \<open>Adding an entry\<close>

lemma ulog_entry_size_created:
  assumes "shadow_log m (vs @ [(d, v, t)])" "16 * length vs + 80 < 2 ^ 64"
  shows "ulog_entry_size m (entry_ptr (length vs)) = 16"
proof -
  have "is_val_type t" using assms(1) by (simp add: shadow_log_append)
  then show ?thesis using shadow_entry(2) [of m vs d v t "[]"] assms by (simp add: ulog_entry_size_def)
qed

lemma grow_log_inv:
  assumes inv: "shadow_inv ctx vs" and cap: "unat (ol_capacity (oc_pshadow ctx)) + 1088 < 2 ^ 64"
  obtains ctx' where "grow_log (Some junk) LOG_PERSISTENT ctx = Inr ctx'" "shadow_inv ctx' vs"
    "same_log ctx ctx'" "16 * length vs + 80 \<le> unat (ol_capacity (oc_pshadow ctx'))"
    "VECQ_SIZE (oc_merge_entries ctx') \<le> VECQ_SIZE (oc_merge_entries ctx)"
    "unat (ol_capacity (oc_pshadow ctx')) \<le> unat (ol_capacity (oc_pshadow ctx)) + 1024 \<and>
       unat (ol_capacity (oc_pshadow ctx')) \<le> max (unat (ol_capacity (oc_pshadow ctx))) (16 * length vs + 1088)"
proof -
  let ?l = "oc_pshadow ctx" and ?n = "16 * length vs"
  have i: "shadow_log (ol_ulog ?l) vs" "ol_offset ?l = of_nat ?n" "?n + 64 \<le> unat (ol_capacity ?l)"
      "unat (ol_capacity ?l) mod 1024 = 0" "\<forall>w \<in> set vs. unat (val_dest w) mod 8 = 0"
      "queue_inv (oc_merge_entries ctx) (length vs)"
    using inv by (simp_all add: shadow_inv_def)
  have o: "unat (ol_offset ?l + 64) = ?n + 64"
    using i(2,3) cap by (subst unat_add_small) (simp_all add: unat_of_nat_small del: of_nat_mult)
  show ?thesis
  proof (cases "ol_offset ?l + 64 = ol_capacity ?l")
    case False
    have ne: "unat (ol_capacity ?l) \<noteq> ?n + 64" using False o by (metis unsigned_word_eqI)
    have "(16 :: nat) dvd 1024" "1024 dvd unat (ol_capacity ?l)" using i(4) by (simp_all add: dvd_eq_mod_eq_0)
    then obtain k where k: "unat (ol_capacity ?l) = 16 * k" using dvd_trans by blast
    have "?n + 80 \<le> unat (ol_capacity ?l)" using i(3) ne unfolding k by arith
    then show ?thesis using inv False by (intro that [of ctx]) (simp_all add: grow_log_def op_log_def)
  next
    case True
    let ?c = "ol_capacity ?l + ULOG_BASE_SIZE"
    have c: "unat ?c = unat (ol_capacity ?l) + 1024"
      using cap by (subst unat_add_small) (simp_all add: ULOG_BASE_SIZE_def)
    have cc: "unat (ol_capacity ?l) = ?n + 64" using True o by simp
    let ?m = "wr (\<lambda>a. if a < 64 + unat (ol_capacity ?l) then ol_ulog ?l a else junk a) 16 (le64 ?c)"
    have "rd ?m 64 ?n = rd (ol_ulog ?l) 64 ?n" "rd ?m (64 + ?n) 8 = rd (ol_ulog ?l) (64 + ?n) 8"
      using cc by (auto intro!: rd_eqI simp: wr_def)
    then have sl: "shadow_log ?m vs" using i(1) by (simp add: shadow_log_def)
    define c' where "c' = ctx\<lparr>oc_pshadow := \<lparr> ol_capacity = ?c, ol_offset = ol_offset ?l, ol_ulog = ?m \<rparr>,
      oc_merge_entries := VECQ_CLEAR (oc_merge_entries ctx)\<rparr>"
    have g: "grow_log (Some junk) LOG_PERSISTENT ctx = Inr c'"
      using True by (simp add: grow_log_def op_log_def set_op_log_def Let_def c'_def)
    have cp: "ulog_cap ?m 0 = ?c" by (simp add: ulog_cap_def ld64_def mem_simps)
    have "(unat (ol_capacity ?l) + 1024) mod 1024 = 0" using i(4) by simp
    then have inv': "shadow_inv c' vs"
      using i sl c cap cp queue_inv_clear [OF i(6)] by (simp add: shadow_inv_def c'_def del: of_nat_mult)
    show ?thesis
      by (rule that [OF g inv']) (use c cc in \<open>simp_all add: c'_def same_log_def VECQ_CLEAR_def VECQ_SIZE_def\<close>)
  qed
qed

text \<open>
  Adding an entry to a context: the entries collected afterwards have the effect of those
  before, followed by the new one.
\<close>

lemma operation_add_persistent:
  assumes inv: "shadow_inv ctx vs" and cap: "unat (ol_capacity (oc_pshadow ctx)) + 1088 < 2 ^ 64"
    and q: "VECQ_SIZE (oc_merge_entries ctx) < OP_MERGE_SEARCH"
    and ok: "val_ok (ptr - oc_base ctx, value, type)" and al: "unat (ptr - oc_base ctx) mod 8 = 0"
  obtains ctx' vs' where
    "operation_add_typed_entry (Some junk) grow_ok ctx ptr value type LOG_PERSISTENT = (Inr (), ctx')"
    "shadow_inv ctx' vs'" "same_log ctx ctx'" "vs' \<noteq> []" "length vs' \<le> Suc (length vs)"
    "val_dest ` set vs' \<subseteq> insert (ptr - oc_base ctx) (val_dest ` set vs)"
    "effs (map val_redo vs') \<subseteq> effs (map val_redo vs @ [val_redo (ptr - oc_base ctx, value, type)])"
    "VECQ_SIZE (oc_merge_entries ctx') \<le> Suc (VECQ_SIZE (oc_merge_entries ctx))"
    "unat (ol_capacity (oc_pshadow ctx')) \<le> unat (ol_capacity (oc_pshadow ctx)) + 1024 \<and>
       unat (ol_capacity (oc_pshadow ctx')) \<le> max (unat (ol_capacity (oc_pshadow ctx))) (16 * length vs + 1088)"
    "\<forall>m. redo_run (map val_redo vs') m =
       redo_apply (val_redo (ptr - oc_base ctx, value, type)) (redo_run (map val_redo vs) m)"
proof -
  let ?d = "ptr - oc_base ctx"
  obtain c1 where g: "grow_log (Some junk) LOG_PERSISTENT ctx = Inr c1" and i1: "shadow_inv c1 vs"
    and b1: "oc_base c1 = oc_base ctx" and sm: "same_log ctx c1" and room: "16 * length vs + 80 \<le> unat (ol_capacity (oc_pshadow c1))"
    and q1: "VECQ_SIZE (oc_merge_entries c1) \<noteq> OP_MERGE_SEARCH"
    and q2: "VECQ_SIZE (oc_merge_entries c1) \<le> VECQ_SIZE (oc_merge_entries ctx)"
    and cap2: "unat (ol_capacity (oc_pshadow c1)) \<le> unat (ol_capacity (oc_pshadow ctx)) + 1024 \<and>
       unat (ol_capacity (oc_pshadow c1)) \<le> max (unat (ol_capacity (oc_pshadow ctx))) (16 * length vs + 1088)"
    and cap1: "unat (ol_capacity (oc_pshadow c1)) + 64 < 2 ^ 64"
  proof (rule grow_log_inv [OF inv cap, of junk])
    fix c1
    assume "grow_log (Some junk) LOG_PERSISTENT ctx = Inr c1" "shadow_inv c1 vs" "same_log ctx c1"
      "16 * length vs + 80 \<le> unat (ol_capacity (oc_pshadow c1))"
      "VECQ_SIZE (oc_merge_entries c1) \<le> VECQ_SIZE (oc_merge_entries ctx)"
      "unat (ol_capacity (oc_pshadow c1)) \<le> unat (ol_capacity (oc_pshadow ctx)) + 1024 \<and>
       unat (ol_capacity (oc_pshadow c1)) \<le> max (unat (ol_capacity (oc_pshadow ctx))) (16 * length vs + 1088)"
    then show thesis using q by (intro that [of c1]) (auto simp: shadow_inv_def same_log_def)
  qed
  define m where "m = ol_ulog (oc_pshadow c1)"
  have s: "shadow_log m vs" "ol_offset (oc_pshadow c1) = of_nat (16 * length vs)"
      "queue_inv (oc_merge_entries c1) (length vs)" "\<forall>w \<in> set vs. unat (val_dest w) mod 8 = 0"
      "unat (ol_capacity (oc_pshadow c1)) mod 1024 = 0"
    using i1 by (simp_all add: shadow_inv_def m_def)
  show ?thesis
  proof (cases "merge_search m (VECQ_FOREACH_REVERSE (oc_merge_entries c1)) ?d type")
    case (Some e)
    have n64: "16 * length vs + 64 < 2 ^ 64" using room cap1 by simp
    obtain us v ws where f: "vs = us @ (?d, v, type) # ws" "e = entry_ptr (length us)" "\<forall>w \<in> set ws. val_dest w \<noteq> ?d"
      using merge_finds_newest [OF s(1) n64 s(3) Some] by blast
    let ?vs = "us @ val_merge (?d, v, type) value # ws"
    let ?c2 = "c1\<lparr>oc_pshadow := (oc_pshadow c1)\<lparr>ol_ulog := operation_merge m e value type\<rparr>\<rparr>"
    have "operation_add_typed_entry (Some junk) grow_ok ctx ptr value type LOG_PERSISTENT = (Inr (), ?c2)"
      by (simp add: operation_add_typed_entry_def g operation_try_merge_entry_def b1 m_def [symmetric] Some)
    moreover have "shadow_inv ?c2 ?vs"
    proof -
      have "shadow_log (operation_merge m e value type) ?vs"
        unfolding f(2) using shadow_log_merge [of m us ?d v "type" ws "value"] s(1) f(1) room cap1 by simp
      moreover have "ulog_cap (operation_merge m e value type) 0 = ulog_cap m 0"
        using unat_entry_ptr [of "length us" 8] room cap1 f(1,2) by (simp add: operation_merge_def Let_def)
      ultimately show ?thesis using i1 s f(1) by (simp add: shadow_inv_def m_def)
    qed
    moreover have "redo_run (map val_redo ?vs) m0 = redo_apply (val_redo (?d, value, type)) (redo_run (map val_redo vs) m0)" for m0
    proof -
      have "\<forall>w \<in> set ws. redo_dom (val_redo w) \<inter> redo_dom (val_redo (?d, value, type)) = {}"
      proof
        fix w
        assume "w \<in> set ws"
        then have "unat (val_dest w) \<noteq> unat ?d" "unat (val_dest w) mod 8 = 0"
          using f s(4) by (auto simp: unsigned_word_eqI)
        then show "redo_dom (val_redo w) \<inter> redo_dom (val_redo (?d, value, type)) = {}"
          unfolding redo_dom_val using al by (intro aligned_words_disjoint) simp_all
      qed
      from run_merge [OF this] show ?thesis unfolding f(1) by (simp add: redo_run_append del: val_redo.simps val_merge.simps)
    qed
    moreover have "effs (map val_redo ?vs) \<subseteq> effs (map val_redo vs @ [val_redo (?d, value, type)])"
      unfolding f(1) map_append list.map effs_append effs_Cons [of _ "map val_redo ws"] using effs_merge by blast
    ultimately show ?thesis using sm q2 cap2 f(1)
      by (intro that [of ?c2 ?vs]) (auto simp: same_log_def simp del: val_redo.simps effs_append)
  next
    case None
    let ?vs = "vs @ [(?d, value, type)]" and ?e = "entry_ptr (length vs)"
    let ?m = "dram_val_create m (of_nat (16 * length vs)) (oc_base ctx) ptr value type"
    have sl: "shadow_log ?m ?vs" using s(1) ok room cap1 by (intro shadow_log_create) simp_all
    have sz: "ulog_entry_size ?m ?e = 16" using ulog_entry_size_created [OF sl] room cap1 by simp
    let ?q = "case VECQ_ENQUEUE grow_ok (oc_merge_entries c1) ?e of None \<Rightarrow> oc_merge_entries c1 | Some q' \<Rightarrow> q'"
    let ?c2 = "c1\<lparr>oc_pshadow := (oc_pshadow c1)\<lparr>ol_ulog := ?m, ol_offset := of_nat (16 * length vs) + 16\<rparr>, oc_merge_entries := ?q\<rparr>"
    have "operation_add_typed_entry (Some junk) grow_ok ctx ptr value type LOG_PERSISTENT = (Inr (), ?c2)"
      using sz q1
      by (simp add: operation_add_typed_entry_def g operation_try_merge_entry_def b1 m_def [symmetric] None op_log_def
          set_op_log_def operation_merge_entry_add_def Let_def s(2) entry_ptr_def split: option.split del: of_nat_mult)
    moreover have "shadow_inv ?c2 ?vs"
    proof -
      have "ulog_cap ?m 0 = ulog_cap m 0"
        using unat_entry_ptr [of "length vs" 0] room cap1 by (simp add: dram_val_create_def entry_ptr_def del: of_nat_mult)
      then show ?thesis
        using i1 sl s(4,5) room cap1 al queue_inv_add [OF s(3) q1, of grow_ok] by (simp add: shadow_inv_def m_def algebra_simps)
    qed
    moreover have "redo_run (map val_redo ?vs) m0 = redo_apply (val_redo (?d, value, type)) (redo_run (map val_redo vs) m0)" for m0
      by (simp add: redo_run_append del: val_redo.simps)
    ultimately show ?thesis using sm q2 cap2 vecq_enqueue_size [of grow_ok "oc_merge_entries c1" ?e]
      by (intro that [of ?c2 ?vs]) (auto simp: same_log_def simp del: val_redo.simps split: option.splits)
  qed
qed

end
