(* ===== verification/Memops_Redo.thy ===== *)
theory Memops_Redo
  imports Memops_Entries
begin

text \<open>
  Processing the entries a redo context has collected: through the redo log when there
  are several, directly when there is one.  The log is stored, the shadow copy is applied
  and the log is emptied, where the log is cleared without waiting for the applied entries.
\<close>

section \<open>Applying the shadow log\<close>

definition ret0 :: "err + 'a \<Rightarrow> err + int" where
  "ret0 y = (case y of Inl e \<Rightarrow> Inl e | Inr _ \<Rightarrow> Inr 0)"

lemma ret0_simps [simp]: "ret0 (Inl e) = Inl e" "ret0 (Inr x) = Inr 0"
  by (simp_all add: ret0_def)

lemma shadow_foreach_applied:
  assumes "log_holds A src 0 r offset xs" "r = 0" "ulog_next src 0 = None"
    and "live p" "mixed all m0 (vis p)" "set xs \<subseteq> set all"
  shows "\<exists>y p'. shadow_foreach_log (\<lambda>m e. ulog_entry_apply m e False) src offset p = Some (y, p') \<and>
    applied all m0 xs p (ret0 y) p'"
  using assms
proof (induction arbitrary: p)
  case (holds_end r offset)
  then have "shadow_foreach_log (\<lambda>m e. ulog_entry_apply m e False) src offset p = Some (Inr True, p)"
    by (simp add: shadow_foreach_log.simps)
  then show ?case using holds_end by (auto simp: applied_def option.map_ident intro: exI [of _ "[]"])
next
  case (holds_next r offset r1 xs)
  then show ?case by simp
next
  case (holds_stop r offset)
  then have "shadow_foreach_log (\<lambda>m e. ulog_entry_apply m e False) src offset p = Some (Inr False, p)"
    by (simp add: shadow_foreach_log.simps)
  then show ?case using holds_stop by (auto simp: applied_def option.map_ident intro: exI [of _ "[]"])
next
  case (holds_entry r offset x xs)
  let ?cb = "\<lambda>m e. ulog_entry_apply m e False" and ?e = "ulog_data 0 + offset"
  have e: "entry_at src ?e = Some x" "ulog_entry_valid src 0 ?e" "offset < ulog_cap src 0" and x: "x \<in> set all"
    using holds_entry by simp_all
  have step: "shadow_foreach_log ?cb src offset p =
      (case ?cb src ?e p of
         (Inl er, s1) \<Rightarrow> Some (Inl er, s1)
       | (Inr _, s1) \<Rightarrow> shadow_foreach_log ?cb src (offset + ulog_entry_size src ?e) s1)"
    by (subst shadow_foreach_log.simps) (simp add: e Let_def)
  show ?case
  proof (cases rule: apply_entry_cases [OF e(1) \<open>live p\<close> \<open>mixed all m0 (vis p)\<close> x, case_names ok torn])
    case (torn er p1)
    then show ?thesis by (simp add: step)
  next
    case (ok p1)
    obtain y p' where "shadow_foreach_log ?cb src (offset + ulog_entry_size src ?e) p1 = Some (y, p')"
        "applied all m0 xs p1 (ret0 y) p'"
      using holds_entry.IH [OF _ _ ok(2,4)] holds_entry.prems by auto
    then show ?thesis using ok(1,5) by (simp add: step)
  qed
qed

lemma shadow_process_applied:
  assumes vl: "val_log src 0 vs" and p: "live p" "mixed all m0 (vis p)" "set (map val_redo vs) \<subseteq> set all"
  obtains y p' where "shadow_process src p = Some (y, p')" "applied all m0 (map val_redo vs) p (ret0 y) p'"
proof -
  note h = val_log_holds(1) [OF vl]
  obtain y p' where "shadow_foreach_log (\<lambda>m e. ulog_entry_apply m e False) src 0 p = Some (y, p')"
      "applied all m0 (map val_redo vs) p (ret0 y) p'"
    using shadow_foreach_applied [OF h refl val_log_head(3) [OF vl] p] by blast
  then show ?thesis
    using val_log_head(3) [OF vl]
    by (intro that [of "case y of Inl e \<Rightarrow> Inl e | Inr _ \<Rightarrow> Inr ()" p'])
      (auto simp: shadow_process_def split: sum.splits bool.split)
qed

section \<open>Processing through the redo log\<close>

text \<open>
  A context that is ready to be processed: it has collected the entries \<open>vs\<close> and its log
  has no extensions and room for them.
\<close>

definition redo_ready :: "operation_context \<Rightarrow> val_entry list \<Rightarrow> bool" where
  "redo_ready ctx vs \<longleftrightarrow>
     shadow_inv ctx vs \<and> oc_type ctx = LOG_TYPE_REDO \<and> oc_next ctx = [] \<and>
     storable (oc_ulog ctx) (oc_base_nbytes ctx) (oc_capacity ctx) vs \<and>
     unat (oc_base_nbytes ctx) mod 16 = 0 \<and> unat (oc_base_nbytes ctx) + 64 < 2 ^ 64"

abbreviation redo_area :: "operation_context \<Rightarrow> val_entry list \<Rightarrow> nat set" where
  "redo_area ctx vs \<equiv> stored_area (oc_ulog ctx) (oc_capacity ctx) vs"

lemma redo_ready_val_log:
  assumes r: "redo_ready ctx vs" and src: "shadow_log src vs" "ulog_next_off src 0 = 0"
    and cap: "ulog_cap src 0 = ulog_cap (ol_ulog (oc_pshadow ctx)) 0"
  shows "val_log src 0 vs"
proof -
  let ?n = "16 * length vs" and ?c = "ulog_cap src 0"
  have inv: "shadow_inv ctx vs" and st: "storable (oc_ulog ctx) (oc_base_nbytes ctx) (oc_capacity ctx) vs"
    using r by (simp_all add: redo_ready_def)
  have "unat ?c = ?n \<or> ?n + 8 \<le> unat ?c" "unat ?c + 64 < 2 ^ 64"
  proof -
    consider "?c = oc_base_nbytes ctx" | "?c = ol_capacity (oc_pshadow ctx)"
      using r cap by (auto simp: redo_ready_def shadow_inv_def)
    then have "(unat ?c = ?n \<or> ?n + 8 \<le> unat ?c) \<and> unat ?c + 64 < 2 ^ 64"
    proof cases
      case 1
      have b: "store_nbytes (of_nat ?n) (oc_capacity ctx) \<le> oc_base_nbytes ctx" "?n + 72 < 2 ^ 64"
        using st by (simp_all add: storable_def Let_def)
      have un: "unat (of_nat ?n :: u64) = ?n" using b(2) by (simp add: unat_of_nat_small del: of_nat_mult)
      have "unat (store_nbytes (of_nat ?n) (oc_capacity ctx)) \<le> unat (oc_base_nbytes ctx)"
        using b(1) by (simp add: word_le_nat_alt)
      then have "?n \<le> unat (oc_base_nbytes ctx)"
        using store_nbytes_bound [of "of_nat ?n" "oc_capacity ctx"] b(2) un by auto
      moreover obtain k where "unat (oc_base_nbytes ctx) = 16 * k"
        using r by (auto simp: redo_ready_def elim: mod_eqE dest: mod_0_imp_dvd)
      ultimately show ?thesis using r 1 by (auto simp: redo_ready_def)
    next
      case 2
      then show ?thesis using inv by (auto simp: shadow_inv_def)
    qed
    then show "unat ?c = ?n \<or> ?n + 8 \<le> unat ?c" "unat ?c + 64 < 2 ^ 64" by simp_all
  qed
  moreover have "vs \<noteq> []" using st by (simp add: storable_def Let_def)
  ultimately show ?thesis using src by (auto simp: val_log_def shadow_log_def)
qed
end
