(* ===== verification/Memops_Process.thy ===== *)
theory Memops_Process
  imports Memops_Redo
begin

text \<open>
  A whole operation: a redo context is started, entries are added to it, and it is
  processed and finished.  Power may fail at any moment; the pool then holds the old
  contents, the new ones, a log from which recovery produces the new ones, or, because
  nothing orders the entries before the header is cleared, a mixture and no log.
\<close>

section \<open>Processing through the redo log\<close>

text \<open>The medium once the collected entries have been stored in the log.\<close>

definition logged_img :: "operation_context \<Rightarrow> mem \<Rightarrow> mem" where
  "logged_img ctx m =
     logged (oc_ulog ctx) (ol_ulog (oc_pshadow ctx)) (ol_offset (oc_pshadow ctx)) (oc_base_nbytes ctx) (oc_capacity ctx) m"

lemma process_redo_cases:
  assumes r: "redo_ready ctx vs" and p: "live p" "pm_ps p = []"
  defines "m \<equiv> md_img (pm_s p)" and "xs \<equiv> map val_redo vs" and "hdr \<equiv> ulog_header 0 0 0 0 0"
  obtains (complete) src' p' where
      "operation_process_persistent_redo ctx p = Some (Inr (ctx\<lparr>oc_pshadow := (oc_pshadow ctx)\<lparr>ol_ulog := src'\<rparr>\<rparr>), p')"
      "live p'" "pm_ps p' = []" "md_img (pm_s p') = wr (redo_run xs (logged_img ctx m)) (unat (oc_ulog ctx)) hdr"
      "redo_log (redo_area ctx vs) (logged_img ctx m) (oc_ulog ctx) xs"
      "\<forall>a. a \<notin> redo_area ctx vs \<longrightarrow> logged_img ctx m a = m a"
      "ulog_cap src' 0 = ulog_cap (ol_ulog (oc_pshadow ctx)) 0" "md_power (pm_s p) = None \<longrightarrow> md_power (pm_s p') = None"
    | (before) e p' where "operation_process_persistent_redo ctx p = Some (Inl e, p')" "\<not> live p'" "pm_ps p' = []"
      "\<forall>a. a \<notin> redo_area ctx vs \<longrightarrow> md_img (pm_s p') a = m a" "md_power (pm_s p) \<noteq> None"
    | (after) e p' qs hs where "operation_process_persistent_redo ctx p = Some (Inl e, p')" "\<not> live p'" "pm_ps p' = []"
      "md_img (pm_s p') = wr_some (md_torn (pm_s p)) (logged_img ctx m) (qs @ hs)"
      "mixed_stores xs (logged_img ctx m) qs" "hs = [] \<or> hs = [(unat (oc_ulog ctx), hdr)]"
      "redo_log (redo_area ctx vs) (logged_img ctx m) (oc_ulog ctx) xs"
      "\<forall>a. a \<notin> redo_area ctx vs \<longrightarrow> logged_img ctx m a = m a" "md_power (pm_s p) \<noteq> None"
proof -
  have inv: "shadow_inv ctx vs" and st: "storable (oc_ulog ctx) (oc_base_nbytes ctx) (oc_capacity ctx) vs"
    and nx: "oc_next ctx = []" using r by (simp_all add: redo_ready_def)
  have sl: "shadow_log (ol_ulog (oc_pshadow ctx)) vs" and off: "ol_offset (oc_pshadow ctx) = of_nat (16 * length vs)"
    using inv by (simp_all add: shadow_inv_def)
  show ?thesis
  proof (cases rule: ulog_store_cases [OF st sl p, case_names ok torn])
    case (torn e p')
    then show ?thesis by (intro that(2) [of e p']) (auto simp: operation_process_persistent_redo_def nx off m_def)
  next
    case (ok src' p1)
    have lg: "md_img (pm_s p1) = logged_img ctx m" using ok(5) by (simp add: logged_img_def off m_def)
    have out: "\<forall>a. a \<notin> redo_area ctx vs \<longrightarrow> logged_img ctx m a = m a" using ok(6) lg by (simp add: m_def)
    have vl: "val_log src' 0 vs" by (rule redo_ready_val_log [OF r ok(9,11,10)])
    have v1: "vis p1 = logged_img ctx m" using ok(3) lg by (simp add: vis_def)
    obtain y p2 where sp: "shadow_process src' p1 = Some (y, p2)"
        "applied xs (logged_img ctx m) xs p1 (ret0 y) p2"
      using shadow_process_applied [OF vl ok(2), of xs "logged_img ctx m"] v1 by (auto simp: xs_def)
    let ?res = "case ret0 y of Inl e \<Rightarrow> (Inl e, p2) | Inr _ \<Rightarrow> ppersist (unat (oc_ulog ctx)) hdr p2"
    let ?c = "ctx\<lparr>oc_pshadow := (oc_pshadow ctx)\<lparr>ol_ulog := src'\<rparr>\<rparr>"
    have eq: "operation_process_persistent_redo ctx p = Some (bind_io ?res (\<lambda>_ p3. (Inr ?c, p3)))"
      by (simp add: operation_process_persistent_redo_def nx off ok(1) sp(1) ulog_clobber_def hdr_def del: of_nat_mult split: sum.split)
    have pw: "md_power (pm_s p) \<noteq> None" if "md_power (pm_s p1) \<noteq> None" using that ok(8) by auto
    show ?thesis
    proof (cases rule: apply_then_clobber_cases [OF sp(2) ok(3) lg, of "unat (oc_ulog ctx)" hdr, case_names complete interrupted])
      case (complete p')
      then show ?thesis using ok(4,8,10) lg out by (intro that(1) [of src' p']) (simp_all add: eq xs_def)
    next
      case (interrupted e p' qs hs)
      then show ?thesis using ok(4,7) lg out pw
        by (intro that(3) [of e p' qs hs]) (auto simp: eq xs_def)
    qed
  qed
qed

section \<open>What a power failure leaves\<close>

text \<open>Recovery from the log at \<open>u\<close> produces \<open>m'\<close> everywhere outside the area \<open>A\<close> of the log.\<close>

definition recovers_to :: "u64 \<Rightarrow> nat set \<Rightarrow> mem \<Rightarrow> mem \<Rightarrow> bool" where
  "recovers_to u A img m' \<longleftrightarrow>
     (\<forall>q :: pmem. md_img (pm_s q) = img \<and> pm_ps q = [] \<and> md_power (pm_s q) = None \<longrightarrow>
        (\<exists>q'. ulog_recover u q = Some (Inr (), q') \<and> pm_ps q' = [] \<and>
           (\<forall>a. a \<notin> A \<longrightarrow> md_img (pm_s q') a = m' a)))"

lemma mixed_recovers:
  assumes log: "redo_log A lg u xs" and out: "\<forall>a. a \<notin> A \<longrightarrow> lg a = m a" and mx: "mixed xs lg img"
    and AB: "A \<subseteq> B"
  shows "recovers_to u B img (redo_run xs m)"
  unfolding recovers_to_def
proof (intro allI impI, elim conjE)
  fix q :: pmem
  assume q: "md_img (pm_s q) = img" "pm_ps q = []" "md_power (pm_s q) = None"
  have log': "redo_log A (md_img (pm_s q)) u xs" using redo_log_mixed [OF log mx] q(1) by simp
  have l: "live q" using q(3) by (simp add: live_def powered_def)
  have uA: "{unat u..<unat u + 64} \<subseteq> A" using log by (simp add: redo_log_def)
  show "\<exists>q'. ulog_recover u q = Some (Inr (), q') \<and> pm_ps q' = [] \<and>
      (\<forall>a. a \<notin> B \<longrightarrow> md_img (pm_s q') a = redo_run xs m a)"
  proof (cases rule: ulog_recover_cases [OF log' l q(2), case_names complete interrupted])
    case (complete q')
    have "md_img (pm_s q') a = redo_run xs m a" if "a \<notin> B" for a
    proof -
      have a: "a \<notin> A" using that AB by blast
      then have "\<not> (unat u \<le> a \<and> a < unat u + 64)" using uA by (auto simp: subset_iff)
      then have "md_img (pm_s q') a = redo_run xs img a" unfolding complete(4) q(1) by (intro wr_outside) auto
      also have "\<dots> = redo_run xs lg a" by (simp add: redo_run_mixed [OF mx])
      also have "\<dots> = redo_run xs m a" using out a by (intro redo_run_local) blast
      finally show ?thesis .
    qed
    with complete show ?thesis by blast
  next
    case (interrupted e p' qs hs)
    then show ?thesis using q(3) by auto
  qed
qed

text \<open>
  The header of the log at \<open>u\<close> while it is being cleared: some of its bytes are zeroed already,
  the others are those of \<open>hdr\<close>.
\<close>

definition header_torn :: "u64 \<Rightarrow> byte list \<Rightarrow> mem \<Rightarrow> bool" where
  "header_torn u hdr img \<longleftrightarrow>
     rd img (unat u) 64 \<noteq> hdr \<and> (\<forall>k < 64. img (unat u + k) = hdr ! k \<or> img (unat u + k) = 0)"

text \<open>
  The contents after a power failure during an operation with the updates \<open>xs\<close> on \<open>m\<close>,
  outside the area \<open>A\<close> of the log with the header \<open>hdr\<close>.  There are four cases: the old
  contents; the new ones; every bit is an old one or one of an update, and recovery from
  the log produces the new contents; every bit is an old one or one of an update, but the
  header of the log has been cleared or is torn.  In the last case recovery need not find a
  log, and what was not applied is lost.
\<close>

definition redo_outcome :: "u64 \<Rightarrow> nat set \<Rightarrow> byte list \<Rightarrow> redo list \<Rightarrow> mem \<Rightarrow> mem \<Rightarrow> bool" where
  "redo_outcome u A hdr xs m img \<longleftrightarrow>
     (\<forall>a. a \<notin> A \<longrightarrow> img a = m a) \<or> (\<forall>a. a \<notin> A \<longrightarrow> img a = redo_run xs m a) \<or>
     (\<forall>a. a \<notin> A \<longrightarrow> mixed_byte xs m a (img a)) \<and> recovers_to u A img (redo_run xs m) \<or>
     (\<forall>a. a \<notin> A \<longrightarrow> mixed_byte xs m a (img a)) \<and> header_torn u hdr img"

lemma zero_header: "ulog_header 0 0 0 0 0 = replicate 64 0"
  by (simp add: ulog_header_def le64_zero replicate_add [symmetric] del: replicate.simps)

lemma mixed_byte_cong: "m a = m' a \<Longrightarrow> mixed_byte xs m a b = mixed_byte xs m' a b"
  by (simp add: mixed_byte_def)

lemma cleared_next_off:
  assumes "unat u + 64 < 2 ^ 64"
  shows "ulog_next_off (wr m (unat u) (ulog_header 0 0 0 0 0)) u = 0"
proof -
  have "unat (u + 8) = unat u + 8" using assms by (subst unat_add_small) simp_all
  moreover have "rd (wr m (unat u) (ulog_header 0 0 0 0 0)) (unat u + 8) 8 = replicate 8 0"
    by (rule nth_equalityI) (simp_all add: wr_def zero_header del: replicate.simps)
  ultimately show ?thesis by (simp add: ulog_next_off_def ld64_def unle64_zeros)
qed

lemma process_redo_outcome:
  assumes r: "redo_ready ctx vs" and p: "live p" "pm_ps p = []" and A: "redo_area ctx vs \<subseteq> A"
  defines "m \<equiv> md_img (pm_s p)" and "xs \<equiv> map val_redo vs"
  obtains (complete) src' p' where
      "operation_process_persistent_redo ctx p = Some (Inr (ctx\<lparr>oc_pshadow := (oc_pshadow ctx)\<lparr>ol_ulog := src'\<rparr>\<rparr>), p')"
      "live p'" "pm_ps p' = []" "\<forall>a. a \<notin> A \<longrightarrow> md_img (pm_s p') a = redo_run xs m a"
      "ulog_cap src' 0 = ulog_cap (ol_ulog (oc_pshadow ctx)) 0" "ulog_next_off (vis p') (oc_ulog ctx) = 0"
      "md_power (pm_s p) = None \<longrightarrow> md_power (pm_s p') = None"
    | (failed) e p' where "operation_process_persistent_redo ctx p = Some (Inl e, p')" "\<not> live p'" "pm_ps p' = []"
      "redo_outcome (oc_ulog ctx) A (rd (logged_img ctx m) (unat (oc_ulog ctx)) 64) xs m (md_img (pm_s p'))"
      "md_power (pm_s p) \<noteq> None"
proof (cases rule: process_redo_cases [OF r p, case_names complete before after])
  case (complete src' p')
  note c = complete [folded m_def xs_def]
  have uA: "{unat (oc_ulog ctx)..<unat (oc_ulog ctx) + 64} \<subseteq> A" using c(5) A by (auto simp: redo_log_def)
  have "md_img (pm_s p') a = redo_run xs m a" if "a \<notin> A" for a
  proof -
    have "\<not> (unat (oc_ulog ctx) \<le> a \<and> a < unat (oc_ulog ctx) + 64)" using uA that by (auto simp: subset_iff)
    then have "md_img (pm_s p') a = redo_run xs (logged_img ctx m) a"
      unfolding c(4) by (intro wr_outside) (auto simp: ulog_header_def)
    also have "\<dots> = redo_run xs m a" using c(6) A that by (intro redo_run_local) blast
    finally show ?thesis .
  qed
  moreover have "ulog_next_off (vis p') (oc_ulog ctx) = 0"
    using c(3,5) cleared_next_off [of "oc_ulog ctx"] unfolding vis_def c(4) by (simp add: redo_log_def)
  ultimately show ?thesis using c by (intro that(1) [of src' p']) simp_all
next
  case (before e p')
  note c = before [folded m_def xs_def]
  show ?thesis using c A by (intro that(2) [of e p']) (auto simp: redo_outcome_def)
next
  case (after e p' qs hs)
  note c = after [folded m_def xs_def]
  let ?u = "unat (oc_ulog ctx)" and ?img = "md_img (pm_s p')" and ?lg = "logged_img ctx m"
  have uA: "{?u..<?u + 64} \<subseteq> A" using c(7) A by (auto simp: redo_log_def)
  have dom: "\<forall>x \<in> set xs. redo_dom x \<inter> redo_area ctx vs = {}" "{?u..<?u + 64} \<subseteq> redo_area ctx vs"
    using c(7) by (simp_all add: redo_log_def)
  have old: "wr_some (md_torn (pm_s p)) ?lg qs a = ?lg a" if "a \<in> {?u..<?u + 64}" for a
    using mixed_outside [OF mixed_wr_some [OF mixed_refl c(5)], of a] dom that by blast
  have "?img (?u + k) = rd ?lg ?u 64 ! k \<or> ?img (?u + k) = 0" if k: "k < 64" for k
    using c(6) old [of "?u + k"] k
    unfolding c(4) wr_some_append by (auto simp: wr_torn_def zero_header simp del: replicate.simps)
  then have torn: "header_torn (oc_ulog ctx) (rd ?lg ?u 64) ?img" if "rd ?img ?u 64 \<noteq> rd ?lg ?u 64"
    using that by (simp add: header_torn_def)
  have "recovers_to (oc_ulog ctx) A ?img (redo_run xs m)" if h: "rd ?img ?u 64 = rd ?lg ?u 64"
  proof (rule mixed_recovers [OF c(7,8) _ A])
    show "mixed xs ?lg ?img"
      by (rule spared_header_mixed [OF c(4,5,6)]) (use h in \<open>simp add: ulog_header_def\<close>)
  qed
  moreover have "mixed_byte xs m a (?img a)" if a: "a \<notin> A" for a
  proof -
    have "?img a = wr_some (md_torn (pm_s p)) ?lg qs a"
      using c(6) a uA unfolding c(4) wr_some_append by (auto simp: wr_torn_def ulog_header_def subset_iff)
    moreover have "mixed xs ?lg (wr_some (md_torn (pm_s p)) ?lg qs)"
      by (rule mixed_wr_some [OF mixed_refl c(5)])
    moreover have "?lg a = m a" using c(8) a A by blast
    ultimately show ?thesis unfolding mixed_def using mixed_byte_cong [of ?lg a m xs] by metis
  qed
  ultimately have "redo_outcome (oc_ulog ctx) A (rd ?lg ?u 64) xs m ?img"
    using torn by (auto simp: redo_outcome_def)
  then show ?thesis using c by (intro that(2) [of e p']) simp_all
qed

section \<open>A single entry\<close>

lemma wr_torn_word:
  assumes "off mod 8 = 0" "length bs = 8"
  shows "wr_torn sel m off bs = (if sel (off div 8) then wr m off bs else m)"
proof
  fix a
  obtain k where k: "off = 8 * k" using assms(1) by (auto elim: mod_eqE dest: mod_0_imp_dvd)
  have "a div 8 = off div 8" if "off \<le> a \<and> a < off + 8"
    using that unfolding k by (simp add: div_nat_eqI)
  then show "wr_torn sel m off bs a = (if sel (off div 8) then wr m off bs else m) a"
    using assms(2) by (auto simp: wr_torn_def wr_def)
qed

lemma ulog_entry_apply_now:
  assumes "entry_at m e = Some x" "is_val_type (ulog_entry_type m e)"
  shows "ulog_entry_apply m e True p = ppersist (redo_off x) (redo_bytes x (vis p)) p"
  using assms
  by (auto simp: entry_at_def ulog_entry_apply_def store_val_def ppersist_def is_val_type_def Let_def split: if_splits)

text \<open>An aligned word is written in one piece.\<close>

lemma apply_now_cases:
  assumes e: "entry_at em e = Some (val_redo w)" "is_val_type (ulog_entry_type em e)"
    and al: "unat (val_dest w) mod 8 = 0" and p: "live p" "pm_ps p = []"
  defines "m \<equiv> md_img (pm_s p)"
  obtains (complete) p' where "ulog_entry_apply em e True p = (Inr (), p')" "live p'" "pm_ps p' = []"
      "md_img (pm_s p') = redo_apply (val_redo w) m" "md_power (pm_s p) = None \<longrightarrow> md_power (pm_s p') = None"
    | (failed) er p' where "ulog_entry_apply em e True p = (Inl er, p')" "\<not> live p'" "pm_ps p' = []"
      "md_img (pm_s p') = m \<or> md_img (pm_s p') = redo_apply (val_redo w) m" "md_power (pm_s p) \<noteq> None"
proof -
  let ?x = "val_redo w"
  have v: "vis p = m" using p(2) by (simp add: vis_def m_def)
  have x: "redo_off ?x mod 8 = 0" "length (redo_bytes ?x m) = 8"
    using al by (cases w; simp)+
  show ?thesis
  proof (cases rule: ppersist_cases [OF p, of "redo_off ?x" "redo_bytes ?x m", case_names ok torn])
    case (ok p')
    then show ?thesis by (intro that(1) [of p']) (simp_all add: ulog_entry_apply_now [OF e] v redo_apply_def m_def)
  next
    case (torn er p')
    then show ?thesis using wr_torn_word [OF x, of _ m]
      by (intro that(2) [of er p']) (auto simp: ulog_entry_apply_now [OF e] v redo_apply_def m_def)
  qed
qed

section \<open>The persistent part of an operation\<close>

text \<open>Processing changes nothing else of a context than its state and the bytes of the shadow log.\<close>

definition processed :: "operation_context \<Rightarrow> operation_context \<Rightarrow> bool" where
  "processed ctx ctx' \<longleftrightarrow>
     (\<exists>src s. ctx' = ctx\<lparr>oc_pshadow := (oc_pshadow ctx)\<lparr>ol_ulog := src\<rparr>, oc_state := s\<rparr> \<and>
        ulog_cap src 0 = ulog_cap (ol_ulog (oc_pshadow ctx)) 0)"

text \<open>Finishing a redo operation frees nothing when the log has no extensions.\<close>

lemma operation_finish_redo:
  assumes "oc_type ctx = LOG_TYPE_REDO" "\<not> oc_any_user_buffer ctx"
    and "oc_state ctx = OPERATION_CLEANUP \<longrightarrow> ulog_next_off (vis p) (oc_ulog ctx) = 0"
  shows "operation_finish rm ctx flags p = Some (Inr (ctx\<lparr>oc_state := OPERATION_IDLE\<rparr>), p)"
  using assms
  by (auto simp: operation_finish_def Let_def ulog_free_next_def unpin_loop.simps [of _ "Some _"]
      collect_links.simps [of _ "oc_ulog ctx"])

lemma process_persistent_outcome:
  assumes r: "redo_ready ctx vs" and p: "live p" "pm_ps p = []" and A: "redo_area ctx vs \<subseteq> A"
  defines "m \<equiv> md_img (pm_s p)" and "xs \<equiv> map val_redo vs"
  obtains (complete) ctx' p' where "process_persistent ctx p = Some (Inr ctx', p')" "live p'" "pm_ps p' = []"
      "\<forall>a. a \<notin> A \<longrightarrow> md_img (pm_s p') a = redo_run xs m a" "processed ctx ctx'"
      "\<forall>rm flags. oc_state ctx = OPERATION_IN_PROGRESS \<and> \<not> oc_any_user_buffer ctx \<longrightarrow>
         operation_finish rm ctx' flags p' = Some (Inr (ctx'\<lparr>oc_state := OPERATION_IDLE\<rparr>), p')"
      "md_power (pm_s p) = None \<longrightarrow> md_power (pm_s p') = None"
    | (failed) e p' where "process_persistent ctx p = Some (Inl e, p')" "\<not> live p'" "pm_ps p' = []"
      "redo_outcome (oc_ulog ctx) A (rd (logged_img ctx m) (unat (oc_ulog ctx)) 64) xs m (md_img (pm_s p'))"
      "length vs = 1 \<longrightarrow> md_img (pm_s p') = m \<or> md_img (pm_s p') = redo_run xs m" "md_power (pm_s p) \<noteq> None"
proof -
  let ?l = "oc_pshadow ctx"
  have inv: "shadow_inv ctx vs" and st: "storable (oc_ulog ctx) (oc_base_nbytes ctx) (oc_capacity ctx) vs"
    and ty: "oc_type ctx = LOG_TYPE_REDO" using r by (simp_all add: redo_ready_def)
  have sl: "shadow_log (ol_ulog ?l) vs" and off: "ol_offset ?l = of_nat (16 * length vs)"
    and al: "\<forall>w \<in> set vs. unat (val_dest w) mod 8 = 0"
    using inv by (simp_all add: shadow_inv_def)
  have n: "vs \<noteq> []" "16 * length vs + 72 < 2 ^ 64" using st by (simp_all add: storable_def Let_def)
  have un: "unat (ol_offset ?l) = 16 * length vs" using n(2) unfolding off by (simp add: unat_of_nat_small del: of_nat_mult)
  have nz: "ol_offset ?l \<noteq> 0" using un n(1) by auto
  show ?thesis
  proof (cases "length vs = 1")
    case True
    then obtain d v t where vs: "vs = [(d, v, t)]" by (cases vs) auto
    have e0: "entry_ptr 0 = ulog_data 0" by (simp add: entry_ptr_def)
    have f: "ulog_entry_offset (ol_ulog ?l) (ulog_data 0) = d" "ulog_entry_type (ol_ulog ?l) (ulog_data 0) = t"
        "ld64 (ol_ulog ?l) (ulog_data 0 + 8) = v" "is_val_type t"
      using shadow_entry [of "ol_ulog ?l" "[]" d v t "[]"] sl by (simp_all add: vs e0 shadow_log_def)
    have e: "entry_at (ol_ulog ?l) (ulog_data 0) = Some (val_redo (d, v, t))"
      using f(4) by (auto simp: entry_at_def f(1-3) is_val_type_def Let_def)
    have o16: "ol_offset ?l = 16" by (simp add: off vs)
    have pp: "process_persistent ctx p =
        Some (bind_io (ulog_entry_apply (ol_ulog ?l) (ulog_data 0) True p) (\<lambda>_ p1. (Inr ctx, p1)))"
      using ty o16 f(2,4) by (simp add: process_persistent_def Let_def)
    have ald: "unat (val_dest (d, v, t)) mod 8 = 0" using al by (simp add: vs)
    have run: "redo_run xs m = redo_apply (val_redo (d, v, t)) m" by (simp add: xs_def vs del: val_redo.simps)
    show ?thesis
    proof (cases rule: apply_now_cases [OF e _ ald p, case_names ty complete failed])
      case ty
      then show ?case by (simp add: f)
    next
      case (complete p')
      have "processed ctx ctx" unfolding processed_def
        by (intro exI [of _ "ol_ulog ?l"] exI [of _ "oc_state ctx"]) simp
      moreover have "\<forall>rm flags. oc_state ctx = OPERATION_IN_PROGRESS \<and> \<not> oc_any_user_buffer ctx \<longrightarrow>
          operation_finish rm ctx flags p' = Some (Inr (ctx\<lparr>oc_state := OPERATION_IDLE\<rparr>), p')"
        using ty by (auto intro: operation_finish_redo)
      ultimately show ?thesis using complete
        by (intro that(1) [of ctx p']) (simp_all add: pp run [unfolded m_def] m_def del: val_redo.simps)
    next
      case (failed er p')
      then show ?thesis by (intro that(2) [of er p']) (auto simp: pp run [unfolded m_def] m_def redo_outcome_def simp del: val_redo.simps)
    qed
  next
    case False
    have o16: "ol_offset ?l \<noteq> 16" using un False by auto
    have pp: "process_persistent ctx p = Option.bind (operation_process_persistent_redo ctx p) (\<lambda>(x, p1).
        Some (case x of Inl er \<Rightarrow> Inl er | Inr ctx1 \<Rightarrow> Inr (ctx1\<lparr>oc_state := OPERATION_CLEANUP\<rparr>), p1))"
      using ty o16 nz by (simp add: process_persistent_def Let_def)
    show ?thesis
    proof (cases rule: process_redo_outcome [OF r p A, case_names complete failed])
      case (complete src' p')
      let ?c = "ctx\<lparr>oc_pshadow := ?l\<lparr>ol_ulog := src'\<rparr>, oc_state := OPERATION_CLEANUP\<rparr>"
      have "operation_finish rm ?c flags p' = Some (Inr (?c\<lparr>oc_state := OPERATION_IDLE\<rparr>), p')"
        if "\<not> oc_any_user_buffer ctx" for rm flags
        by (rule operation_finish_redo) (use ty that complete(6) in simp_all)
      then show ?thesis using complete
        by (intro that(1) [of ?c p']) (auto simp: pp processed_def m_def xs_def)
    next
      case (failed e p')
      then show ?thesis using False by (intro that(2) [of e p']) (auto simp: pp m_def xs_def)
    qed
  qed
qed

section \<open>Whole operations\<close>

text \<open>
  The invariant of a redo context: its log has no extensions, the shadow log has room,
  and the merge queue has its initial or its full size.
\<close>

definition redo_ctx_wf :: "operation_context \<Rightarrow> bool" where
  "redo_ctx_wf ctx \<longleftrightarrow>
     oc_type ctx = LOG_TYPE_REDO \<and> oc_next ctx = [] \<and> oc_capacity ctx = oc_base_nbytes ctx \<and>
     unat (oc_base_nbytes ctx) mod 64 = 0 \<and> unat (oc_ulog ctx) + 64 + unat (oc_base_nbytes ctx) < 2 ^ 64 \<and>
     64 \<le> unat (ol_capacity (oc_pshadow ctx)) \<and> unat (ol_capacity (oc_pshadow ctx)) mod 1024 = 0 \<and>
     unat (ol_capacity (oc_pshadow ctx)) + 64 < 2 ^ 64 \<and>
     (ulog_cap (ol_ulog (oc_pshadow ctx)) 0 = oc_base_nbytes ctx \<or>
      ulog_cap (ol_ulog (oc_pshadow ctx)) 0 = ol_capacity (oc_pshadow ctx)) \<and>
     (vq_capacity (oc_merge_entries ctx) = 0 \<or> vq_capacity (oc_merge_entries ctx) = 64)"

text \<open>Between operations the context is idle as well, as \<open>operation_start\<close> asserts.\<close>

definition redo_context :: "operation_context \<Rightarrow> bool" where
  "redo_context ctx \<longleftrightarrow> redo_ctx_wf ctx \<and> oc_state ctx = OPERATION_IDLE"

definition redo_log_area :: "operation_context \<Rightarrow> nat set" where
  "redo_log_area ctx = {unat (oc_ulog ctx)..<unat (oc_ulog ctx) + 64 + unat (oc_base_nbytes ctx)}"

lemma redo_context_started:
  assumes "redo_ctx_wf ctx"
  shows "redo_ctx_wf (operation_start ctx)" "shadow_inv (operation_start ctx) []"
    "VECQ_SIZE (oc_merge_entries (operation_start ctx)) = 0"
    "ol_offset (oc_transient (operation_start ctx)) = 0"
    "oc_state (operation_start ctx) = OPERATION_IN_PROGRESS" "\<not> oc_any_user_buffer (operation_start ctx)"
  using assms
  by (simp_all add: redo_ctx_wf_def shadow_inv_def operation_start_def operation_init_def shadow_log_def queue_inv_def
      VECQ_CLEAR_def VECQ_SIZE_def vecq_wf_def vecq_list_def)

text \<open>Entries added one after the other; every reallocation succeeds.\<close>

type_synonym op_entry = "u64 \<times> u64 \<times> u64"

inductive collects :: "pool_bounds \<Rightarrow> operation_context \<Rightarrow> op_entry list \<Rightarrow> operation_context \<Rightarrow> bool" for pop where
  none: "collects pop ctx [] ctx"
| add: "collects pop ctx ((ptr, value, type) # es) ctx2"
    if "operation_add_entry pop (Some junk) grow_ok ctx ptr value type = (Inr (), ctx1)" "collects pop ctx1 es ctx2"

fun entry_redo :: "u64 \<Rightarrow> op_entry \<Rightarrow> redo" where
  "entry_redo base (ptr, value, type) = val_redo (ptr - base, value, type)"

fun entry_ok :: "pool_bounds \<Rightarrow> operation_context \<Rightarrow> op_entry \<Rightarrow> bool" where
  "entry_ok pop ctx (ptr, value, type) \<longleftrightarrow>
     (let d = ptr - oc_base ctx
      in OBJ_OFF_IS_VALID pop d \<and> val_ok (d, value, type) \<and> unat d mod 8 = 0 \<and>
         {unat d..<unat d + 8} \<inter> redo_log_area ctx = {})"

lemma entry_ok_same: "same_log ctx ctx' \<Longrightarrow> entry_ok pop ctx' w = entry_ok pop ctx w"
  by (cases w) (simp add: same_log_def redo_log_area_def)

lemma operation_add_entry_cases:
  assumes inv: "shadow_inv ctx vs" and cap: "unat (ol_capacity (oc_pshadow ctx)) + 1088 < 2 ^ 64"
    and q: "VECQ_SIZE (oc_merge_entries ctx) < OP_MERGE_SEARCH" and ok: "entry_ok pop ctx (ptr, value, type)"
  obtains ctx' vs' where
    "operation_add_entry pop (Some junk) grow_ok ctx ptr value type = (Inr (), ctx')"
    "shadow_inv ctx' vs'" "same_log ctx ctx'" "vs' \<noteq> []" "length vs' \<le> Suc (length vs)"
    "val_dest ` set vs' \<subseteq> insert (ptr - oc_base ctx) (val_dest ` set vs)"
    "effs (map val_redo vs') \<subseteq> effs (map val_redo vs @ [entry_redo (oc_base ctx) (ptr, value, type)])"
    "VECQ_SIZE (oc_merge_entries ctx') \<le> Suc (VECQ_SIZE (oc_merge_entries ctx))"
    "unat (ol_capacity (oc_pshadow ctx')) \<le> unat (ol_capacity (oc_pshadow ctx)) + 1024 \<and>
       unat (ol_capacity (oc_pshadow ctx')) \<le> max (unat (ol_capacity (oc_pshadow ctx))) (16 * length vs + 1088)"
    "\<forall>m. redo_run (map val_redo vs') m =
       redo_apply (entry_redo (oc_base ctx) (ptr, value, type)) (redo_run (map val_redo vs) m)"
proof -
  have v: "val_ok (ptr - oc_base ctx, value, type)" "unat (ptr - oc_base ctx) mod 8 = 0"
      "OBJ_OFF_IS_VALID pop (ptr - oc_base ctx)"
    using ok by (simp_all add: Let_def)
  show ?thesis
    by (rule operation_add_persistent [OF inv cap q v(1,2), of junk grow_ok])
      (rule that, simp_all add: operation_add_entry_def v(3) del: val_redo.simps)
qed

lemma collects_inv:
  assumes "collects pop ctx es ctx'" "shadow_inv ctx vs" "list_all (entry_ok pop ctx) es"
    and "VECQ_SIZE (oc_merge_entries ctx) + length es \<le> OP_MERGE_SEARCH"
    and "unat (ol_capacity (oc_pshadow ctx)) + 1024 * length es + 64 < 2 ^ 64"
  shows "\<exists>vs'. shadow_inv ctx' vs' \<and> same_log ctx ctx' \<and> (vs' = [] \<longrightarrow> vs = [] \<and> es = []) \<and>
    length vs' \<le> length vs + length es \<and>
    unat (ol_capacity (oc_pshadow ctx')) \<le> max (unat (ol_capacity (oc_pshadow ctx))) (16 * (length vs + length es) + 1088) \<and>
    val_dest ` set vs' \<subseteq> val_dest ` set vs \<union> (\<lambda>(ptr, value, type). ptr - oc_base ctx) ` set es \<and>
    effs (map val_redo vs') \<subseteq> effs (map val_redo vs @ map (entry_redo (oc_base ctx)) es) \<and>
    (\<forall>m. redo_run (map val_redo vs') m = redo_run (map (entry_redo (oc_base ctx)) es) (redo_run (map val_redo vs) m))"
  using assms
proof (induction arbitrary: vs)
  case (none ctx)
  then show ?case by (intro exI [of _ vs]) simp
next
  case (add junk grow_ok ctx ptr "value" "type" ctx1 es ctx2)
  have cap: "unat (ol_capacity (oc_pshadow ctx)) + 1088 < 2 ^ 64" and q: "VECQ_SIZE (oc_merge_entries ctx) < OP_MERGE_SEARCH"
    and ok: "entry_ok pop ctx (ptr, value, type)" using add.prems by simp_all
  obtain ctx1' vs1 where c: "operation_add_entry pop (Some junk) grow_ok ctx ptr value type = (Inr (), ctx1')"
    "shadow_inv ctx1' vs1" "same_log ctx ctx1'" "vs1 \<noteq> []" "length vs1 \<le> Suc (length vs)"
    "val_dest ` set vs1 \<subseteq> insert (ptr - oc_base ctx) (val_dest ` set vs)"
    "effs (map val_redo vs1) \<subseteq> effs (map val_redo vs @ [entry_redo (oc_base ctx) (ptr, value, type)])"
    "VECQ_SIZE (oc_merge_entries ctx1') \<le> Suc (VECQ_SIZE (oc_merge_entries ctx))"
    "unat (ol_capacity (oc_pshadow ctx1')) \<le> unat (ol_capacity (oc_pshadow ctx)) + 1024 \<and>
       unat (ol_capacity (oc_pshadow ctx1')) \<le> max (unat (ol_capacity (oc_pshadow ctx))) (16 * length vs + 1088)"
    "\<forall>m. redo_run (map val_redo vs1) m =
       redo_apply (entry_redo (oc_base ctx) (ptr, value, type)) (redo_run (map val_redo vs) m)"
    using operation_add_entry_cases [OF add.prems(1) cap q ok, of junk grow_ok] by metis
  have ctx1: "ctx1' = ctx1" using add.hyps(1) c(1) by simp
  have b: "oc_base ctx1 = oc_base ctx" using c(3) ctx1 by (simp add: same_log_def)
  have ok1: "list_all (entry_ok pop ctx1) es"
    using add.prems(2) entry_ok_same [OF c(3)] by (simp add: ctx1 list_all_iff del: entry_ok.simps)
  have q1: "VECQ_SIZE (oc_merge_entries ctx1) + length es \<le> OP_MERGE_SEARCH"
    and c1: "unat (ol_capacity (oc_pshadow ctx1)) + 1024 * length es + 64 < 2 ^ 64"
    using add.prems(3,4) c(8,9) by (simp_all add: ctx1)
  obtain vs' where v: "shadow_inv ctx2 vs'" "same_log ctx1 ctx2" "vs' = [] \<longrightarrow> vs1 = [] \<and> es = []"
      "length vs' \<le> length vs1 + length es"
      "unat (ol_capacity (oc_pshadow ctx2)) \<le> max (unat (ol_capacity (oc_pshadow ctx1))) (16 * (length vs1 + length es) + 1088)"
      "val_dest ` set vs' \<subseteq> val_dest ` set vs1 \<union> (\<lambda>(ptr, value, type). ptr - oc_base ctx) ` set es"
      "effs (map val_redo vs') \<subseteq> effs (map val_redo vs1 @ map (entry_redo (oc_base ctx)) es)"
      "\<forall>m. redo_run (map val_redo vs') m = redo_run (map (entry_redo (oc_base ctx)) es) (redo_run (map val_redo vs1) m)"
    using add.IH [OF c(2) [unfolded ctx1] ok1 q1 c1] unfolding b by blast
  show ?case
  proof (intro exI conjI)
    show "shadow_inv ctx2 vs'" by (rule v(1))
    show "same_log ctx ctx2" using same_log_trans [OF c(3)] v(2) ctx1 by simp
    show "vs' = [] \<longrightarrow> vs = [] \<and> (ptr, value, type) # es = []" using v(3) c(4) by simp
    show "length vs' \<le> length vs + length ((ptr, value, type) # es)" using v(4) c(5) by simp
    show "unat (ol_capacity (oc_pshadow ctx2)) \<le>
        max (unat (ol_capacity (oc_pshadow ctx))) (16 * (length vs + length ((ptr, value, type) # es)) + 1088)"
      using v(5) c(5,9) ctx1 by (auto simp: max_def split: if_splits)
    show "val_dest ` set vs' \<subseteq> val_dest ` set vs \<union>
        (\<lambda>(ptr, value, type). ptr - oc_base ctx) ` set ((ptr, value, type) # es)"
      using v(6) c(6) by auto
    show "\<forall>m. redo_run (map val_redo vs') m =
        redo_run (map (entry_redo (oc_base ctx)) ((ptr, value, type) # es)) (redo_run (map val_redo vs) m)"
      using v(8) c(10) by (simp del: entry_redo.simps)
    show "effs (map val_redo vs') \<subseteq> effs (map val_redo vs @ map (entry_redo (oc_base ctx)) ((ptr, value, type) # es))"
      using v(7) c(7) unfolding list.map effs_append effs_Cons [of _ "map (entry_redo (oc_base ctx)) es"] by blast
  qed
qed

end
