(* ===== verification/Memops_Theorems.thy ===== *)
theory Memops_Theorems
  imports Memops_Process Ulog_Theorems
begin

text \<open>
  The theorems about operation contexts and the queue of merge candidates, and a context on
  which their hypotheses hold.
\<close>

section \<open>Room in the log\<close>

lemma store_nbytes_fits:
  assumes "16 * n \<le> unat base" "unat base mod 64 = 0" "unat base + 64 < 2 ^ 64"
  shows "unat (store_nbytes (of_nat (16 * n)) base) \<le> unat base" "16 * n + 72 < 2 ^ 64"
proof -
  obtain k where k: "unat base = 64 * k" using assms(2) by (auto elim: mod_eqE dest: mod_0_imp_dvd)
  have "k < 288230376151711743" using assms(3) k by simp
  then show b: "16 * n + 72 < 2 ^ 64" using assms(1) k by simp
  have un: "unat (of_nat (16 * n) :: u64) = 16 * n" using b by (simp add: unat_of_nat_small del: of_nat_mult)
  show "unat (store_nbytes (of_nat (16 * n)) base) \<le> unat base"
  proof (cases "(of_nat (16 * n) :: u64) = base")
    case True
    then show ?thesis by (simp add: store_nbytes_def del: of_nat_mult)
  next
    case False
    then have "16 * n \<noteq> unat base" using un by (metis unsigned_word_eqI)
    moreover have "unat (of_nat (16 * n) + 8 :: u64) = 16 * n + 8"
      using b un by (subst unat_add_small) (simp_all del: of_nat_mult)
    ultimately show ?thesis
      using False b assms(1) by (simp add: store_nbytes_def unat_CACHELINE_ALIGN k del: of_nat_mult)
  qed
qed

lemma collected_ready:
  assumes rc: "redo_ctx_wf ctx" and inv: "shadow_inv ctx vs" and vs: "vs \<noteq> []" "16 * length vs \<le> unat (oc_base_nbytes ctx)"
    and dis: "\<forall>d \<in> val_dest ` set vs. {unat d..<unat d + 8} \<inter> redo_log_area ctx = {}"
  shows "redo_ready ctx vs" "redo_area ctx vs \<subseteq> redo_log_area ctx"
proof -
  let ?nb = "store_nbytes (of_nat (16 * length vs)) (oc_base_nbytes ctx)"
  have c: "oc_type ctx = LOG_TYPE_REDO" "oc_next ctx = []" "oc_capacity ctx = oc_base_nbytes ctx"
      "unat (oc_base_nbytes ctx) mod 64 = 0" "unat (oc_ulog ctx) + 64 + unat (oc_base_nbytes ctx) < 2 ^ 64"
    using rc by (simp_all add: redo_ctx_wf_def)
  have b: "unat (oc_base_nbytes ctx) + 64 < 2 ^ 64" using c(5) by simp
  note f = store_nbytes_fits [OF vs(2) c(4) b]
  show A: "redo_area ctx vs \<subseteq> redo_log_area ctx"
    using f(1) by (auto simp: stored_area_def redo_log_area_def c(3) simp del: of_nat_mult)
  have "(16 :: nat) dvd 64" "64 dvd unat (oc_base_nbytes ctx)" using c(4) by (simp_all add: dvd_eq_mod_eq_0)
  then have "16 dvd unat (oc_base_nbytes ctx)" by (rule dvd_trans)
  then have m16: "unat (oc_base_nbytes ctx) mod 16 = 0" by (simp add: dvd_eq_mod_eq_0)
  have dom: "\<forall>x \<in> set (map val_redo vs). redo_dom x \<inter> redo_area ctx vs = {}"
    using dis A by (fastforce simp: redo_dom_val simp del: val_redo.simps)
  have "storable (oc_ulog ctx) (oc_base_nbytes ctx) (oc_capacity ctx) vs"
    unfolding storable_def Let_def
    using vs(1) f c(3,5) dom [unfolded stored_area_def] by (simp add: word_le_nat_alt del: of_nat_mult)
  then show "redo_ready ctx vs" using inv c m16 b by (simp add: redo_ready_def)
qed

lemma redo_context_same:
  assumes "redo_ctx_wf ctx" "same_log ctx ctx'" "shadow_inv ctx' vs"
  shows "redo_ctx_wf ctx'" "redo_log_area ctx' = redo_log_area ctx"
  using assms by (auto simp: redo_ctx_wf_def same_log_def shadow_inv_def queue_inv_def redo_log_area_def)

lemma redo_context_processed:
  assumes "redo_ctx_wf ctx" "processed ctx ctx'"
  shows "redo_context (ctx'\<lparr>oc_state := OPERATION_IDLE\<rparr>)"
  using assms by (auto simp: redo_context_def redo_ctx_wf_def processed_def)

section \<open>One operation\<close>

text \<open>The entries of one operation: at most 64, no more than the log has room for.\<close>

definition op_ok :: "pool_bounds \<Rightarrow> operation_context \<Rightarrow> op_entry list \<Rightarrow> bool" where
  "op_ok pop ctx es \<longleftrightarrow>
     es \<noteq> [] \<and> length es \<le> 64 \<and> 16 * length es \<le> unat (oc_base_nbytes ctx) \<and> list_all (entry_ok pop ctx) es"

lemma operation_start_same:
  "oc_base (operation_start ctx) = oc_base ctx" "oc_ulog (operation_start ctx) = oc_ulog ctx"
  "oc_base_nbytes (operation_start ctx) = oc_base_nbytes ctx" "redo_log_area (operation_start ctx) = redo_log_area ctx"
  "ol_capacity (oc_pshadow (operation_start ctx)) = ol_capacity (oc_pshadow ctx)"
  by (simp_all add: operation_start_def operation_init_def redo_log_area_def)

lemma entry_ok_started: "entry_ok pop (operation_start ctx) w = entry_ok pop ctx w"
  by (cases w) (simp add: operation_start_same)

text \<open>What the collected entries are.\<close>

lemma started_collects:
  assumes rc: "redo_ctx_wf ctx" and es: "op_ok pop ctx es"
    and cap: "unat (ol_capacity (oc_pshadow ctx)) + 65600 < 2 ^ 64"
    and col: "collects pop (operation_start ctx) es ctx1"
  defines "xs \<equiv> map (entry_redo (oc_base ctx)) es"
  obtains vs where "redo_ready ctx1 vs" "redo_area ctx1 vs \<subseteq> redo_log_area ctx" "redo_ctx_wf ctx1"
    "same_log (operation_start ctx) ctx1" "vs \<noteq> []" "length vs \<le> length es"
    "effs (map val_redo vs) \<subseteq> effs xs" "\<forall>m. redo_run (map val_redo vs) m = redo_run xs m"
    "unat (ol_capacity (oc_pshadow ctx1)) \<le> max (unat (ol_capacity (oc_pshadow ctx))) 2112"
proof -
  let ?c = "operation_start ctx"
  note e = es [unfolded op_ok_def] and st = redo_context_started [OF rc]
  have ok: "list_all (entry_ok pop ?c) es" using e by (simp add: list_all_iff entry_ok_started)
  have q: "VECQ_SIZE (oc_merge_entries ?c) + length es \<le> OP_MERGE_SEARCH"
    and cp: "unat (ol_capacity (oc_pshadow ?c)) + 1024 * length es + 64 < 2 ^ 64"
    using st(3) e cap by (simp_all add: OP_MERGE_SEARCH_def operation_start_same)
  obtain vs where v: "shadow_inv ctx1 vs" "same_log ?c ctx1" "vs \<noteq> []" "length vs \<le> length es"
      "unat (ol_capacity (oc_pshadow ctx1)) \<le> max (unat (ol_capacity (oc_pshadow ctx))) (16 * length es + 1088)"
      "val_dest ` set vs \<subseteq> (\<lambda>(ptr, value, type). ptr - oc_base ctx) ` set es"
      "effs (map val_redo vs) \<subseteq> effs xs" "\<forall>m. redo_run (map val_redo vs) m = redo_run xs m"
    using collects_inv [OF col st(2) ok q cp] e by (auto simp: xs_def effs_def operation_start_same)
  note rc1 = redo_context_same [OF st(1) v(2,1)]
  have "{unat d..<unat d + 8} \<inter> redo_log_area ctx1 = {}" if d: "d \<in> val_dest ` set vs" for d
  proof -
    obtain ptr w t where w: "(ptr, w, t) \<in> set es" "d = ptr - oc_base ctx" using d v(6) by auto
    then have "entry_ok pop ctx (ptr, w, t)" using e unfolding list_all_iff by blast
    then show ?thesis by (simp add: w(2) rc1(2) operation_start_same Let_def)
  qed
  moreover have "16 * length vs \<le> unat (oc_base_nbytes ctx1)"
    using v(2,4) e by (simp add: same_log_def operation_start_same)
  ultimately have r: "redo_ready ctx1 vs" "redo_area ctx1 vs \<subseteq> redo_log_area ctx"
    using collected_ready [OF rc1(1) v(1,3)] rc1(2) by (simp_all add: operation_start_same)
  show ?thesis by (rule that [OF r rc1(1) v(2-4,7,8)]) (use v(5) e in auto)
qed

text \<open>The whole operation: it is processed and finished, or power fails.\<close>

lemma redo_operation_cases:
  assumes rc: "redo_context ctx" and es: "op_ok pop ctx es"
    and cap: "unat (ol_capacity (oc_pshadow ctx)) + 65600 < 2 ^ 64"
    and col: "collects pop (operation_start ctx) es ctx1"
    and p: "live p" "pm_ps p = []"
  defines "m \<equiv> md_img (pm_s p)" and "A \<equiv> redo_log_area ctx" and "xs \<equiv> map (entry_redo (oc_base ctx)) es"
  obtains (complete) ctx2 p' where "operation_process len ctx1 dram p = Some (Inr ctx2, dram, p')" "live p'" "pm_ps p' = []"
      "\<forall>a. a \<notin> A \<longrightarrow> md_img (pm_s p') a = redo_run xs m a"
      "\<forall>rm flags. operation_finish rm ctx2 flags p' = Some (Inr (ctx2\<lparr>oc_state := OPERATION_IDLE\<rparr>), p')"
      "redo_context (ctx2\<lparr>oc_state := OPERATION_IDLE\<rparr>)"
      "oc_base ctx2 = oc_base ctx" "oc_ulog ctx2 = oc_ulog ctx" "oc_base_nbytes ctx2 = oc_base_nbytes ctx"
      "unat (ol_capacity (oc_pshadow ctx2)) \<le> max (unat (ol_capacity (oc_pshadow ctx))) 2112"
      "md_power (pm_s p) = None \<longrightarrow> md_power (pm_s p') = None"
    | (failed) e p' where "operation_process len ctx1 dram p = Some (Inl e, dram, p')" "pm_ps p' = []"
      "redo_outcome (oc_ulog ctx) A (rd (logged_img ctx1 m) (unat (oc_ulog ctx)) 64) xs m (md_img (pm_s p'))"
      "length es = 1 \<longrightarrow> md_img (pm_s p') = m \<or> md_img (pm_s p') = redo_run xs m" "md_power (pm_s p) \<noteq> None"
proof (rule started_collects [OF _ es cap col])
  show "redo_ctx_wf ctx" using rc by (simp add: redo_context_def)
next
  fix vs
  assume r: "redo_ready ctx1 vs" "redo_area ctx1 vs \<subseteq> redo_log_area ctx" "redo_ctx_wf ctx1"
    and sm: "same_log (operation_start ctx) ctx1" and vs: "vs \<noteq> []" "length vs \<le> length es"
    and x: "effs (map val_redo vs) \<subseteq> effs (map (entry_redo (oc_base ctx)) es)"
      "\<forall>m. redo_run (map val_redo vs) m = redo_run (map (entry_redo (oc_base ctx)) es) m"
    and cp: "unat (ol_capacity (oc_pshadow ctx1)) \<le> max (unat (ol_capacity (oc_pshadow ctx))) 2112"
  have wf: "redo_ctx_wf ctx" using rc by (simp add: redo_context_def)
  have u: "oc_base ctx1 = oc_base ctx" "oc_ulog ctx1 = oc_ulog ctx" "oc_base_nbytes ctx1 = oc_base_nbytes ctx"
      "ol_offset (oc_transient ctx1) = 0" "oc_state ctx1 = OPERATION_IN_PROGRESS" "\<not> oc_any_user_buffer ctx1"
    using sm redo_context_started(4-6) [OF wf] by (simp_all add: same_log_def operation_start_same)
  show thesis
  proof (cases rule: process_persistent_outcome [OF r(1) p r(2), case_names complete failed])
    case (complete ctx2 p')
    have f: "ol_offset (oc_transient ctx2) = 0" "oc_base ctx2 = oc_base ctx" "oc_ulog ctx2 = oc_ulog ctx"
        "oc_base_nbytes ctx2 = oc_base_nbytes ctx" "ol_capacity (oc_pshadow ctx2) = ol_capacity (oc_pshadow ctx1)"
      using complete(5) u by (auto simp: processed_def)
    show ?thesis using complete x(2) u(5,6) f cp redo_context_processed [OF r(3) complete(5)]
      by (intro that(1) [of ctx2 p']) (auto simp: operation_process_def m_def A_def xs_def)
  next
    case (failed e p')
    have l: "length vs = 1" if "length es = 1" using that vs by (cases vs) auto
    have "redo_outcome (oc_ulog ctx) A (rd (logged_img ctx1 m) (unat (oc_ulog ctx)) 64) xs m (md_img (pm_s p'))"
      using failed(4) mixed_byte_mono [OF x(1)] x(2) unfolding redo_outcome_def u m_def A_def xs_def by auto
    then show ?thesis using failed l x(2)
      by (intro that(2) [of e p']) (auto simp: operation_process_def m_def xs_def)
  qed
qed

lemma collects_total:
  assumes "shadow_inv ctx vs" "list_all (entry_ok pop ctx) es"
    and "VECQ_SIZE (oc_merge_entries ctx) + length es \<le> OP_MERGE_SEARCH"
    and "unat (ol_capacity (oc_pshadow ctx)) + 1024 * length es + 64 < 2 ^ 64"
  shows "\<exists>ctx'. collects pop ctx es ctx'"
  using assms
proof (induction es arbitrary: ctx vs)
  case Nil
  then show ?case by (auto intro: collects.none)
next
  case (Cons w es)
  obtain ptr v t where w: "w = (ptr, v, t)" by (cases w)
  have cap: "unat (ol_capacity (oc_pshadow ctx)) + 1088 < 2 ^ 64" and q: "VECQ_SIZE (oc_merge_entries ctx) < OP_MERGE_SEARCH"
    and ok: "entry_ok pop ctx (ptr, v, t)" using Cons.prems by (simp_all add: w)
  obtain ctx1 vs1 where c: "operation_add_entry pop (Some (\<lambda>_. 0)) True ctx ptr v t = (Inr (), ctx1)"
    "shadow_inv ctx1 vs1" "same_log ctx ctx1"
    "VECQ_SIZE (oc_merge_entries ctx1) \<le> Suc (VECQ_SIZE (oc_merge_entries ctx))"
    "unat (ol_capacity (oc_pshadow ctx1)) \<le> unat (ol_capacity (oc_pshadow ctx)) + 1024 \<and>
       unat (ol_capacity (oc_pshadow ctx1)) \<le> max (unat (ol_capacity (oc_pshadow ctx))) (16 * length vs + 1088)"
    using operation_add_entry_cases [OF Cons.prems(1) cap q ok, of "\<lambda>_. 0" True] by metis
  have ok1: "list_all (entry_ok pop ctx1) es"
    using Cons.prems(2) entry_ok_same [OF c(3)] by (simp add: list_all_iff del: entry_ok.simps)
  obtain ctx2 where "collects pop ctx1 es ctx2" using Cons.IH [OF c(2) ok1] Cons.prems(3,4) c(4,5) by auto
  then show ?case using collects.add [OF c(1)] by (auto simp: w)
qed

lemma started_collects_total:
  assumes rc: "redo_context ctx" and es: "op_ok pop ctx es"
    and cap: "unat (ol_capacity (oc_pshadow ctx)) + 65600 < 2 ^ 64"
  shows "\<exists>ctx1. collects pop (operation_start ctx) es ctx1"
proof -
  have wf: "redo_ctx_wf ctx" using rc by (simp add: redo_context_def)
  note st = redo_context_started [OF wf]
  have "list_all (entry_ok pop (operation_start ctx)) es" using es by (simp add: op_ok_def list_all_iff entry_ok_started)
  then show ?thesis
    by (rule collects_total [OF st(2)]) (use st(3) es cap in \<open>simp_all add: OP_MERGE_SEARCH_def op_ok_def operation_start_same\<close>)
qed

section \<open>An example\<close>

definition ex_ctx :: operation_context where
  "ex_ctx = \<lparr> oc_type = LOG_TYPE_REDO, oc_extend = None, oc_ulog_free = (\<lambda>_ p. (Inr (), p)), oc_base = 0,
     oc_curr_offset = 0, oc_curr_capacity = 0, oc_curr_gen_num = 0, oc_curr = None,
     oc_total_logged = 0, oc_ulog = 4096, oc_base_nbytes = 640, oc_capacity = 640,
     oc_auto_reserve = False, oc_any_user_buffer = False, oc_next = [],
     oc_state = OPERATION_IDLE, oc_pshadow = operation_log_persistent_init 640,
     oc_transient = operation_log_transient_init, oc_merge_entries = VECQ_INIT \<rparr>"

definition ex_pool :: pool_bounds where
  "ex_pool = \<lparr> pop_lanes_offset = 8192, pop_nlanes = 1, pop_heap_offset = 0x10000, pop_heap_size = 0x10000 \<rparr>"

text \<open>Two entries for one word, which are merged, and one for another.\<close>

definition ex_adds :: "op_entry list" where
  "ex_adds = [(0x10000, 8, ULOG_OPERATION_OR), (0x10000, 2, ULOG_OPERATION_OR), (0x10008, 7, ULOG_OPERATION_SET)]"

lemma ex_redo_context: "redo_context ex_ctx"
  by (simp add: redo_context_def redo_ctx_wf_def ex_ctx_def operation_log_persistent_init_def operation_log_init_def ULOG_BASE_SIZE_def
      VECQ_INIT_def ulog_cap_def ld64_def mem_simps)

lemma ex_adds_ok: "list_all (entry_ok ex_pool ex_ctx) ex_adds"
  by (simp add: ex_adds_def ex_pool_def ex_ctx_def OBJ_OFF_IS_VALID_def OBJ_OFF_FROM_HEAP_def is_val_type_def
      redo_log_area_def Let_def ulog_op_defs)

lemma ex_op_ok: "op_ok ex_pool ex_ctx ex_adds"
  using ex_adds_ok by (simp add: op_ok_def ex_adds_def ex_ctx_def)

text \<open>What the entries do to an empty pool.\<close>

lemma ex_adds_run:
  "rd (redo_run (map (entry_redo (oc_base ex_ctx)) ex_adds) (\<lambda>_. 0)) 0x10000 16 = le64 10 @ le64 7"
proof -
  have r: "rd (\<lambda>_. 0) 0x10000 8 = replicate 8 0" by (rule nth_equalityI) simp_all
  have "redo_run (map (entry_redo (oc_base ex_ctx)) ex_adds) (\<lambda>_. 0) =
      wr (wr (wr (\<lambda>_. 0) 0x10000 (le64 8)) 0x10000 (le64 10)) 0x10008 (le64 7)"
    by (simp add: ex_adds_def ex_ctx_def ulog_op_defs redo_apply_def ld64_def mem_simps r unle64_zeros del: replicate.simps)
  moreover have "rd m 0x10000 16 = rd m 0x10000 8 @ rd m 0x10008 8" for m using rd_append [of m "0x10000" 8 8] by simp
  ultimately show ?thesis by (simp add: mem_simps disjoint_ranges_def)
qed

section \<open>Theorems\<close>

text \<open>
  C3: What an operation on a redo context does, and what a power failure leaves of it.  An
  idle context is started, at most 64 entries for aligned words of the pool outside the log
  are added, as many as the log has room for, and the operation is processed.  If the power
  stays on, the pool holds afterwards what the entries do one after the other, and finishing
  the operation leaves the medium as it is and a context that is idle again, as starting the
  next operation requires.  If power fails, there are four cases for the pool outside the
  log: the old contents; the new ones; every bit is old or set by an entry and recovery
  produces the new contents; every bit is old or set by an entry, but the header of the log
  has been cleared in part or completely.  The last case is not recoverable in general: the
  entries are not drained before the header is cleared.  An operation with a single entry
  leaves the old or the new contents only.
\<close>

theorem redo_operation_outcome:
  assumes rc: "redo_context ctx" and es: "op_ok pop ctx es"
    and cap: "unat (ol_capacity (oc_pshadow ctx)) + 65600 < 2 ^ 64"
    and col: "collects pop (operation_start ctx) es ctx1"
    and p: "live p" "pm_ps p = []"
  defines "m \<equiv> md_img (pm_s p)" and "A \<equiv> redo_log_area ctx" and "xs \<equiv> map (entry_redo (oc_base ctx)) es"
  shows "\<exists>y p'. operation_process len ctx1 dram p = Some (y, dram, p') \<and> pm_ps p' = [] \<and>
    (case y of
       Inr ctx2 \<Rightarrow> live p' \<and> (\<forall>a. a \<notin> A \<longrightarrow> md_img (pm_s p') a = redo_run xs m a) \<and>
         (\<exists>ctx3. operation_finish rm ctx2 flags p' = Some (Inr ctx3, p') \<and> redo_context ctx3)
     | Inl e \<Rightarrow> md_power (pm_s p) \<noteq> None \<and>
         redo_outcome (oc_ulog ctx) A (rd (logged_img ctx1 m) (unat (oc_ulog ctx)) 64) xs m (md_img (pm_s p')) \<and>
         (length es = 1 \<longrightarrow> md_img (pm_s p') = m \<or> md_img (pm_s p') = redo_run xs m))"
proof (cases rule: redo_operation_cases [OF rc es cap col p, of len dram, case_names complete failed])
  case (complete ctx2 p')
  then show ?thesis by (auto simp: m_def A_def xs_def)
next
  case (failed e p')
  then show ?thesis by (auto simp: m_def A_def xs_def)
qed

theorem redo_operation_outcome_witness:
  "\<exists>ctx1 ctx2 ctx3 p'. collects ex_pool (operation_start ex_ctx) ex_adds ctx1 \<and>
     operation_process 0x20000 ctx1 (\<lambda>_. 0) (ex_pmem None (\<lambda>_ _. False) (\<lambda>_. 0)) = Some (Inr ctx2, \<lambda>_. 0, p') \<and>
     rd (md_img (pm_s p')) 0x10000 16 = le64 10 @ le64 7 \<and>
     operation_finish (\<lambda>_ q. (Inr (), q)) ctx2 0 p' = Some (Inr ctx3, p') \<and> redo_context ctx3"
proof -
  have h: "unat (ol_capacity (oc_pshadow ex_ctx)) + 65600 < 2 ^ 64"
    by (simp add: ex_ctx_def operation_log_persistent_init_def operation_log_init_def ULOG_BASE_SIZE_def)
  obtain c where c: "collects ex_pool (operation_start ex_ctx) ex_adds c"
    using started_collects_total [OF ex_redo_context ex_op_ok h] by blast
  let ?p = "ex_pmem None (\<lambda>_ _. False) (\<lambda>_. 0)"
  have p: "live ?p" "pm_ps ?p = []" "md_power (pm_s ?p) = None" "md_img (pm_s ?p) = (\<lambda>_. 0)"
    by (simp_all add: ex_pmem_def live_def powered_def)
  obtain y p' where r: "operation_process 0x20000 c (\<lambda>_. 0) ?p = Some (y, \<lambda>_. 0, p')"
    "case y of
       Inr ctx2 \<Rightarrow> live p' \<and> (\<forall>a. a \<notin> redo_log_area ex_ctx \<longrightarrow>
           md_img (pm_s p') a = redo_run (map (entry_redo (oc_base ex_ctx)) ex_adds) (\<lambda>_. 0) a) \<and>
         (\<exists>ctx3. operation_finish (\<lambda>_ q. (Inr (), q)) ctx2 0 p' = Some (Inr ctx3, p') \<and> redo_context ctx3)
     | Inl e \<Rightarrow> None \<noteq> (None :: nat option) \<and>
         redo_outcome (oc_ulog ex_ctx) (redo_log_area ex_ctx) (rd (logged_img c (\<lambda>_. 0)) (unat (oc_ulog ex_ctx)) 64)
           (map (entry_redo (oc_base ex_ctx)) ex_adds) (\<lambda>_. 0) (md_img (pm_s p')) \<and>
         (length ex_adds = 1 \<longrightarrow> md_img (pm_s p') = (\<lambda>_. 0) \<or>
            md_img (pm_s p') = redo_run (map (entry_redo (oc_base ex_ctx)) ex_adds) (\<lambda>_. 0))"
    using redo_operation_outcome [OF ex_redo_context ex_op_ok h c p(1,2), of "0x20000" "\<lambda>_. 0" "\<lambda>_ q. (Inr (), q)" 0]
    unfolding p(3,4) by blast
  then obtain ctx2 ctx3 where y: "y = Inr ctx2" and f: "operation_finish (\<lambda>_ q. (Inr (), q)) ctx2 0 p' = Some (Inr ctx3, p')"
      "redo_context ctx3"
    by (cases y) auto
  have "rd (md_img (pm_s p')) 0x10000 16 = rd (redo_run (map (entry_redo (oc_base ex_ctx)) ex_adds) (\<lambda>_. 0)) 0x10000 16"
    using r(2) by (intro rd_eqI) (simp add: y redo_log_area_def ex_ctx_def)
  then show ?thesis using c r(1) y f ex_adds_run by auto
qed

section \<open>Sequences of operations\<close>

text \<open>
  Operations one after the other on the same context, with the start, the entries, the
  processing and the end of each.  Starting requires an idle context.
\<close>

inductive redo_ops ::
  "pool_bounds \<Rightarrow> u64 \<Rightarrow> ulog_fn \<Rightarrow> operation_context \<Rightarrow> pmem \<Rightarrow> op_entry list list \<Rightarrow> operation_context \<Rightarrow> pmem \<Rightarrow> bool"
  for pop len rm where
  ops_none: "redo_ops pop len rm ctx p [] ctx p"
| ops_next: "redo_ops pop len rm ctx p (es # ess) ctx4 p4"
    if "oc_state ctx = OPERATION_IDLE" "collects pop (operation_start ctx) es ctx1"
      "operation_process len ctx1 dram p = Some (Inr ctx2, dram1, p1)"
      "operation_finish rm ctx2 flags p1 = Some (Inr ctx3, p2)" "redo_ops pop len rm ctx3 p2 ess ctx4 p4"

lemma op_ok_same:
  assumes "oc_base ctx' = oc_base ctx" "oc_ulog ctx' = oc_ulog ctx" "oc_base_nbytes ctx' = oc_base_nbytes ctx"
  shows "op_ok pop ctx' es = op_ok pop ctx es" "redo_log_area ctx' = redo_log_area ctx"
proof -
  show a: "redo_log_area ctx' = redo_log_area ctx" using assms by (simp add: redo_log_area_def)
  have "entry_ok pop ctx' w = entry_ok pop ctx w" for w by (cases w) (simp add: assms a)
  then show "op_ok pop ctx' es = op_ok pop ctx es" by (simp add: op_ok_def assms list_all_iff)
qed

lemma redo_ops_run:
  assumes "redo_ops pop len rm ctx p ess ctx' p'" "redo_context ctx" "list_all (op_ok pop ctx) ess"
    and "unat (ol_capacity (oc_pshadow ctx)) \<le> 2112" "live p" "pm_ps p = []"
  shows "redo_context ctx' \<and> live p' \<and> pm_ps p' = [] \<and>
    (\<forall>a. a \<notin> redo_log_area ctx \<longrightarrow>
       md_img (pm_s p') a = redo_run (map (entry_redo (oc_base ctx)) (concat ess)) (md_img (pm_s p)) a)"
  using assms
proof (induction rule: redo_ops.induct)
  case (ops_none ctx p)
  then show ?case by simp
next
  case (ops_next ctx es ctx1 dram p ctx2 dram1 p1 flags ctx3 p2 ess ctx4 p4)
  let ?A = "redo_log_area ctx"
  have ok: "op_ok pop ctx es" and cap: "unat (ol_capacity (oc_pshadow ctx)) + 65600 < 2 ^ 64"
    using ops_next.prems by simp_all
  show ?case
  proof (cases rule: redo_operation_cases [OF ops_next.prems(1) ok cap ops_next.hyps(2) ops_next.prems(4,5), of len dram,
        case_names complete failed])
    case (failed e p')
    then show ?thesis using ops_next.hyps(3) by simp
  next
    case (complete c q)
    have eq: "c = ctx2" "q = p1" "ctx3 = ctx2\<lparr>oc_state := OPERATION_IDLE\<rparr>" "p2 = p1"
      using complete(1,5) ops_next.hyps(3,4) by auto
    have sm: "oc_base ctx3 = oc_base ctx" "oc_ulog ctx3 = oc_ulog ctx" "oc_base_nbytes ctx3 = oc_base_nbytes ctx"
      using complete(7-9) by (simp_all add: eq)
    have "list_all (op_ok pop ctx3) ess" using ops_next.prems(2) by (simp add: list_all_iff op_ok_same(1) [OF sm])
    then have ih: "redo_context ctx4 \<and> live p4 \<and> pm_ps p4 = [] \<and>
        (\<forall>a. a \<notin> ?A \<longrightarrow> md_img (pm_s p4) a = redo_run (map (entry_redo (oc_base ctx)) (concat ess)) (md_img (pm_s p2)) a)"
      using ops_next.IH complete ops_next.prems(3) sm(1) by (auto simp: eq op_ok_same(2) [OF sm, unfolded eq])
    have "md_img (pm_s p4) a = redo_run (map (entry_redo (oc_base ctx)) (concat (es # ess))) (md_img (pm_s p)) a"
      if a: "a \<notin> ?A" for a
    proof -
      have "redo_run (map (entry_redo (oc_base ctx)) (concat ess)) (md_img (pm_s p2)) a =
          redo_run (map (entry_redo (oc_base ctx)) (concat ess)) (redo_run (map (entry_redo (oc_base ctx)) es) (md_img (pm_s p))) a"
        using complete(4) a by (intro redo_run_local) (simp add: eq)
      then show ?thesis using ih a by (simp add: redo_run_append)
    qed
    with ih show ?thesis by blast
  qed
qed

lemma redo_ops_total:
  assumes "redo_context ctx" "list_all (op_ok pop ctx) ess" "unat (ol_capacity (oc_pshadow ctx)) \<le> 2112"
    and "live p" "pm_ps p = []" "md_power (pm_s p) = None"
  shows "\<exists>ctx' p'. redo_ops pop len rm ctx p ess ctx' p'"
  using assms
proof (induction ess arbitrary: ctx p)
  case Nil
  then show ?case by (auto intro: ops_none)
next
  case (Cons es ess)
  have ok: "op_ok pop ctx es" and cap: "unat (ol_capacity (oc_pshadow ctx)) + 65600 < 2 ^ 64"
    using Cons.prems by simp_all
  obtain ctx1 where col: "collects pop (operation_start ctx) es ctx1"
    using started_collects_total [OF Cons.prems(1) ok cap] by blast
  show ?case
  proof (cases rule: redo_operation_cases [OF Cons.prems(1) ok cap col Cons.prems(4,5), of len "\<lambda>_. 0", case_names complete failed])
    case (failed e p')
    then show ?thesis using Cons.prems(6) by simp
  next
    case (complete c q)
    let ?c = "c\<lparr>oc_state := OPERATION_IDLE\<rparr>"
    have sm: "oc_base ?c = oc_base ctx" "oc_ulog ?c = oc_ulog ctx" "oc_base_nbytes ?c = oc_base_nbytes ctx"
      using complete(7-9) by simp_all
    have "list_all (op_ok pop ?c) ess" using Cons.prems(2) by (simp add: list_all_iff op_ok_same(1) [OF sm])
    then obtain ctx' p' where "redo_ops pop len rm ?c q ess ctx' p'"
      using Cons.IH [of ?c q] complete Cons.prems(3,6) by auto
    moreover have "oc_state ctx = OPERATION_IDLE" using Cons.prems(1) by (simp add: redo_context_def)
    ultimately show ?thesis using complete(1,5) col by (blast intro: ops_next)
  qed
qed

text \<open>The context of a log without extensions.\<close>

definition fresh_context ::
  "u64 \<Rightarrow> u64 \<Rightarrow> (u64 \<Rightarrow> u64 \<Rightarrow> pmem \<Rightarrow> (err + unit) \<times> pmem) option \<Rightarrow> ulog_fn \<Rightarrow> u64 \<Rightarrow> operation_context" where
  "fresh_context u base_nbytes extend_fn free_fn base =
     \<lparr> oc_type = LOG_TYPE_REDO, oc_extend = extend_fn, oc_ulog_free = free_fn, oc_base = base,
       oc_curr_offset = 0, oc_curr_capacity = 0, oc_curr_gen_num = 0, oc_curr = None,
       oc_total_logged = 0, oc_ulog = u, oc_base_nbytes = base_nbytes, oc_capacity = base_nbytes,
       oc_auto_reserve = False, oc_any_user_buffer = False, oc_next = [],
       oc_state = OPERATION_IDLE, oc_pshadow = operation_log_persistent_init base_nbytes,
       oc_transient = operation_log_transient_init, oc_merge_entries = VECQ_INIT \<rparr>"

lemma operation_new_fresh:
  assumes "ulog_next_off m u = 0"
  shows "operation_new True u base_nbytes extend_fn free_fn base LOG_TYPE_REDO m =
    Some (Inr (fresh_context u base_nbytes extend_fn free_fn base))"
proof -
  have n: "ulog_next m u = None" using assms by (simp add: ulog_next_def ulog_by_offset_def)
  have "ulog_capacity m u base_nbytes = Some base_nbytes" "ulog_rebuild_next_vec m u [] = Some []"
    by (simp_all add: ulog_capacity.simps [of _ u] ulog_rebuild_next_vec.simps [of _ u] n assms)
  then show ?thesis by (simp add: operation_new_def fresh_context_def)
qed

lemma fresh_redo_context:
  assumes "unat base_nbytes mod 64 = 0" "unat u + 64 + unat base_nbytes < 2 ^ 64"
  shows "redo_context (fresh_context u base_nbytes extend_fn free_fn base)"
  using assms by (simp add: redo_context_def redo_ctx_wf_def fresh_context_def operation_log_persistent_init_def
      operation_log_init_def ULOG_BASE_SIZE_def VECQ_INIT_def ulog_cap_def ld64_def mem_simps)

text \<open>
  C9: A redo context can be used for any number of operations.  Let \<open>operation_new\<close> make a
  context for a log without extensions, and take any list of operations with at most 64
  entries each, for aligned words of the pool outside the log.  If power stays on, they can
  all be started, filled, processed and finished one after the other on this one context;
  and every such run ends with an idle, well-formed context and with the contents, outside
  the log, that all the entries of all the operations produce one after the other.  Nothing
  of an earlier operation, neither its entries nor its merge candidates, leaks into a later
  one.
\<close>

theorem redo_context_reusable:
  assumes log: "ulog_next_off (md_img (pm_s p)) u = 0" "unat base_nbytes mod 64 = 0" "unat u + 64 + unat base_nbytes < 2 ^ 64"
    and p: "md_power (pm_s p) = None" "pm_ps p = []"
  shows "\<exists>ctx. operation_new True u base_nbytes extend_fn free_fn base LOG_TYPE_REDO (vis p) = Some (Inr ctx) \<and>
    (\<forall>ess. list_all (op_ok pop ctx) ess \<longrightarrow>
       (\<exists>ctx' p'. redo_ops pop len rm ctx p ess ctx' p') \<and>
       (\<forall>ctx' p'. redo_ops pop len rm ctx p ess ctx' p' \<longrightarrow>
          redo_context ctx' \<and> pm_ps p' = [] \<and>
          (\<forall>a. a \<notin> redo_log_area ctx \<longrightarrow>
             md_img (pm_s p') a = redo_run (map (entry_redo base) (concat ess)) (md_img (pm_s p)) a)))"
proof -
  let ?c = "fresh_context u base_nbytes extend_fn free_fn base"
  have l: "live p" using p(1) by (simp add: live_def powered_def)
  have cap: "unat (ol_capacity (oc_pshadow ?c)) \<le> 2112" and b: "oc_base ?c = base"
    by (simp_all add: fresh_context_def operation_log_persistent_init_def operation_log_init_def ULOG_BASE_SIZE_def)
  note rc = fresh_redo_context [OF log(2,3), of extend_fn free_fn base]
  have new: "operation_new True u base_nbytes extend_fn free_fn base LOG_TYPE_REDO (vis p) = Some (Inr ?c)"
    by (rule operation_new_fresh) (simp add: vis_def p(2) log(1))
  have "(\<exists>ctx' p'. redo_ops pop len rm ?c p ess ctx' p') \<and>
      (\<forall>ctx' p'. redo_ops pop len rm ?c p ess ctx' p' \<longrightarrow>
         redo_context ctx' \<and> pm_ps p' = [] \<and>
         (\<forall>a. a \<notin> redo_log_area ?c \<longrightarrow>
            md_img (pm_s p') a = redo_run (map (entry_redo base) (concat ess)) (md_img (pm_s p)) a))"
    if ok: "list_all (op_ok pop ?c) ess" for ess
    using redo_ops_total [OF rc ok cap l p(2,1)] redo_ops_run [OF _ rc ok cap l p(2), unfolded b] by blast
  with new show ?thesis by blast
qed

text \<open>The three entries of the example in one operation, and another value for the second word in the next.\<close>

theorem redo_context_reusable_witness:
  "\<exists>ctx ctx' p'. operation_new True 4096 640 None (\<lambda>_ p. (Inr (), p)) 0 LOG_TYPE_REDO (vis (ex_pmem None (\<lambda>_ _. False) (\<lambda>_. 0))) = Some (Inr ctx) \<and>
    redo_ops ex_pool 0x20000 (\<lambda>_ q. (Inr (), q)) ctx (ex_pmem None (\<lambda>_ _. False) (\<lambda>_. 0))
      [ex_adds, [(0x10008, 9, ULOG_OPERATION_SET)]] ctx' p' \<and>
    redo_context ctx' \<and> rd (md_img (pm_s p')) 0x10000 16 = le64 10 @ le64 9"
proof -
  let ?p = "ex_pmem None (\<lambda>_ _. False) (\<lambda>_. 0)" and ?f = "\<lambda>_ p. (Inr (), p) :: (err + unit) \<times> pmem"
  let ?ess = "[ex_adds, [(0x10008, 9, ULOG_OPERATION_SET)]]"
  have p: "md_power (pm_s ?p) = None" "pm_ps ?p = []" "md_img (pm_s ?p) = (\<lambda>_. 0)" by (simp_all add: ex_pmem_def)
  have "rd (\<lambda>_. 0) 4104 8 = replicate 8 0" by (rule nth_equalityI) simp_all
  then have z: "ulog_next_off (md_img (pm_s ?p)) 4096 = 0" by (simp add: p(3) ulog_next_off_def ld64_def unle64_zeros)
  have c: "fresh_context 4096 640 None ?f 0 = ex_ctx" by (simp add: fresh_context_def ex_ctx_def)
  have new: "operation_new True 4096 640 None ?f 0 LOG_TYPE_REDO (vis ?p) = Some (Inr ex_ctx)"
    using operation_new_fresh [of "vis ?p" 4096 640 None ?f 0] z p(2) by (simp add: vis_def c)
  have ok: "list_all (op_ok ex_pool ex_ctx) ?ess"
    using ex_op_ok ex_adds_ok by (simp add: op_ok_def ex_adds_def ex_ctx_def Let_def is_val_type_def ulog_op_defs)
  have g: "unat (640 :: u64) mod 64 = 0" "unat (4096 :: u64) + 64 + unat (640 :: u64) < 2 ^ 64" by simp_all
  obtain c where "operation_new True 4096 640 None ?f 0 LOG_TYPE_REDO (vis ?p) = Some (Inr c)" and
    R: "\<forall>ess. list_all (op_ok ex_pool c) ess \<longrightarrow>
       (\<exists>ctx' p'. redo_ops ex_pool 0x20000 ?f c ?p ess ctx' p') \<and>
       (\<forall>ctx' p'. redo_ops ex_pool 0x20000 ?f c ?p ess ctx' p' \<longrightarrow>
          redo_context ctx' \<and> pm_ps p' = [] \<and>
          (\<forall>a. a \<notin> redo_log_area c \<longrightarrow>
             md_img (pm_s p') a = redo_run (map (entry_redo 0) (concat ess)) (md_img (pm_s ?p)) a))"
    using redo_context_reusable [OF z g p(1,2), of None ?f 0 ex_pool "0x20000" ?f] by blast
  then have "c = ex_ctx" using new by simp
  with R ok obtain ctx' p' where r: "redo_ops ex_pool 0x20000 ?f ex_ctx ?p ?ess ctx' p'" "redo_context ctx'"
      "\<forall>a. a \<notin> redo_log_area ex_ctx \<longrightarrow> md_img (pm_s p') a = redo_run (map (entry_redo 0) (concat ?ess)) (\<lambda>_. 0) a"
    unfolding p(3) by blast
  let ?m = "redo_run (map (entry_redo 0) ex_adds) (\<lambda>_. 0)"
  have a: "rd ?m 0x10000 16 = le64 10 @ le64 7" using ex_adds_run by (simp add: ex_ctx_def)
  have sp: "rd m 0x10000 16 = rd m 0x10000 8 @ rd m 0x10008 8" for m using rd_append [of m "0x10000" 8 8] by simp
  have "rd (md_img (pm_s p')) 0x10000 16 = rd (redo_run (map (entry_redo 0) (concat ?ess)) (\<lambda>_. 0)) 0x10000 16"
    using r(3) by (intro rd_eqI) (simp add: redo_log_area_def ex_ctx_def)
  also have "redo_run (map (entry_redo 0) (concat ?ess)) (\<lambda>_. 0) = wr ?m 0x10008 (le64 9)"
    by (simp add: redo_run_append redo_apply_def ulog_op_defs)
  also have "rd (wr ?m 0x10008 (le64 9)) 0x10000 16 = le64 10 @ le64 9"
    using a unfolding sp by (simp add: mem_simps disjoint_ranges_def)
  finally show ?thesis using new r(1,2) by blast
qed

section \<open>The queue of merge candidates\<close>

text \<open>Operations on the queue and on the list of its elements; growing never fails.\<close>

datatype queue_op = Enqueue u64 | Dequeue

fun vecq_ops :: "queue_op list \<Rightarrow> vecq \<Rightarrow> u64 list \<times> vecq" where
  "vecq_ops [] q = ([], q)"
| "vecq_ops (Enqueue x # ops) q =
     (case VECQ_ENQUEUE True q x of None \<Rightarrow> ([], q) | Some q1 \<Rightarrow> vecq_ops ops q1)"
| "vecq_ops (Dequeue # ops) q =
     (if VECQ_SIZE q = 0 then vecq_ops ops q
      else (let (x, q1) = VECQ_DEQUEUE q; (xs, q2) = vecq_ops ops q1 in (x # xs, q2)))"

fun list_ops :: "queue_op list \<Rightarrow> u64 list \<Rightarrow> u64 list \<times> u64 list" where
  "list_ops [] l = ([], l)"
| "list_ops (Enqueue x # ops) l = list_ops ops (l @ [x])"
| "list_ops (Dequeue # ops) [] = list_ops ops []"
| "list_ops (Dequeue # ops) (x # l) = (let (xs, l1) = list_ops ops l in (x # xs, l1))"

lemma vecq_ops_list:
  assumes "vecq_wf q"
  shows "fst (vecq_ops ops q) = fst (list_ops ops (vecq_list q)) \<and>
    vecq_list (snd (vecq_ops ops q)) = snd (list_ops ops (vecq_list q)) \<and> vecq_wf (snd (vecq_ops ops q))"
  using assms
proof (induction ops q rule: vecq_ops.induct)
  case (1 q)
  then show ?case by simp
next
  case (2 x ops q)
  obtain q1 where q1: "VECQ_ENQUEUE True q x = Some q1" by (cases "vq_capacity q = VECQ_SIZE q") (auto simp: VECQ_ENQUEUE_def)
  show ?case using 2 vecq_enqueue_list [OF 2(2) q1] by (simp add: q1)
next
  case (3 ops q)
  show ?case
  proof (cases "VECQ_SIZE q = 0")
    case True
    then have "vecq_list q = []" by (simp add: vecq_list_def VECQ_SIZE_def)
    then show ?thesis using 3(1) [OF True] 3(3) True by simp
  next
    case False
    obtain x q1 where q1: "VECQ_DEQUEUE q = (x, q1)" by (cases "VECQ_DEQUEUE q")
    show ?thesis using vecq_dequeue_list [OF 3(3) False] 3(2) [OF False q1 [symmetric] refl] False
      by (auto simp: q1 split: prod.split)
  qed
qed

text \<open>
  C18: The growable ring buffer is a first-in first-out queue: for every sequence of
  insertions and removals, from the initial buffer on, the removed elements and the
  elements left are those of a list queue, and the buffer stays well-formed.
\<close>

theorem vecq_refines_queue:
  "fst (vecq_ops ops VECQ_INIT) = fst (list_ops ops []) \<and>
   vecq_list (snd (vecq_ops ops VECQ_INIT)) = snd (list_ops ops []) \<and>
   vecq_wf (snd (vecq_ops ops VECQ_INIT))"
  using vecq_ops_list [of VECQ_INIT ops] by (simp_all add: VECQ_INIT_def vecq_wf_def vecq_list_def)

text \<open>A full queue from which the oldest entry makes room for a new one: the new one is visited last.\<close>

lemma full_queue_rotates:
  assumes q: "vecq_wf q" "vq_front q = 0" "vq_capacity q = 64" "VECQ_SIZE q = 64" "vecq_list q = map entry_ptr [0..<64]"
  defines "q1 \<equiv> VECQ_INSERT (snd (VECQ_DEQUEUE q)) (entry_ptr 64)"
  shows "VECQ_FOREACH_REVERSE q = entry_ptr 63 # rev (map entry_ptr [0..<63])"
    "VECQ_ENQUEUE grow_ok (snd (VECQ_DEQUEUE q)) (entry_ptr 64) = Some q1"
    "VECQ_FOREACH_REVERSE q1 = entry_ptr 63 # rev (map entry_ptr [1..<63]) @ [entry_ptr 64]"
proof -
  show "VECQ_FOREACH_REVERSE q = entry_ptr 63 # rev (map entry_ptr [0..<63])"
    using foreach_reverse_list [OF q(2)] q(5) upt_Suc_append [of 0 63] by simp
  have dq: "snd (VECQ_DEQUEUE q) = q\<lparr>vq_front := 1\<rparr>" by (simp add: VECQ_DEQUEUE_def q(2))
  show "VECQ_ENQUEUE grow_ok (snd (VECQ_DEQUEUE q)) (entry_ptr 64) = Some q1"
    using q by (simp add: VECQ_ENQUEUE_def q1_def dq VECQ_SIZE_def)
  have nz: "VECQ_SIZE q \<noteq> 0" using q(4) by simp
  have w1: "vecq_wf (snd (VECQ_DEQUEUE q))" by (rule vecq_dequeue_list(2) [OF q(1) nz])
  have l1: "vecq_list (snd (VECQ_DEQUEUE q)) = map entry_ptr [1..<64]"
    using vecq_dequeue_list(1) [OF q(1) nz] q(5) upt_conv_Cons [of 0 64] by simp
  have room: "VECQ_SIZE (snd (VECQ_DEQUEUE q)) < vq_capacity (snd (VECQ_DEQUEUE q))"
    using q(2-4) by (simp add: dq VECQ_SIZE_def)
  have L: "vecq_list q1 = map entry_ptr [1..<65]" "vecq_wf q1"
    using vecq_insert_list [OF w1 room, of "entry_ptr 64"] l1 upt_Suc_append [of 1 64] by (simp_all add: q1_def)
  have z: "VECQ_SIZE q1 = vq_capacity q1" "vq_capacity q1 = 64" "VECQ_FRONT_POS q1 = 1"
    using q(2-4) by (simp_all add: q1_def dq VECQ_INSERT_def VECQ_SIZE_def VECQ_FRONT_POS_def vecq_pos_def)
  have u: "[1..<65] = [1..<63] @ [63, 64]" using upt_Suc_append [of 1 63] upt_Suc_append [of 1 64] by simp
  have "rotate 63 (map entry_ptr [1..<65]) = entry_ptr 64 # map entry_ptr [1..<63] @ [entry_ptr 63]"
    unfolding u by (simp add: rotate_drop_take)
  then show "VECQ_FOREACH_REVERSE q1 = entry_ptr 63 # rev (map entry_ptr [1..<63]) @ [entry_ptr 64]"
    using foreach_reverse_rotated [OF L(2) z(1)] z L(1) by simp
qed

text \<open>
  C19: A consequence for redo contexts: when 64 entries are queued, the newest of them a
  SET of a word, adding an AND for that word and then another SET changes the older SET
  entry, which precedes the AND.  The word ends up as the conjunction of the two values
  although the SET was added last.
\<close>

theorem operation_merge_loses_order:
  assumes inv: "shadow_inv ctx (us @ [(d, v, ULOG_OPERATION_SET)])" and n: "length us = 63"
    and q: "VECQ_SIZE (oc_merge_entries ctx) = 64" and cap: "1200 \<le> unat (ol_capacity (oc_pshadow ctx))"
    and d: "d = ptr - oc_base ctx"
  shows "\<exists>ctx1 ctx2.
    operation_add_typed_entry realloc grow_ok ctx ptr w ULOG_OPERATION_AND LOG_PERSISTENT = (Inr (), ctx1) \<and>
    operation_add_typed_entry realloc grow_ok ctx1 ptr x ULOG_OPERATION_SET LOG_PERSISTENT = (Inr (), ctx2) \<and>
    shadow_log (ol_ulog (oc_pshadow ctx2)) (us @ [(d, x, ULOG_OPERATION_SET), (d, w, ULOG_OPERATION_AND)]) \<and>
    ld64 (redo_run (map val_redo (us @ [(d, x, ULOG_OPERATION_SET), (d, w, ULOG_OPERATION_AND)])) m) d = x AND w \<and>
    ld64 (redo_run (map val_redo (us @ [(d, v, ULOG_OPERATION_SET), (d, w, ULOG_OPERATION_AND), (d, x, ULOG_OPERATION_SET)])) m) d = x"
proof -
  let ?vs = "us @ [(d, v, ULOG_OPERATION_SET)]" and ?l = "oc_pshadow ctx" and ?q = "oc_merge_entries ctx"
  have s: "shadow_log (ol_ulog ?l) ?vs" "ol_offset ?l = 1024"
      "queue_inv ?q 64" "unat (ol_capacity ?l) + 64 < 2 ^ 64"
    using inv n by (simp_all add: shadow_inv_def)
  obtain j where j: "j \<le> 64" "vecq_list ?q = map entry_ptr [j..<64]" and wf: "vecq_wf ?q" "vq_front ?q = 0"
    and c: "vq_capacity ?q = 0 \<or> vq_capacity ?q = 64"
    using s(3) by (auto simp: queue_inv_def)
  have "length (vecq_list ?q) = 64" using q by (simp add: vecq_list_def VECQ_SIZE_def)
  then have j0: "j = 0" using j by simp
  have c64: "vq_capacity ?q = 64" using c wf(1) q by (auto simp: vecq_wf_def VECQ_SIZE_def)
  have e: "ulog_entry_offset (ol_ulog ?l) (entry_ptr 63) = d" "ulog_entry_type (ol_ulog ?l) (entry_ptr 63) = ULOG_OPERATION_SET"
    using shadow_entry [OF s(1)] n by simp_all
  have ok: "val_ok (d, v, ULOG_OPERATION_SET)" using s(1) by (simp add: shadow_log_def)
  have ty: "is_val_type ULOG_OPERATION_AND" "ULOG_OPERATION_SET \<noteq> ULOG_OPERATION_AND" "ULOG_OPERATION_AND \<noteq> ULOG_OPERATION_OR"
      "ULOG_OPERATION_SET \<noteq> ULOG_OPERATION_OR"
    by (simp_all add: is_val_type_def ulog_op_defs)
  have full: "ol_offset ?l + 64 \<noteq> ol_capacity ?l" "1024 + 16 + 64 \<noteq> ol_capacity ?l" using cap s(2) by auto
  define q1 where "q1 = VECQ_INSERT (snd (VECQ_DEQUEUE ?q)) (entry_ptr 64)"
  define m1 where "m1 = dram_val_create (ol_ulog ?l) 1024 (oc_base ctx) ptr w ULOG_OPERATION_AND"
  define c1 where "c1 = ctx\<lparr>oc_pshadow := ?l\<lparr>ol_ulog := m1, ol_offset := 1040\<rparr>, oc_merge_entries := q1\<rparr>"
  have sl1: "shadow_log m1 (us @ [(d, v, ULOG_OPERATION_SET), (d, w, ULOG_OPERATION_AND)])"
    using shadow_log_create [OF s(1), of ptr "oc_base ctx" w ULOG_OPERATION_AND] ok n ty d by (simp add: m1_def)
  have sz: "ulog_entry_size m1 (entry_ptr 64) = 16"
    using ulog_entry_size_created [of m1 ?vs d w ULOG_OPERATION_AND] sl1 n by simp
  note fq = full_queue_rotates [OF wf c64 q j(2) [unfolded j0], folded q1_def]
  have p64: "ulog_data 0 + 1024 = entry_ptr 64" by (simp add: entry_ptr_def)
  have a1: "operation_add_typed_entry realloc grow_ok ctx ptr w ULOG_OPERATION_AND LOG_PERSISTENT = (Inr (), c1)"
    using full(1) q e sz fq(2) ty(2) d
    by (simp add: operation_add_typed_entry_def grow_log_def op_log_def set_op_log_def operation_try_merge_entry_def fq(1)
        operation_merge_entry_add_def OP_MERGE_SEARCH_def s(2) p64 m1_def c1_def Let_def)
  define c2 where "c2 = c1\<lparr>oc_pshadow := (oc_pshadow c1)\<lparr>ol_ulog := operation_merge m1 (entry_ptr 63) x ULOG_OPERATION_SET\<rparr>\<rparr>"
  have e1: "ulog_entry_offset m1 (entry_ptr 63) = d" "ulog_entry_type m1 (entry_ptr 63) = ULOG_OPERATION_SET"
    using shadow_entry [OF sl1] n by simp_all
  have a2: "operation_add_typed_entry realloc grow_ok c1 ptr x ULOG_OPERATION_SET LOG_PERSISTENT = (Inr (), c2)"
    using full(2) e1 d
    by (simp add: operation_add_typed_entry_def grow_log_def op_log_def operation_try_merge_entry_def fq(3) c1_def c2_def Let_def)
  have sl2: "shadow_log (ol_ulog (oc_pshadow c2)) (us @ [(d, x, ULOG_OPERATION_SET), (d, w, ULOG_OPERATION_AND)])"
    using shadow_log_merge [OF sl1, of x] n ty by (simp add: c2_def)
  have run: "ld64 (redo_run (map val_redo (us @ [(d, x, ULOG_OPERATION_SET), (d, w, ULOG_OPERATION_AND)])) m) d = x AND w"
      "ld64 (redo_run (map val_redo (us @ [(d, v, ULOG_OPERATION_SET), (d, w, ULOG_OPERATION_AND), (d, x, ULOG_OPERATION_SET)])) m) d = x"
    using ty by (simp_all add: redo_run_append redo_apply_def ld64_def mem_simps)
  show ?thesis using a1 a2 sl2 run by blast
qed


text \<open>A context with 64 entries for 64 words, all of them queued.\<close>

definition ex_us :: "val_entry list" where
  "ex_us = map (\<lambda>i. (0x10000 + 8 * of_nat i, 1, ULOG_OPERATION_SET)) [0..<63]"

definition ex_full :: operation_context where
  "ex_full = ex_ctx\<lparr>
     oc_pshadow := \<lparr> ol_capacity = 2048, ol_offset = 1024,
       ol_ulog = wr (wr (\<lambda>_. 0) 16 (le64 2048)) 64 (val_bytes (ex_us @ [(0x101f8, 5, ULOG_OPERATION_SET)])) \<rparr>,
     oc_merge_entries := \<lparr> vq_buffer = entry_ptr, vq_capacity = 64, vq_front = 0, vq_back = 64 \<rparr>\<rparr>"

lemma ex_us_ok: "length ex_us = 63" "list_all val_ok ex_us" "\<forall>w \<in> set ex_us. unat (val_dest w) mod 8 = 0"
  by (simp_all add: ex_us_def upt_rec is_val_type_def ulog_op_defs)

lemma ex_full_inv: "shadow_inv ex_full (ex_us @ [(0x101f8, 5, ULOG_OPERATION_SET)])"
proof -
  let ?vs = "ex_us @ [(0x101f8, 5, ULOG_OPERATION_SET)]" and ?m = "wr (\<lambda>_. 0) 16 (le64 2048)"
  have n: "length (val_bytes ?vs) = 1024" using ex_us_ok(1) by simp
  have "rd (wr ?m 64 (val_bytes ?vs)) 1088 8 = replicate 8 0"
    by (rule nth_equalityI) (simp_all add: wr_def n del: length_val_bytes)
  then have sl: "shadow_log (wr ?m 64 (val_bytes ?vs)) ?vs"
    using ex_us_ok by (simp add: shadow_log_def mem_simps is_val_type_def ulog_op_defs)
  have "queue_inv \<lparr> vq_buffer = entry_ptr, vq_capacity = 64, vq_front = 0, vq_back = 64 \<rparr> 64"
    by (auto simp: queue_inv_def vecq_wf_def vecq_list_def vecq_pos_def intro!: exI [of _ 0])
  then show ?thesis using sl ex_us_ok(1,3)
    by (simp add: shadow_inv_def ex_full_def ulog_cap_def [of "wr ?m _ _"] ld64_def mem_simps disjoint_ranges_def)
qed

theorem operation_merge_loses_order_witness:
  "\<exists>ctx1 ctx2 vs.
    operation_add_typed_entry None True ex_full 0x101f8 1 ULOG_OPERATION_AND LOG_PERSISTENT = (Inr (), ctx1) \<and>
    operation_add_typed_entry None True ctx1 0x101f8 6 ULOG_OPERATION_SET LOG_PERSISTENT = (Inr (), ctx2) \<and>
    shadow_log (ol_ulog (oc_pshadow ctx2)) vs \<and> ld64 (redo_run (map val_redo vs) (\<lambda>_. 0)) 0x101f8 = 0"
proof -
  have h: "VECQ_SIZE (oc_merge_entries ex_full) = 64" "1200 \<le> unat (ol_capacity (oc_pshadow ex_full))"
      "0x101f8 = 0x101f8 - oc_base ex_full"
    by (simp_all add: ex_full_def ex_ctx_def VECQ_SIZE_def)
  have "(6 :: u64) AND 1 = 0" by simp
  with operation_merge_loses_order [OF ex_full_inv ex_us_ok(1) h, of None True 1 6 "\<lambda>_. 0"] show ?thesis by metis
qed

end
