(* ===== verification/Ravl_Props.thy ===== *)
theory Ravl_Props
  imports Ravl
begin

text \<open>
  What the tree operations do to the elements in order, and the rank rule: every rank
  difference is positive, and at most 2 as long as nothing has been removed.
\<close>

section \<open>The elements in order\<close>

fun inorder :: "'a ravl_node \<Rightarrow> 'a list" where
  "inorder RNil = []"
| "inorder (RNode l k x r) = inorder l @ x # inorder r"

lemma not_left: "t \<noteq> RAVL_LEFT \<longleftrightarrow> t = RAVL_RIGHT"
  by (cases t) simp_all

text \<open>The elements before and after the subtree at the end of a path.\<close>

fun before :: "'a parent list \<Rightarrow> 'a list" where
  "before [] = []"
| "before (Parent t k x s # ps) = before ps @ (if t = RAVL_LEFT then [] else inorder s @ [x])"

fun after :: "'a parent list \<Rightarrow> 'a list" where
  "after [] = []"
| "after (Parent t k x s # ps) = (if t = RAVL_LEFT then x # inorder s else []) @ after ps"

lemma inorder_root_of: "inorder (root_of n ps) = before ps @ inorder n @ after ps"
  by (induction n ps rule: root_of.induct) (simp_all add: with_child_def)

lemma inorder_ranks [simp]:
  "inorder (ravl_node_promote n) = inorder n" "inorder (ravl_node_demote n) = inorder n"
  "(\<And>m. inorder (f m) = inorder m) \<Longrightarrow> inorder (in_slot f n t) = inorder n"
  by (cases n; simp)+

lemma inorder_promote_parents:
  "(case promote_parents n ps of (n1, ps1) \<Rightarrow> before ps1 @ inorder n1 @ after ps1) = before ps @ inorder n @ after ps"
  by (induction n ps rule: promote_parents.induct) (simp_all add: with_child_def)

lemma inorder_rotate:
  "(case ravl_rotate p of (n1, ps1) \<Rightarrow> before ps1 @ inorder n1 @ after ps1) = before (snd p) @ inorder (fst p) @ after (snd p)"
  by (induction p rule: ravl_rotate.induct) simp_all

lemma inorder_slot_ptr:
  "(case slot_ptr p t of (n1, ps1) \<Rightarrow> before ps1 @ inorder n1 @ after ps1) = before (snd p) @ inorder (fst p) @ after (snd p)"
  by (induction p t rule: slot_ptr.induct) simp_all

lemma inorder_balance:
  "(case ravl_balance p of (n1, ps1) \<Rightarrow> before ps1 @ inorder n1 @ after ps1) = before (snd p) @ inorder (fst p) @ after (snd p)"
proof -
  obtain n ps where np: "promote_parents (fst p) (snd p) = (n, ps)" by (cases "promote_parents (fst p) (snd p)")
  define t where "t = ravl_slot_opposite (the (ravl_node_slot_type (n, ps)))"
  obtain n1 ps1 where r1: "ravl_rotate (n, ps) = (n1, ps1)" by (cases "ravl_rotate (n, ps)")
  obtain z zs where z: "slot_ptr (n, ps) t = (z, zs)" by (cases "slot_ptr (n, ps) t")
  obtain z1 zs1 where z1: "ravl_rotate (z, zs) = (z1, zs1)" by (cases "ravl_rotate (z, zs)")
  obtain z2 zs2 where z2: "ravl_rotate (z1, zs1) = (z2, zs2)" by (cases "ravl_rotate (z1, zs1)")
  have "ravl_slot_opposite tn = t" if "ravl_node_slot_type (n, ps) = Some tn" for tn using that by (simp add: t_def)
  then show ?thesis
    using inorder_promote_parents [of "fst p" "snd p"] inorder_rotate [of "(n, ps)"] inorder_slot_ptr [of "(n, ps)" t]
      inorder_rotate [of "(z, zs)"] inorder_rotate [of "(z1, zs1)"]
    by (simp add: ravl_balance_def np r1 z z1 z2 Let_def split: option.split)
qed

section \<open>Neighbours and removal\<close>

definition points_to :: "'a ravl_node \<Rightarrow> 'a node_ptr \<Rightarrow> 'a \<Rightarrow> bool" where
  "points_to root p x \<longleftrightarrow> root_of (fst p) (snd p) = root \<and> ravl_data p = Some x"

lemma points_to_node: "points_to root p x \<longleftrightarrow> (\<exists>l k r ps. p = (RNode l k x r, ps) \<and> root_of (RNode l k x r) ps = root)"
  by (cases p; cases "fst p") (auto simp: points_to_def ravl_data_def)

lemma type_most_left:
  assumes "n \<noteq> RNil"
  obtains k y r ps' where "ravl_node_type_most n ps RAVL_LEFT = (RNode RNil k y r, ps')"
    "root_of (RNode RNil k y r) ps' = root_of n ps" "before ps' = before ps"
    "y # inorder r @ after ps' = inorder n @ after ps"
proof -
  have "\<exists>k y r ps'. ravl_node_type_most n ps RAVL_LEFT = (RNode RNil k y r, ps') \<and>
    root_of (RNode RNil k y r) ps' = root_of n ps \<and> before ps' = before ps \<and>
    y # inorder r @ after ps' = inorder n @ after ps"
    using assms by (induction n ps RAVL_LEFT rule: ravl_node_type_most.induct) (auto simp: with_child_def)
  then show ?thesis using that by blast
qed

lemma type_most_right:
  assumes "n \<noteq> RNil"
  obtains k y l ps' where "ravl_node_type_most n ps RAVL_RIGHT = (RNode l k y RNil, ps')"
    "root_of (RNode l k y RNil) ps' = root_of n ps" "after ps' = after ps"
    "before ps' @ inorder l @ [y] = before ps @ inorder n"
proof -
  have "\<exists>k y l ps'. ravl_node_type_most n ps RAVL_RIGHT = (RNode l k y RNil, ps') \<and>
    root_of (RNode l k y RNil) ps' = root_of n ps \<and> after ps' = after ps \<and>
    before ps' @ inorder l @ [y] = before ps @ inorder n"
    using assms by (induction n ps RAVL_RIGHT rule: ravl_node_type_most.induct) (auto simp: with_child_def)
  then show ?thesis using that by blast
qed

lemma climb_right:
  "climb n ps RAVL_RIGHT = None \<and> after ps = [] \<or>
   (\<exists>p. climb n ps RAVL_RIGHT = Some p \<and> after ps \<noteq> [] \<and> points_to (root_of n ps) p (hd (after ps)))"
  by (induction n ps RAVL_RIGHT rule: climb.induct)
    (auto simp: points_to_def with_child_def ravl_data_def not_left)

lemma climb_left:
  "climb n ps RAVL_LEFT = None \<and> before ps = [] \<or>
   (\<exists>p. climb n ps RAVL_LEFT = Some p \<and> before ps \<noteq> [] \<and> points_to (root_of n ps) p (last (before ps)))"
  by (induction n ps RAVL_LEFT rule: climb.induct)
    (auto simp: points_to_def with_child_def ravl_data_def)

text \<open>The neighbours of a node are the elements before and after it.\<close>

lemma successor_points:
  assumes "n = RNode l k x r"
  shows "ravl_node_successor (n, ps) = None \<and> inorder r @ after ps = [] \<or>
    (\<exists>p. ravl_node_successor (n, ps) = Some p \<and> inorder r @ after ps \<noteq> [] \<and>
       points_to (root_of n ps) p (hd (inorder r @ after ps)))"
proof (cases "r = RNil")
  case True
  then show ?thesis using climb_right [of n ps]
    by (simp add: assms ravl_node_successor_def ravl_node_cessor_def)
next
  case False
  let ?ps = "Parent RAVL_RIGHT k x l # ps"
  obtain k' y r' ps' where t: "ravl_node_type_most r ?ps RAVL_LEFT = (RNode RNil k' y r', ps')"
    "root_of (RNode RNil k' y r') ps' = root_of r ?ps" "y # inorder r' @ after ps' = inorder r @ after ?ps"
    using type_most_left [OF False] by metis
  have "hd (inorder r @ after ps) = y" "inorder r @ after ps \<noteq> []"
    using t(3) by (simp_all, metis list.sel(1), metis append_is_Nil_conv list.distinct(1))
  then show ?thesis using False t(1,2)
    by (simp add: assms ravl_node_successor_def ravl_node_cessor_def ravl_slot_opposite_def points_to_def ravl_data_def with_child_def)
qed

lemma predecessor_points:
  assumes "n = RNode l k x r"
  shows "ravl_node_predecessor (n, ps) = None \<and> before ps @ inorder l = [] \<or>
    (\<exists>p. ravl_node_predecessor (n, ps) = Some p \<and> before ps @ inorder l \<noteq> [] \<and>
       points_to (root_of n ps) p (last (before ps @ inorder l)))"
proof (cases "l = RNil")
  case True
  then show ?thesis using climb_left [of n ps]
    by (simp add: assms ravl_node_predecessor_def ravl_node_cessor_def)
next
  case False
  let ?ps = "Parent RAVL_LEFT k x r # ps"
  obtain k' y l' ps' where t: "ravl_node_type_most l ?ps RAVL_RIGHT = (RNode l' k' y RNil, ps')"
    "root_of (RNode l' k' y RNil) ps' = root_of l ?ps" "before ps' @ inorder l' @ [y] = before ?ps @ inorder l"
    using type_most_right [OF False] by metis
  have "before ps @ inorder l = (before ps' @ inorder l') @ [y]" using t(3) by simp
  then have "last (before ps @ inorder l) = y" "before ps @ inorder l \<noteq> []" by (metis last_snoc, metis snoc_eq_iff_butlast)
  then show ?thesis using False t(1,2)
    by (simp add: assms ravl_node_predecessor_def ravl_node_cessor_def ravl_slot_opposite_def points_to_def ravl_data_def with_child_def)
qed

text \<open>Removal takes the element of the node out of the list.\<close>

lemma inorder_remove_one:
  "\<not> two_children (RNode l k x r, ps) \<Longrightarrow>
   inorder (remove_at (RNode l k x r, ps)) = before ps @ inorder l @ inorder r @ after ps"
  by (subst remove_at.simps) (auto simp: two_children_def inorder_root_of)

lemma inorder_remove:
  "inorder (remove_at (RNode l k x r, ps)) = before ps @ inorder l @ inorder r @ after ps"
proof (cases "two_children (RNode l k x r, ps)")
  case True
  then have r: "r \<noteq> RNil" by (simp add: two_children_def)
  let ?P = "\<lambda>y. Parent RAVL_RIGHT k y l # ps"
  obtain k1 y r1 ps1 where t: "ravl_node_type_most r (?P x) RAVL_LEFT = (RNode RNil k1 y r1, ps1)"
      "y # inorder r1 @ after ps1 = inorder r @ after (?P x)"
    using type_most_left [OF r] by metis
  obtain k2 y2 r2 ps2 where t2: "ravl_node_type_most r (?P y) RAVL_LEFT = (RNode RNil k2 y2 r2, ps2)"
      "before ps2 = before (?P y)" "y2 # inorder r2 @ after ps2 = inorder r @ after (?P y)"
    using type_most_left [OF r] by metis
  have s: "ravl_node_successor (RNode l k x r, ps) = Some (RNode RNil k1 y r1, ps1)"
      "ravl_node_successor (RNode l k y r, ps) = Some (RNode RNil k2 y2 r2, ps2)"
    using r t(1) t2(1) by (simp_all add: ravl_node_successor_def ravl_node_cessor_def ravl_slot_opposite_def)
  have "\<not> two_children (RNode RNil k2 y2 r2, ps2)" by (simp add: two_children_def)
  then have "inorder (remove_at (RNode RNil k2 y2 r2, ps2)) = before ps2 @ inorder r2 @ after ps2"
    by (simp add: inorder_remove_one)
  moreover have "remove_at (RNode l k x r, ps) = remove_at (RNode RNil k2 y2 r2, ps2)"
    using True by (subst remove_at.simps) (simp add: s ravl_data_def)
  moreover have "y2 # inorder r2 @ after ps2 = y # inorder r1 @ after ps1" using t(2) t2(3) by simp
  ultimately show ?thesis using t2(2,3) by simp
qed (simp add: inorder_remove_one)

section \<open>The rank rule\<close>

text \<open>With \<open>tight\<close> no rank difference is greater than 2.\<close>

definition rank_gap :: "bool \<Rightarrow> int \<Rightarrow> int \<Rightarrow> bool" where
  "rank_gap tight k c \<longleftrightarrow> c < k \<and> (tight \<longrightarrow> k \<le> c + 2)"

fun rank_rule :: "bool \<Rightarrow> 'a ravl_node \<Rightarrow> bool" where
  "rank_rule tight RNil \<longleftrightarrow> True"
| "rank_rule tight (RNode l k x r) \<longleftrightarrow>
     rank_gap tight k (ravl_node_rank l) \<and> rank_gap tight k (ravl_node_rank r) \<and> rank_rule tight l \<and> rank_rule tight r"

text \<open>The rule for the nodes of a path; the last argument tells whether the child at its end obeys it.\<close>

fun path_rule :: "bool \<Rightarrow> 'a parent list \<Rightarrow> bool" where
  "path_rule tight [] \<longleftrightarrow> True"
| "path_rule tight (Parent t k x s # ps) \<longleftrightarrow>
     rank_gap tight k (ravl_node_rank s) \<and> rank_rule tight s \<and> (ps \<noteq> [] \<longrightarrow> rank_gap tight (parent_rank ps) k) \<and>
     path_rule tight ps"

lemma with_child_simps [simp]:
  "ravl_node_rank (with_child t k x n s) = k" "with_child t k x n s \<noteq> RNil"
  "rank_rule tight (with_child t k x n s) \<longleftrightarrow>
     rank_gap tight k (ravl_node_rank n) \<and> rank_gap tight k (ravl_node_rank s) \<and> rank_rule tight n \<and> rank_rule tight s"
  "ravl_node_is (with_child t k x n s) i j \<longleftrightarrow>
     k - ravl_node_rank n = i \<and> k - ravl_node_rank s = j \<or> k - ravl_node_rank n = j \<and> k - ravl_node_rank s = i"
  by (auto simp: with_child_def ravl_node_is_def ravl_node_is_i_j_def)

lemma rank_rule_root_of:
  "rank_rule tight (root_of n ps) \<longleftrightarrow>
     rank_rule tight n \<and> path_rule tight ps \<and> (ps \<noteq> [] \<longrightarrow> rank_gap tight (parent_rank ps) (ravl_node_rank n))"
proof (induction n ps rule: root_of.induct)
  case (2 n t k x s ps)
  have "parent_rank (Parent t k x s # ps) = k" by (simp add: parent_rank_def)
  with 2 show ?case by simp blast
qed simp

text \<open>
  The node that the balancing has reached: a new leaf or a node that has just been
  promoted; it may have the rank of its parent.
\<close>

definition fresh_node :: "bool \<Rightarrow> 'a ravl_node \<Rightarrow> bool" where
  "fresh_node tight n \<longleftrightarrow>
     rank_rule tight n \<and> n \<noteq> RNil \<and>
     (ravl_node_rank n = 0 \<and> ravl_slot n RAVL_LEFT = RNil \<and> ravl_slot n RAVL_RIGHT = RNil \<or> ravl_node_is n 1 2)"

lemma promote_parents_rule:
  assumes "fresh_node tight n" "path_rule tight ps"
    and "ps \<noteq> [] \<Longrightarrow> rank_gap tight (parent_rank ps) (ravl_node_rank n - 1)"
    and "promote_parents n ps = (n1, ps1)"
  shows "fresh_node tight n1 \<and> path_rule tight ps1 \<and>
    (ps1 \<noteq> [] \<longrightarrow> rank_gap tight (parent_rank ps1) (ravl_node_rank n1 - 1) \<and>
       \<not> ravl_node_is (root_of n1 [hd ps1]) 0 1)"
  using assms
proof (induction n ps rule: promote_parents.induct)
  case (1 n)
  then show ?case by simp
next
  case (2 n t k x s ps)
  show ?case
  proof (cases "ravl_node_is (with_child t k x n s) 0 1")
    case True
    let ?p = "ravl_node_promote (with_child t k x n s)"
    have p: "?p = with_child t (k + 1) x n s" by (simp add: with_child_def)
    have k: "k = ravl_node_rank n \<and> k = ravl_node_rank s + 1"
      using True 2(3) by (auto simp: rank_gap_def)
    have fr: "fresh_node tight ?p"
      unfolding p fresh_node_def using k 2(2,3) by (auto simp: fresh_node_def rank_gap_def)
    have gap: "rank_gap tight (parent_rank ps) (ravl_node_rank ?p - 1)" if "ps \<noteq> []" using that 2(3) by (simp add: p)
    have "path_rule tight ps" "promote_parents ?p ps = (n1, ps1)" using 2(3,5) True by simp_all
    then show ?thesis by (intro 2(1) [OF True fr _ gap])
  next
    case False
    then have e: "n1 = n" "ps1 = Parent t k x s # ps" using 2(5) by (simp_all del: with_child_simps)
    have "rank_gap tight (parent_rank ps1) (ravl_node_rank n - 1)" using 2(4) by (simp add: e)
    moreover have "\<not> ravl_node_is (root_of n1 [hd ps1]) 0 1" using False by (simp add: e del: with_child_simps)
    ultimately show ?thesis using 2(2,3) by (simp add: e)
  qed
qed

lemma rank_lower: "rank_rule tight n \<Longrightarrow> - 1 \<le> ravl_node_rank n"
  by (induction n) (auto simp: rank_gap_def)

text \<open>The rotations of \<open>ravl_balance\<close>.\<close>

definition rebalanced :: "ravl_slot_type \<Rightarrow> 'a ravl_node \<Rightarrow> 'a parent list \<Rightarrow> 'a node_ptr" where
  "rebalanced tn n ps =
     (let t = ravl_slot_opposite tn; z = slot_ptr (n, ps) t
      in if ravl_slot n t = RNil \<or> ravl_node_rank_difference z = 2
         then (case ravl_rotate (n, ps) of (n1, ps1) \<Rightarrow> (in_slot ravl_node_demote n1 t, ps1))
         else if ravl_node_rank_difference z = 1
         then (case ravl_rotate (ravl_rotate z) of (z1, ps1) \<Rightarrow>
                 (in_slot ravl_node_demote (in_slot ravl_node_demote (ravl_node_promote z1) tn) t, ps1))
         else (n, ps))"

lemma rebalanced_rule:
  assumes b: "(n1, ps1) = rebalanced tn (RNode l k x r) (Parent tn pk px s # qs)"
    and lr: "ravl_node_rank l = k - 1 \<and> ravl_node_rank r = k - 2 \<or> ravl_node_rank l = k - 2 \<and> ravl_node_rank r = k - 1"
    and rules: "rank_rule tight l" "rank_rule tight r" "rank_rule tight s" and gs: "rank_gap tight (pk - 1) (ravl_node_rank s)"
    and pk: "pk = k" and qs: "qs \<noteq> [] \<longrightarrow> rank_gap tight (parent_rank qs) pk" "path_rule tight qs"
  shows "rank_rule tight (root_of n1 ps1)"
proof -
  note defs = rebalanced_def Let_def ravl_slot_opposite_def parent_rank_def ravl_node_rank_difference_def
  have gs': "ravl_node_rank s < k - 1" "tight \<Longrightarrow> k - 1 \<le> ravl_node_rank s + 2" using gs pk by (simp_all add: rank_gap_def)
  have "ps1 = qs \<and> ravl_node_rank n1 = k \<and> rank_rule tight n1"
  proof (cases "tn = RAVL_LEFT")
    case True
    show ?thesis
    proof (cases r)
      case RNil
      then show ?thesis using b lr rules gs' pk rank_lower [OF rules(1)] rank_lower [OF rules(2)] rank_lower [OF rules(3)] by (auto simp: defs True rank_gap_def)
    next
      case (RNode zl zk zx zr)
      then show ?thesis using b lr rules gs' pk rank_lower [OF rules(1)] rank_lower [OF rules(2)] rank_lower [OF rules(3)] by (auto simp: defs True rank_gap_def)
    qed
  next
    case False
    show ?thesis
    proof (cases l)
      case RNil
      then show ?thesis using b lr rules gs' pk rank_lower [OF rules(1)] rank_lower [OF rules(2)] rank_lower [OF rules(3)] by (auto simp: defs False rank_gap_def)
    next
      case (RNode zl zk zx zr)
      then show ?thesis using b lr rules gs' pk rank_lower [OF rules(1)] rank_lower [OF rules(2)] rank_lower [OF rules(3)] by (auto simp: defs False rank_gap_def)
    qed
  qed
  then show ?thesis using qs pk by (simp add: rank_rule_root_of)
qed

lemma rank_rule_balance:
  assumes "fresh_node tight n" "path_rule tight ps"
    and "ps \<noteq> [] \<Longrightarrow> rank_gap tight (parent_rank ps) (ravl_node_rank n - 1)"
    and "ravl_balance (n, ps) = (n1, ps1)"
  shows "rank_rule tight (root_of n1 ps1)"
proof -
  obtain n2 ps2 where np: "promote_parents n ps = (n2, ps2)" by (cases "promote_parents n ps")
  have f: "fresh_node tight n2" "path_rule tight ps2"
    and g: "ps2 \<noteq> [] \<Longrightarrow> rank_gap tight (parent_rank ps2) (ravl_node_rank n2 - 1) \<and> \<not> ravl_node_is (root_of n2 [hd ps2]) 0 1"
    using promote_parents_rule [OF assms(1-3) np] by auto
  obtain l k x r where n2: "n2 = RNode l k x r" using f(1) by (cases n2) (auto simp: fresh_node_def)
  show ?thesis
  proof (cases ps2)
    case Nil
    then show ?thesis using assms(4) f(1) by (auto simp: ravl_balance_def np ravl_node_slot_type_def fresh_node_def Let_def split: if_splits)
  next
    case (Cons c qs)
    obtain t pk px s where c: "c = Parent t pk px s" by (cases c)
    have gap: "rank_gap tight pk (k - 1)" "rank_gap tight pk (ravl_node_rank s)" "rank_rule tight s"
        "qs \<noteq> [] \<longrightarrow> rank_gap tight (parent_rank qs) pk" "path_rule tight qs"
      and ni: "\<not> (pk - k = 0 \<and> pk - ravl_node_rank s = 1)"
      using g f(2) by (auto simp: Cons c n2 parent_rank_def)
    show ?thesis
    proof (cases "pk - k = 0 \<and> pk - ravl_node_rank s > 1")
      case False
      then have "rank_gap tight pk k" using gap(1,2) ni by (auto simp: rank_gap_def)
      then show ?thesis using assms(4) False f gap
        by (auto simp: ravl_balance_def np Cons c n2 ravl_node_sibling_def ravl_node_rank_difference_def parent_rank_def
            rank_rule_root_of fresh_node_def)
    next
      case True
      have s1: "- 1 \<le> ravl_node_rank s" using gap(3) by (rule rank_lower)
      have lr: "ravl_node_rank l = k - 1 \<and> ravl_node_rank r = k - 2 \<or> ravl_node_rank l = k - 2 \<and> ravl_node_rank r = k - 1"
        using f(1) True s1 by (auto simp: fresh_node_def n2 ravl_node_is_def ravl_node_is_i_j_def)
      have rules: "rank_rule tight l" "rank_rule tight r" using f(1) by (simp_all add: fresh_node_def n2)
      have gs: "rank_gap tight (pk - 1) (ravl_node_rank s)" using True gap(2) by (auto simp: rank_gap_def)
      have "ravl_node_rank_difference (n2, ps2) = 0" "parent_rank ps2 - ravl_node_rank (ravl_node_sibling (n2, ps2)) > 1"
          "ravl_node_slot_type (n2, ps2) = Some t"
        using True by (simp_all add: Cons c n2 ravl_node_rank_difference_def parent_rank_def ravl_node_sibling_def ravl_node_slot_type_def)
      then have "(n1, ps1) = rebalanced t n2 ps2"
        using assms(4) by (simp add: ravl_balance_def np rebalanced_def Let_def)
      then have b: "(n1, ps1) = rebalanced t (RNode l k x r) (Parent t pk px s # qs)" by (simp only: n2 Cons c)
      show ?thesis
        using rebalanced_rule [OF b lr rules gap(3) gs _ gap(4,5)] True by simp
    qed
  qed
qed

lemma emplace_slot_rule:
  "emplace_slot compare d n ps = Some ps1 \<Longrightarrow> rank_rule tight (root_of n ps) \<Longrightarrow>
   rank_rule tight (root_of RNil ps1)"
  by (induction compare d n ps rule: emplace_slot.induct)
    (simp_all add: Let_def with_child_def split: if_splits)

lemma rank_rule_emplace:
  assumes "rank_rule tight (rv_root ravl)"
  shows "rank_rule tight (rv_root (snd (ravl_emplace mem_ok ravl d)))"
proof (cases "mem_ok \<and> emplace_slot (rv_compare ravl) d (rv_root ravl) [] \<noteq> None")
  case False
  then show ?thesis using assms by (auto simp: ravl_emplace_def)
next
  case True
  then obtain ps where ps: "emplace_slot (rv_compare ravl) d (rv_root ravl) [] = Some ps" by auto
  obtain n1 ps1 where b: "ravl_balance (ravl_new_node d, ps) = (n1, ps1)" by (cases "ravl_balance (ravl_new_node d, ps)")
  have "rank_rule tight (root_of RNil ps)" by (rule emplace_slot_rule [OF ps]) (use assms in simp)
  then have p: "path_rule tight ps" "ps \<noteq> [] \<Longrightarrow> rank_gap tight (parent_rank ps) (- 1)"
    by (simp_all add: rank_rule_root_of)
  have "fresh_node tight (ravl_new_node d)" by (simp add: fresh_node_def ravl_new_node_def rank_gap_def)
  then have "rank_rule tight (root_of n1 ps1)"
    using rank_rule_balance [OF _ p(1) _ b] p(2) by (simp add: ravl_new_node_def)
  then show ?thesis using True by (simp add: ravl_emplace_def ps b)
qed

text \<open>Removal keeps the rank differences positive; they may become greater than 2.\<close>

lemma rank_rule_root_weaken:
  assumes "rank_rule False (root_of n ps)" "rank_rule False m" "ravl_node_rank m \<le> ravl_node_rank n"
  shows "rank_rule False (root_of m ps)"
  using assms by (auto simp: rank_rule_root_of rank_gap_def)

lemma rank_rule_remove_one:
  assumes "rank_rule False (root_of (RNode l k x r) ps)" "\<not> two_children (RNode l k x r, ps)"
  shows "rank_rule False (remove_at (RNode l k x r, ps))"
proof -
  have "rank_rule False (RNode l k x r)" using assms(1) by (simp add: rank_rule_root_of)
  then show ?thesis using assms
    by (subst remove_at.simps) (auto simp: two_children_def rank_gap_def Let_def intro!: rank_rule_root_weaken [OF assms(1)])
qed

lemma rank_rule_set_data:
  "rank_rule tight (root_of (RNode l k x r) ps) = rank_rule tight (root_of (RNode l k y r) ps)"
  by (simp add: rank_rule_root_of)

lemma rank_rule_remove:
  assumes "rank_rule False (root_of (RNode l k x r) ps)"
  shows "rank_rule False (remove_at (RNode l k x r, ps))"
proof (cases "two_children (RNode l k x r, ps)")
  case False
  then show ?thesis by (rule rank_rule_remove_one [OF assms])
next
  case True
  then have r: "r \<noteq> RNil" by (simp add: two_children_def)
  let ?P = "\<lambda>y. Parent RAVL_RIGHT k y l # ps"
  obtain k1 y r1 ps1 where t: "ravl_node_type_most r (?P x) RAVL_LEFT = (RNode RNil k1 y r1, ps1)"
    using type_most_left [OF r] by metis
  obtain k2 y2 r2 ps2 where t2: "ravl_node_type_most r (?P y) RAVL_LEFT = (RNode RNil k2 y2 r2, ps2)"
      "root_of (RNode RNil k2 y2 r2) ps2 = root_of r (?P y)"
    using type_most_left [OF r] by metis
  have s: "ravl_node_successor (RNode l k x r, ps) = Some (RNode RNil k1 y r1, ps1)"
      "ravl_node_successor (RNode l k y r, ps) = Some (RNode RNil k2 y2 r2, ps2)"
    using r t(1) t2(1) by (simp_all add: ravl_node_successor_def ravl_node_cessor_def ravl_slot_opposite_def)
  have "rank_rule False (root_of (RNode RNil k2 y2 r2) ps2)"
    using assms rank_rule_set_data [of False l k x r ps y] unfolding t2(2) by (simp add: with_child_def)
  then have "rank_rule False (remove_at (RNode RNil k2 y2 r2, ps2))"
    by (rule rank_rule_remove_one) (simp add: two_children_def)
  then show ?thesis using True by (subst remove_at.simps) (simp add: s ravl_data_def)
qed

text \<open>The rank bounds the height, and without removals the size bounds the rank.\<close>

fun tree_height :: "'a ravl_node \<Rightarrow> nat" where
  "tree_height RNil = 0"
| "tree_height (RNode l k x r) = Suc (max (tree_height l) (tree_height r))"

lemma height_le_rank: "rank_rule tight n \<Longrightarrow> int (tree_height n) \<le> ravl_node_rank n + 1"
  by (induction n) (auto simp: rank_gap_def)

lemma rank_le_size: "rank_rule True n \<Longrightarrow> 2 ^ nat (ravl_node_rank n + 1) \<le> (length (inorder n) + 1) ^ 2"
proof (induction n)
  case (RNode l k x r)
  have g: "ravl_node_rank l < k" "k \<le> ravl_node_rank l + 2" "ravl_node_rank r < k" "k \<le> ravl_node_rank r + 2"
    using RNode.prems by (auto simp: rank_gap_def)
  define a b where "a = length (inorder l) + 1" and "b = length (inorder r) + 1"
  have k: "- 1 \<le> ravl_node_rank l" "0 \<le> k" using RNode.prems rank_lower [of True l] g by auto
  have ab: "2 ^ nat (k - 1) \<le> a ^ 2" "2 ^ nat (k - 1) \<le> b ^ 2"
  proof -
    have "(2 :: nat) ^ nat (k - 1) \<le> 2 ^ nat (ravl_node_rank l + 1)" "(2 :: nat) ^ nat (k - 1) \<le> 2 ^ nat (ravl_node_rank r + 1)"
      using g by (simp_all add: power_increasing)
    moreover have "2 ^ nat (ravl_node_rank l + 1) \<le> a ^ 2" "2 ^ nat (ravl_node_rank r + 1) \<le> b ^ 2"
      using RNode by (simp_all add: a_def b_def)
    ultimately show "2 ^ nat (k - 1) \<le> a ^ 2" "2 ^ nat (k - 1) \<le> b ^ 2" by (blast intro: le_trans)+
  qed
  have "4 * 2 ^ nat (k - 1) \<le> (a + b) ^ 2"
  proof (cases "a \<le> b")
    case True
    then have "(a + a) ^ 2 \<le> (a + b) ^ 2" by (simp add: power_mono)
    then show ?thesis using ab(1) by (simp add: power2_eq_square algebra_simps)
  next
    case False
    then have "(b + b) ^ 2 \<le> (a + b) ^ 2" by (simp add: power_mono)
    then show ?thesis using ab(2) by (simp add: power2_eq_square algebra_simps)
  qed
  moreover have "(2 :: nat) ^ nat (k + 1) \<le> 4 * 2 ^ nat (k - 1)"
  proof -
    have "nat (k + 1) \<le> nat (k - 1) + 2" using k by simp
    then have "(2 :: nat) ^ nat (k + 1) \<le> 2 ^ (nat (k - 1) + 2)" by (intro power_increasing) simp_all
    also have "\<dots> = 4 * 2 ^ nat (k - 1)" by (simp only: power_add) simp
    finally show ?thesis .
  qed
  ultimately show ?case by (simp add: a_def b_def algebra_simps)
qed simp

section \<open>The order\<close>

definition ascending :: "('a \<Rightarrow> 'k :: linorder) \<Rightarrow> 'a list \<Rightarrow> bool" where
  "ascending key xs \<longleftrightarrow> sorted_wrt (\<lambda>x y. key x < key y) xs"

lemma ascending_append:
  "ascending key (xs @ ys) \<longleftrightarrow> ascending key xs \<and> ascending key ys \<and> (\<forall>x \<in> set xs. \<forall>y \<in> set ys. key x < key y)"
  by (simp add: ascending_def sorted_wrt_append)

lemma ascending_Cons: "ascending key (x # xs) \<longleftrightarrow> (\<forall>y \<in> set xs. key x < key y) \<and> ascending key xs"
  by (auto simp: ascending_def)

text \<open>The elements before and after a path are below and above \<open>d\<close>.\<close>

definition splits_at :: "('a \<Rightarrow> 'k :: linorder) \<Rightarrow> 'a parent list \<Rightarrow> 'a \<Rightarrow> bool" where
  "splits_at key ps d \<longleftrightarrow> (\<forall>x \<in> set (before ps). key x < key d) \<and> (\<forall>x \<in> set (after ps). key d < key x)"

text \<open>
  What a client has to provide: a comparison function that agrees with a linear order on
  keys.  The elements of a tree are then in strictly ascending order.
\<close>

locale ravl_order =
  fixes compare :: "'a \<Rightarrow> 'a \<Rightarrow> int" and key :: "'a \<Rightarrow> 'k :: linorder"
  assumes compare_zero: "compare x y = 0 \<longleftrightarrow> key x = key y"
    and compare_neg: "compare x y < 0 \<longleftrightarrow> key x < key y"
begin

lemma compare_pos: "compare x y > 0 \<longleftrightarrow> key y < key x"
proof -
  have "compare x y > 0 \<longleftrightarrow> \<not> compare x y = 0 \<and> \<not> compare x y < 0" by linarith
  then show ?thesis unfolding compare_zero compare_neg by auto
qed

lemma emplace_slot_cases:
  assumes "ascending key (before ps @ inorder n @ after ps)" "splits_at key ps d"
  shows "emplace_slot compare d n ps = None \<and> key d \<in> key ` set (inorder n) \<or>
    (\<exists>ps1. emplace_slot compare d n ps = Some ps1 \<and> key d \<notin> key ` set (inorder n) \<and>
       before ps1 @ after ps1 = before ps @ inorder n @ after ps \<and> splits_at key ps1 d)"
  using assms
proof (induction n arbitrary: ps)
  case RNil
  then show ?case by simp
next
  case (RNode l k x r)
  have o: "\<forall>y \<in> set (inorder l). key y < key x" "\<forall>y \<in> set (inorder r). key x < key y"
    using RNode.prems(1) by (auto simp: ascending_append ascending_Cons)
  consider "key d = key x" | "key x < key d" | "key d < key x" by fastforce
  then show ?case
  proof cases
    case 1
    then show ?thesis using compare_zero by simp
  next
    case 2
    let ?ps = "Parent RAVL_RIGHT k x l # ps"
    have c: "compare d x > 0" using 2 compare_pos by blast
    have "splits_at key ?ps d" using RNode.prems(2) o(1) 2 by (auto simp: splits_at_def)
    moreover have "key d \<notin> key ` set (inorder l)" using o(1) 2 by fastforce
    ultimately show ?thesis using RNode.IH(2) [of ?ps] RNode.prems(1) c 2 by auto
  next
    case 3
    let ?ps = "Parent RAVL_LEFT k x r # ps"
    have c: "compare d x < 0" using 3 compare_neg by blast
    have "splits_at key ?ps d" using RNode.prems(2) o(2) 3 by (auto simp: splits_at_def)
    moreover have "key d \<notin> key ` set (inorder r)" using o(2) 3 by fastforce
    ultimately show ?thesis using RNode.IH(1) [of ?ps] RNode.prems(1) c 3 by auto
  qed
qed

text \<open>Insertion adds the element, unless its key is there already.\<close>

lemma emplace_inorder:
  assumes "rv_compare ravl = compare" "ascending key (inorder (rv_root ravl))"
  shows "ravl_emplace True ravl d = (Inl EEXIST, ravl) \<and> key d \<in> key ` set (inorder (rv_root ravl)) \<or>
    (\<exists>ravl1 xs ys. ravl_emplace True ravl d = (Inr (), ravl1) \<and> key d \<notin> key ` set (inorder (rv_root ravl)) \<and>
       rv_compare ravl1 = compare \<and> inorder (rv_root ravl) = xs @ ys \<and> inorder (rv_root ravl1) = xs @ d # ys \<and>
       ascending key (inorder (rv_root ravl1)))"
proof -
  have sp: "splits_at key [] d" by (simp add: splits_at_def)
  consider "emplace_slot compare d (rv_root ravl) [] = None" "key d \<in> key ` set (inorder (rv_root ravl))"
    | ps where "emplace_slot compare d (rv_root ravl) [] = Some ps" "key d \<notin> key ` set (inorder (rv_root ravl))"
        "before ps @ after ps = inorder (rv_root ravl)" "splits_at key ps d"
    using emplace_slot_cases [of "[]" "rv_root ravl" d] assms(2) sp by auto
  then show ?thesis
  proof cases
    case 1
    then show ?thesis by (simp add: ravl_emplace_def assms(1))
  next
    case 2
    obtain n1 ps1 where b: "ravl_balance (ravl_new_node d, ps) = (n1, ps1)" by (cases "ravl_balance (ravl_new_node d, ps)")
    have i: "inorder (root_of n1 ps1) = before ps @ d # after ps"
      using inorder_balance [of "(ravl_new_node d, ps)"] unfolding b inorder_root_of by (simp add: ravl_new_node_def)
    moreover have "ascending key (before ps @ d # after ps)"
      using 2(3,4) assms(2) by (auto simp: ascending_append ascending_Cons splits_at_def simp flip: 2(3))
    ultimately show ?thesis using 2 assms(1)
      by (intro disjI2 exI [of _ "ravl\<lparr>rv_root := root_of n1 ps1\<rparr>"] exI [of _ "before ps"] exI [of _ "after ps"])
        (simp add: ravl_emplace_def b)
  qed
qed


text \<open>
  The node that a search returns: with \<open>RAVL_PREDICATE_LESS\<close> the last element below the
  key, with \<open>RAVL_PREDICATE_GREATER\<close> the first one above it; with \<open>RAVL_PREDICATE_EQUAL\<close> an
  element with the key comes first.
\<close>

lemma find_less:
  assumes "ascending key (before ps @ inorder n @ after ps)" "splits_at key ps d"
    and "RAVL_PREDICATE_LESS flags" "\<not> RAVL_PREDICATE_GREATER flags"
    and "ret = None \<and> before ps = [] \<or> (\<exists>p. ret = Some p \<and> before ps \<noteq> [] \<and> points_to (root_of n ps) p (last (before ps)))"
  defines "below \<equiv> before ps @ filter (\<lambda>x. key x < key d \<or> RAVL_PREDICATE_EQUAL flags \<and> key x = key d) (inorder n)"
  shows "find_from compare d flags n ps ret = None \<and> below = [] \<or>
    (\<exists>p. find_from compare d flags n ps ret = Some p \<and> below \<noteq> [] \<and> points_to (root_of n ps) p (last below))"
  using assms(1,2,5) unfolding below_def
proof (induction n arbitrary: ps ret)
  case RNil
  then show ?case by auto
next
  case (RNode l k x r)
  let ?n = "RNode l k x r" and ?P = "\<lambda>x. key x < key d \<or> RAVL_PREDICATE_EQUAL flags \<and> key x = key d"
  have o: "\<forall>y \<in> set (inorder l). key y < key x" "\<forall>y \<in> set (inorder r). key x < key y"
    using RNode.prems(1) by (auto simp: ascending_append ascending_Cons)
  consider "key d = key x" | "key x < key d" | "key d < key x" by fastforce
  then show ?case
  proof cases
    case 1
    have c: "compare d x = 0" using 1 compare_zero by simp
    have fl: "filter ?P (inorder l) = inorder l" "filter ?P (inorder r) = []"
      using o 1 by (auto simp: filter_id_conv filter_empty_conv)
    show ?thesis
    proof (cases "RAVL_PREDICATE_EQUAL flags")
      case True
      then have f: "find_from compare d flags ?n ps ret = Some (?n, ps)" by (simp add: c ravl_predicate_holds_def)
      have "before ps @ filter ?P (inorder ?n) = (before ps @ inorder l) @ [x]" using True fl 1 by simp
      then show ?thesis unfolding f by (simp add: points_to_def ravl_data_def)
    next
      case False
      then have f: "find_from compare d flags ?n ps ret = ravl_node_predecessor (?n, ps)"
        using assms(3,4) by (simp add: c ravl_predicate_holds_def)
      have "before ps @ filter ?P (inorder ?n) = before ps @ inorder l" using False fl 1 by simp
      then show ?thesis unfolding f using predecessor_points [OF refl, of l k x r ps] by simp
    qed
  next
    case 2
    let ?ps = "Parent RAVL_RIGHT k x l # ps"
    have c: "compare d x > 0" using 2 compare_pos by blast
    have f: "find_from compare d flags ?n ps ret = find_from compare d flags r ?ps (Some (?n, ps))"
      using c assms(3,4) by (simp add: ravl_predicate_holds_def)
    have fl: "filter ?P (inorder l) = inorder l" using o 2 by (auto simp: filter_id_conv)
    have root: "root_of r ?ps = root_of ?n ps" by (simp add: with_child_def)
    have a: "ascending key (before ?ps @ inorder r @ after ?ps)" using RNode.prems(1) by simp
    have sp: "splits_at key ?ps d" using RNode.prems(2) o(1) 2 by (auto simp: splits_at_def)
    have pt: "points_to (root_of r ?ps) (?n, ps) (last (before ?ps))" unfolding root by (simp add: points_to_def ravl_data_def)
    have bl: "before ?ps @ filter ?P (inorder r) = before ps @ filter ?P (inorder ?n)" using fl 2 by simp
    show ?thesis unfolding f using RNode.IH(2) [OF a sp, of "Some (?n, ps)"] pt unfolding root bl by simp
  next
    case 3
    let ?ps = "Parent RAVL_LEFT k x r # ps"
    have c: "compare d x < 0" using 3 compare_neg by blast
    have f: "find_from compare d flags ?n ps ret = find_from compare d flags l ?ps ret"
      using c assms(4) by (simp add: ravl_predicate_holds_def)
    have fl: "filter ?P (inorder r) = []" using o 3 by (auto simp: filter_empty_conv)
    have root: "root_of l ?ps = root_of ?n ps" by (simp add: with_child_def)
    have a: "ascending key (before ?ps @ inorder l @ after ?ps)" using RNode.prems(1) by simp
    have sp: "splits_at key ?ps d" using RNode.prems(2) o(2) 3 by (auto simp: splits_at_def)
    have bl: "before ?ps @ filter ?P (inorder l) = before ps @ filter ?P (inorder ?n)" using fl 3 by auto
    show ?thesis unfolding f using RNode.IH(1) [OF a sp, of ret] RNode.prems(3) unfolding root bl by simp
  qed
qed

lemma find_greater:
  assumes "ascending key (before ps @ inorder n @ after ps)" "splits_at key ps d"
    and "RAVL_PREDICATE_GREATER flags" "\<not> RAVL_PREDICATE_LESS flags"
    and "ret = None \<and> after ps = [] \<or> (\<exists>p. ret = Some p \<and> after ps \<noteq> [] \<and> points_to (root_of n ps) p (hd (after ps)))"
  defines "larger \<equiv> filter (\<lambda>x. key d < key x \<or> RAVL_PREDICATE_EQUAL flags \<and> key x = key d) (inorder n) @ after ps"
  shows "find_from compare d flags n ps ret = None \<and> larger = [] \<or>
    (\<exists>p. find_from compare d flags n ps ret = Some p \<and> larger \<noteq> [] \<and> points_to (root_of n ps) p (hd larger))"
  using assms(1,2,5) unfolding larger_def
proof (induction n arbitrary: ps ret)
  case RNil
  then show ?case by auto
next
  case (RNode l k x r)
  let ?n = "RNode l k x r" and ?P = "\<lambda>x. key d < key x \<or> RAVL_PREDICATE_EQUAL flags \<and> key x = key d"
  have o: "\<forall>y \<in> set (inorder l). key y < key x" "\<forall>y \<in> set (inorder r). key x < key y"
    using RNode.prems(1) by (auto simp: ascending_append ascending_Cons)
  consider "key d = key x" | "key x < key d" | "key d < key x" by fastforce
  then show ?case
  proof cases
    case 1
    have c: "compare d x = 0" using 1 compare_zero by simp
    have fl: "filter ?P (inorder r) = inorder r" "filter ?P (inorder l) = []"
      using o 1 by (auto simp: filter_id_conv filter_empty_conv)
    show ?thesis
    proof (cases "RAVL_PREDICATE_EQUAL flags")
      case True
      then have f: "find_from compare d flags ?n ps ret = Some (?n, ps)" by (simp add: c ravl_predicate_holds_def)
      show ?thesis unfolding f using True fl 1 by (simp add: points_to_def ravl_data_def)
    next
      case False
      then have f: "find_from compare d flags ?n ps ret = ravl_node_successor (?n, ps)"
        using assms(3,4) by (simp add: c ravl_predicate_holds_def)
      have "filter ?P (inorder ?n) @ after ps = inorder r @ after ps" using False fl 1 by simp
      then show ?thesis unfolding f using successor_points [OF refl, of l k x r ps] by simp
    qed
  next
    case 3
    let ?ps = "Parent RAVL_LEFT k x r # ps"
    have c: "compare d x < 0" using 3 compare_neg by blast
    have f: "find_from compare d flags ?n ps ret = find_from compare d flags l ?ps (Some (?n, ps))"
      using c assms(3,4) by (simp add: ravl_predicate_holds_def)
    have fl: "filter ?P (inorder r) = inorder r" using o 3 by (auto simp: filter_id_conv)
    have root: "root_of l ?ps = root_of ?n ps" by (simp add: with_child_def)
    have a: "ascending key (before ?ps @ inorder l @ after ?ps)" using RNode.prems(1) by simp
    have sp: "splits_at key ?ps d" using RNode.prems(2) o(2) 3 by (auto simp: splits_at_def)
    have pt: "points_to (root_of l ?ps) (?n, ps) (hd (after ?ps))" unfolding root by (simp add: points_to_def ravl_data_def)
    have bl: "filter ?P (inorder l) @ after ?ps = filter ?P (inorder ?n) @ after ps" using fl 3 by simp
    show ?thesis unfolding f using RNode.IH(1) [OF a sp, of "Some (?n, ps)"] pt unfolding root bl by simp
  next
    case 2
    let ?ps = "Parent RAVL_RIGHT k x l # ps"
    have c: "compare d x > 0" using 2 compare_pos by blast
    have f: "find_from compare d flags ?n ps ret = find_from compare d flags r ?ps ret"
      using c assms(4) by (simp add: ravl_predicate_holds_def)
    have fl: "filter ?P (inorder l) = []" using o 2 by (auto simp: filter_empty_conv)
    have root: "root_of r ?ps = root_of ?n ps" by (simp add: with_child_def)
    have a: "ascending key (before ?ps @ inorder r @ after ?ps)" using RNode.prems(1) by simp
    have sp: "splits_at key ?ps d" using RNode.prems(2) o(1) 2 by (auto simp: splits_at_def)
    have bl: "filter ?P (inorder r) @ after ?ps = filter ?P (inorder ?n) @ after ps" using fl 2 by auto
    show ?thesis unfolding f using RNode.IH(2) [OF a sp, of ret] RNode.prems(3) unfolding root bl by simp
  qed
qed

lemma find_equal:
  assumes "ascending key (inorder n)" "\<not> RAVL_PREDICATE_GREATER flags" "\<not> RAVL_PREDICATE_LESS flags" "RAVL_PREDICATE_EQUAL flags"
  shows "find_from compare d flags n ps ret = ret \<and> key d \<notin> key ` set (inorder n) \<or>
    (\<exists>p x. find_from compare d flags n ps ret = Some p \<and> points_to (root_of n ps) p x \<and> x \<in> set (inorder n) \<and> key x = key d)"
  using assms(1)
proof (induction n arbitrary: ps)
  case (RNode l k x r)
  have o: "\<forall>y \<in> set (inorder l). key y < key x" "\<forall>y \<in> set (inorder r). key x < key y"
      "ascending key (inorder l)" "ascending key (inorder r)"
    using RNode.prems(1) by (auto simp: ascending_append ascending_Cons)
  have h: "ravl_predicate_holds c ret p flags = (if c = 0 then (True, Some p) else (False, ret))" for c p
    using assms by (simp add: ravl_predicate_holds_def)
  consider "key d = key x" | "key x < key d" | "key d < key x" by fastforce
  then show ?case
  proof cases
    case 1
    then show ?thesis by (simp add: compare_zero h points_to_def ravl_data_def)
  next
    case 2
    then have "compare d x > 0" using compare_pos by blast
    then show ?thesis using RNode.IH(2) [OF o(4), of "Parent RAVL_RIGHT k x l # ps"] o(1) 2
      by (auto simp: h with_child_def)
  next
    case 3
    then have "compare d x < 0" using compare_neg by blast
    then show ?thesis using RNode.IH(1) [OF o(3), of "Parent RAVL_LEFT k x r # ps"] o(2) 3
      by (auto simp: h with_child_def)
  qed
qed simp

end

end
