(* ===== verification/Ravl_Set.thy ===== *)
theory Ravl_Set
  imports Ravl_Props
begin

text \<open>
  The tree as an ordered set: what a client that only knows the elements of the tree can
  rely on for insertion, search and removal.
\<close>

definition ravl_elems :: "'a ravl \<Rightarrow> 'a set" where
  "ravl_elems t = set (inorder (rv_root t))"

definition ravl_ok :: "('a \<Rightarrow> 'a \<Rightarrow> int) \<Rightarrow> ('a \<Rightarrow> 'k :: linorder) \<Rightarrow> 'a ravl \<Rightarrow> bool" where
  "ravl_ok compare key t \<longleftrightarrow>
     rv_compare t = compare \<and> ascending key (inorder (rv_root t)) \<and> rank_rule False (rv_root t)"

lemma points_to_elem: "points_to (rv_root t) p x \<Longrightarrow> x \<in> ravl_elems t"
  by (auto simp: points_to_node ravl_elems_def inorder_root_of dest!: sym [of _ "rv_root t"])

lemma points_to_data: "points_to root p x \<Longrightarrow> ravl_data p = Some x"
  by (simp add: points_to_def)

lemma sorted_last_greatest: "ascending key xs \<Longrightarrow> y \<in> set xs \<Longrightarrow> key y \<le> key (last xs)"
  by (induction xs) (auto simp: ascending_Cons less_imp_le split: if_splits)

lemma sorted_hd_least: "ascending key xs \<Longrightarrow> y \<in> set xs \<Longrightarrow> key (hd xs) \<le> key y"
  by (cases xs) (auto simp: ascending_Cons less_imp_le)

lemma ascending_filter: "ascending key xs \<Longrightarrow> ascending key (filter P xs)"
  by (simp add: ascending_def sorted_wrt_filter)

lemma ravl_new_ok: "ravl_ok compare key (ravl_new compare)" "ravl_elems (ravl_new compare) = {}"
  by (simp_all add: ravl_ok_def ravl_new_def ravl_elems_def ascending_def)

lemma ravl_clear_ok: "ravl_ok compare key t \<Longrightarrow> ravl_ok compare key (ravl_clear t)" "ravl_elems (ravl_clear t) = {}"
  by (simp_all add: ravl_ok_def ravl_clear_def ravl_elems_def ascending_def)

lemma ravl_empty_elems: "ravl_empty t \<longleftrightarrow> ravl_elems t = {}"
  by (cases "rv_root t") (simp_all add: ravl_empty_def ravl_elems_def)

context ravl_order
begin

lemma emplace_ok:
  assumes "ravl_ok compare key t"
  obtains (present) "ravl_emplace True t d = (Inl EEXIST, t)" "key d \<in> key ` ravl_elems t"
    | (added) t1 where "ravl_emplace True t d = (Inr (), t1)" "key d \<notin> key ` ravl_elems t"
        "ravl_ok compare key t1" "ravl_elems t1 = insert d (ravl_elems t)"
proof -
  have c: "rv_compare t = compare" "ascending key (inorder (rv_root t))" "rank_rule False (rv_root t)"
    using assms by (simp_all add: ravl_ok_def)
  from emplace_inorder [OF c(1,2), of d] show ?thesis
  proof
    assume "ravl_emplace True t d = (Inl EEXIST, t) \<and> key d \<in> key ` set (inorder (rv_root t))"
    then show ?thesis by (intro that(1)) (simp_all add: ravl_elems_def)
  next
    assume "\<exists>ravl1 xs ys. ravl_emplace True t d = (Inr (), ravl1) \<and> key d \<notin> key ` set (inorder (rv_root t)) \<and>
       rv_compare ravl1 = compare \<and> inorder (rv_root t) = xs @ ys \<and> inorder (rv_root ravl1) = xs @ d # ys \<and>
       ascending key (inorder (rv_root ravl1))"
    then obtain t1 xs ys where e: "ravl_emplace True t d = (Inr (), t1)" "key d \<notin> key ` set (inorder (rv_root t))"
       "rv_compare t1 = compare" "inorder (rv_root t) = xs @ ys" "inorder (rv_root t1) = xs @ d # ys"
       "ascending key (inorder (rv_root t1))" by blast
    have "rank_rule False (rv_root t1)" using rank_rule_emplace [OF c(3), of True d] e(1) by simp
    then show ?thesis using e by (intro that(2) [of t1]) (auto simp: ravl_elems_def ravl_ok_def)
  qed
qed

lemma find_less_ok:
  fixes d
  assumes t: "ravl_ok compare key t" and f: "RAVL_PREDICATE_LESS flags" "\<not> RAVL_PREDICATE_GREATER flags"
  defines "P \<equiv> \<lambda>x. key x < key d \<or> RAVL_PREDICATE_EQUAL flags \<and> key x = key d"
  obtains (none) "ravl_find t d flags = None" "\<forall>x \<in> ravl_elems t. \<not> P x"
    | (found) p x where "ravl_find t d flags = Some p" "points_to (rv_root t) p x" "x \<in> ravl_elems t" "P x"
        "\<forall>y \<in> ravl_elems t. P y \<longrightarrow> key y \<le> key x"
proof -
  let ?L = "filter P (inorder (rv_root t))"
  have c: "rv_compare t = compare" "ascending key (inorder (rv_root t))" using t by (simp_all add: ravl_ok_def)
  have "ravl_find t d flags = None \<and> ?L = [] \<or> (\<exists>p. ravl_find t d flags = Some p \<and> ?L \<noteq> [] \<and> points_to (rv_root t) p (last ?L))"
    using find_less [of "[]" "rv_root t" d flags None] c f by (simp add: splits_at_def ravl_find_def P_def)
  then show ?thesis
  proof
    assume "ravl_find t d flags = None \<and> ?L = []"
    then show ?thesis by (intro that(1)) (auto simp: ravl_elems_def filter_empty_conv)
  next
    assume "\<exists>p. ravl_find t d flags = Some p \<and> ?L \<noteq> [] \<and> points_to (rv_root t) p (last ?L)"
    then obtain p where p: "ravl_find t d flags = Some p" "?L \<noteq> []" "points_to (rv_root t) p (last ?L)" by blast
    have "last ?L \<in> set ?L" using p(2) by (rule last_in_set)
    then show ?thesis using p sorted_last_greatest [OF ascending_filter [OF c(2)], of _ P]
      by (intro that(2) [of p "last ?L"]) (auto simp: ravl_elems_def)
  qed
qed

lemma find_greater_ok:
  fixes d
  assumes t: "ravl_ok compare key t" and f: "RAVL_PREDICATE_GREATER flags" "\<not> RAVL_PREDICATE_LESS flags"
  defines "P \<equiv> \<lambda>x. key d < key x \<or> RAVL_PREDICATE_EQUAL flags \<and> key x = key d"
  obtains (none) "ravl_find t d flags = None" "\<forall>x \<in> ravl_elems t. \<not> P x"
    | (found) p x where "ravl_find t d flags = Some p" "points_to (rv_root t) p x" "x \<in> ravl_elems t" "P x"
        "\<forall>y \<in> ravl_elems t. P y \<longrightarrow> key x \<le> key y"
proof -
  let ?L = "filter P (inorder (rv_root t))"
  have c: "rv_compare t = compare" "ascending key (inorder (rv_root t))" using t by (simp_all add: ravl_ok_def)
  have "ravl_find t d flags = None \<and> ?L = [] \<or> (\<exists>p. ravl_find t d flags = Some p \<and> ?L \<noteq> [] \<and> points_to (rv_root t) p (hd ?L))"
    using find_greater [of "[]" "rv_root t" d flags None] c f by (simp add: splits_at_def ravl_find_def P_def)
  then show ?thesis
  proof
    assume "ravl_find t d flags = None \<and> ?L = []"
    then show ?thesis by (intro that(1)) (auto simp: ravl_elems_def filter_empty_conv)
  next
    assume "\<exists>p. ravl_find t d flags = Some p \<and> ?L \<noteq> [] \<and> points_to (rv_root t) p (hd ?L)"
    then obtain p where p: "ravl_find t d flags = Some p" "?L \<noteq> []" "points_to (rv_root t) p (hd ?L)" by blast
    have "hd ?L \<in> set ?L" using p(2) by (rule hd_in_set)
    then show ?thesis using p sorted_hd_least [OF ascending_filter [OF c(2)], of _ P]
      by (intro that(2) [of p "hd ?L"]) (auto simp: ravl_elems_def)
  qed
qed

lemma find_equal_ok:
  assumes t: "ravl_ok compare key t"
    and f: "RAVL_PREDICATE_EQUAL flags" "\<not> RAVL_PREDICATE_GREATER flags" "\<not> RAVL_PREDICATE_LESS flags"
  obtains (none) "ravl_find t d flags = None" "key d \<notin> key ` ravl_elems t"
    | (found) p x where "ravl_find t d flags = Some p" "points_to (rv_root t) p x" "x \<in> ravl_elems t" "key x = key d"
proof -
  have c: "rv_compare t = compare" "ascending key (inorder (rv_root t))" using t by (simp_all add: ravl_ok_def)
  show ?thesis
    using find_equal [OF c(2) f(2,3,1), of d "[]" None] that by (auto simp: ravl_find_def ravl_elems_def c(1))
qed

lemma remove_ok:
  assumes t: "ravl_ok compare key t" and p: "points_to (rv_root t) p x"
  shows "ravl_ok compare key (ravl_remove t p)" "ravl_elems (ravl_remove t p) = ravl_elems t - {x}"
proof -
  have c: "rv_compare t = compare" "ascending key (inorder (rv_root t))" "rank_rule False (rv_root t)"
    using t by (simp_all add: ravl_ok_def)
  obtain l k r ps where n: "p = (RNode l k x r, ps)" "root_of (RNode l k x r) ps = rv_root t"
    using p by (auto simp: points_to_node)
  have i: "inorder (rv_root t) = (before ps @ inorder l) @ x # (inorder r @ after ps)"
      "inorder (remove_at p) = (before ps @ inorder l) @ (inorder r @ after ps)"
    using inorder_root_of [of "RNode l k x r" ps] by (simp_all add: n inorder_remove)
  have a: "ascending key (inorder (remove_at p))" "x \<notin> set (inorder (remove_at p))"
    using c(2) unfolding i by (auto simp: ascending_append ascending_Cons)
  have "rank_rule False (remove_at p)" using rank_rule_remove [of l k x r ps] c(3) by (simp add: n)
  then show "ravl_ok compare key (ravl_remove t p)" using a c by (simp add: ravl_ok_def ravl_remove_def)
  show "ravl_elems (ravl_remove t p) = ravl_elems t - {x}"
    using a(2) i by (auto simp: ravl_elems_def ravl_remove_def)
qed

lemma set_data_ok:
  assumes t: "ravl_ok compare key t" and p: "points_to (rv_root t) p x"
    and lo: "\<forall>y \<in> ravl_elems t. key y < key x \<longrightarrow> key y < key d"
    and hi: "\<forall>y \<in> ravl_elems t. key x < key y \<longrightarrow> key d < key y"
  shows "ravl_ok compare key (t\<lparr>rv_root := root_of (set_data (fst p) d) (snd p)\<rparr>)"
    "ravl_elems (t\<lparr>rv_root := root_of (set_data (fst p) d) (snd p)\<rparr>) = insert d (ravl_elems t - {x})"
    "points_to (root_of (set_data (fst p) d) (snd p)) (set_data (fst p) d, snd p) d"
proof -
  have c: "rv_compare t = compare" "ascending key (inorder (rv_root t))" "rank_rule False (rv_root t)"
    using t by (simp_all add: ravl_ok_def)
  obtain l k r ps where n: "p = (RNode l k x r, ps)" "root_of (RNode l k x r) ps = rv_root t"
    using p by (auto simp: points_to_node)
  let ?as = "before ps @ inorder l" and ?bs = "inorder r @ after ps"
  have i: "inorder (rv_root t) = ?as @ x # ?bs" "inorder (root_of (RNode l k d r) ps) = ?as @ d # ?bs"
    using inorder_root_of [of "RNode l k x r" ps] by (simp_all add: n inorder_root_of)
  have o: "\<forall>y \<in> set ?as. key y < key x" "\<forall>y \<in> set ?bs. key x < key y" "x \<notin> set ?as \<union> set ?bs"
      "ascending key ?as" "ascending key ?bs" "\<forall>y \<in> set ?as. \<forall>z \<in> set ?bs. key y < key z"
    using c(2) unfolding i(1) ascending_append ascending_Cons by fastforce+
  have e: "ravl_elems t = set ?as \<union> set ?bs \<union> {x}" unfolding ravl_elems_def i(1) by auto
  have "\<forall>y \<in> set ?as. key y < key d" using lo o(1) unfolding e by blast
  moreover have "\<forall>y \<in> set ?bs. key d < key y" using hi o(2) unfolding e by blast
  ultimately have "ascending key (inorder (root_of (RNode l k d r) ps))"
    unfolding i(2) ascending_append [of key ?as] ascending_Cons using o by auto
  moreover have "rank_rule False (root_of (RNode l k d r) ps)"
    using c(3) rank_rule_set_data [of False l k x r ps d] by (simp add: n)
  ultimately show "ravl_ok compare key (t\<lparr>rv_root := root_of (set_data (fst p) d) (snd p)\<rparr>)"
    using c(1) by (simp add: ravl_ok_def n)
  have "ravl_elems (t\<lparr>rv_root := root_of (set_data (fst p) d) (snd p)\<rparr>) = set (?as @ d # ?bs)"
    by (simp add: ravl_elems_def n i(2) del: set_append)
  also have "\<dots> = insert d (ravl_elems t - {x})" unfolding e using o(3) by auto
  finally show "ravl_elems (t\<lparr>rv_root := root_of (set_data (fst p) d) (snd p)\<rparr>) = insert d (ravl_elems t - {x})" .
  show "points_to (root_of (set_data (fst p) d) (snd p)) (set_data (fst p) d, snd p) d"
    by (simp add: n points_to_def ravl_data_def)
qed

end

end
