(* ===== verification/User_Buffers.thy ===== *)
theory User_Buffers
  imports Memops Ravl_Set
begin

text \<open>
  The registry of user-provided log buffers: which ranges the code accepts, and that the
  ranges in the tree stay disjoint unless one of them starts exactly where a new one ends.
\<close>

section \<open>Ranges\<close>

definition buf_start :: "user_buffer_def \<Rightarrow> nat" where "buf_start r = unat (fst r)"
definition buf_end :: "user_buffer_def \<Rightarrow> nat" where "buf_end r = unat (fst r) + unat (snd r)"

definition buf_ok :: "user_buffer_def \<Rightarrow> bool" where
  "buf_ok r \<longleftrightarrow> buf_start r < buf_end r \<and> buf_end r < 2 ^ 64"

definition overlap :: "user_buffer_def \<Rightarrow> user_buffer_def \<Rightarrow> bool" where
  "overlap r s \<longleftrightarrow> buf_start r < buf_end s \<and> buf_start s < buf_end r"

definition buffers_ok :: "user_buffers \<Rightarrow> bool" where
  "buffers_ok ub \<longleftrightarrow>
     ravl_ok operation_user_buffer_range_cmp fst (ub_map ub) \<and>
     (\<forall>r \<in> ravl_elems (ub_map ub). buf_ok r) \<and>
     (\<forall>r \<in> ravl_elems (ub_map ub). \<forall>s \<in> ravl_elems (ub_map ub). r \<noteq> s \<longrightarrow> \<not> overlap r s)"

interpretation userbuf_order: ravl_order operation_user_buffer_range_cmp fst
  by unfold_locales (auto simp: operation_user_buffer_range_cmp_def)

lemma unat_buf_end: "buf_ok r \<Longrightarrow> unat (fst r + snd r) = buf_end r"
  by (subst unat_add_small) (simp_all add: buf_ok_def buf_end_def)

lemma less_equal_flags [simp]:
  "RAVL_PREDICATE_LESS RAVL_LESS_EQUAL" "\<not> RAVL_PREDICATE_GREATER RAVL_LESS_EQUAL" "RAVL_PREDICATE_EQUAL RAVL_LESS_EQUAL"
  by (simp_all add: RAVL_LESS_EQUAL_def)

lemma equal_flags [simp]:
  "\<not> RAVL_PREDICATE_LESS RAVL_EQUAL" "\<not> RAVL_PREDICATE_GREATER RAVL_EQUAL" "RAVL_PREDICATE_EQUAL RAVL_EQUAL"
  by (simp_all add: RAVL_EQUAL_def)

section \<open>Insertion\<close>

text \<open>If no range starts at the end of the new one, the range found decides about all of them.\<close>

lemma try_insert_search:
  assumes ub: "buffers_ok ub" and r: "buf_ok r" and adj: "\<forall>s \<in> ravl_elems (ub_map ub). buf_start s \<noteq> buf_end r"
  shows "(case Option.bind (ravl_find (ub_map ub) (fst r + snd r, 0) RAVL_LESS_EQUAL) ravl_data of
            None \<Rightarrow> False | Some s \<Rightarrow> fst s + snd s > fst r \<and> fst s < fst r + snd r) \<longleftrightarrow>
    (\<exists>s \<in> ravl_elems (ub_map ub). overlap r s)"
proof -
  let ?S = "ravl_elems (ub_map ub)" and ?e = "fst r + snd r"
  have ok: "ravl_ok operation_user_buffer_range_cmp fst (ub_map ub)" "\<forall>s \<in> ?S. buf_ok s"
      "\<forall>s \<in> ?S. \<forall>t \<in> ?S. s \<noteq> t \<longrightarrow> \<not> overlap s t"
    using ub by (simp_all add: buffers_ok_def)
  have e: "unat ?e = buf_end r" by (rule unat_buf_end [OF r])
  have le: "fst s \<le> ?e \<longleftrightarrow> buf_start s < buf_end r" if "s \<in> ?S" for s
    using that adj e by (auto simp: word_le_nat_alt buf_start_def less_le)
  show ?thesis
  proof (cases rule: userbuf_order.find_less_ok [OF ok(1) less_equal_flags(1,2), of "(?e, 0)", case_names none found])
    case none
    then have "\<forall>s \<in> ?S. \<not> fst s \<le> ?e" by (auto simp: le_less)
    then have "\<not> (\<exists>s \<in> ?S. overlap r s)" using le by (auto simp: overlap_def)
    then show ?thesis using none by simp
  next
    case (found p s)
    have s: "fst s \<le> ?e" "\<forall>t \<in> ?S. fst t \<le> ?e \<longrightarrow> fst t \<le> fst s" using found by (auto simp: le_less)
    have se: "unat (fst s + snd s) = buf_end s" using ok(2) found(3) by (simp add: unat_buf_end)
    have "buf_end s > buf_start r \<longleftrightarrow> (\<exists>t \<in> ?S. overlap r t)"
    proof
      assume "buf_end s > buf_start r"
      then show "\<exists>t \<in> ?S. overlap r t" using le [OF found(3)] s(1) found(3) by (auto simp: overlap_def)
    next
      assume "\<exists>t \<in> ?S. overlap r t"
      then obtain t where t: "t \<in> ?S" "buf_start r < buf_end t" "buf_start t < buf_end r" by (auto simp: overlap_def)
      show "buf_end s > buf_start r"
      proof (cases "t = s")
        case False
        have "buf_start t \<le> buf_start s" using s(2) t(1,3) le [OF t(1)] by (auto simp: word_le_nat_alt buf_start_def)
        moreover have "\<not> overlap t s" using ok(3) t(1) found(3) False by blast
        moreover have "buf_ok s" using ok(2) found(3) by blast
        ultimately show ?thesis using t(2) by (auto simp: overlap_def buf_ok_def)
      qed (use t in simp)
    qed
    moreover have "fst s < ?e" using le [OF found(3)] s(1) e by (simp add: word_less_nat_alt buf_start_def)
    moreover have "fst s + snd s > fst r \<longleftrightarrow> buf_end s > buf_start r" by (simp add: word_less_nat_alt se buf_start_def)
    ultimately show ?thesis using found(1) points_to_data [OF found(2)] by simp
  qed
qed

lemma overlap_start: "buf_ok r \<Longrightarrow> buf_ok s \<Longrightarrow> fst r = fst s \<Longrightarrow> overlap r s"
  by (simp add: overlap_def buf_ok_def buf_start_def buf_end_def)

lemma overlap_sym: "overlap r s = overlap s r"
  by (auto simp: overlap_def)

section \<open>Theorems\<close>

text \<open>
  C16: As long as no registered range starts exactly at the end of the new one, a range is
  registered if and only if it overlaps none of the registered ranges; the registered ranges
  stay pairwise disjoint, and a refused range leaves the registry alone.
\<close>

theorem try_insert_keeps_disjoint:
  assumes ub: "buffers_ok ub" "ub_verify ub" and r: "buf_ok r"
    and adj: "\<forall>s \<in> ravl_elems (ub_map ub). buf_start s \<noteq> buf_end r"
  shows "if \<exists>s \<in> ravl_elems (ub_map ub). overlap r s
    then operation_user_buffer_try_insert True ub r = (Inl FAIL, ub)
    else \<exists>ub'. operation_user_buffer_try_insert True ub r = (Inr (), ub') \<and> buffers_ok ub' \<and>
      ravl_elems (ub_map ub') = insert r (ravl_elems (ub_map ub))"
proof (cases "\<exists>s \<in> ravl_elems (ub_map ub). overlap r s")
  case True
  then show ?thesis using try_insert_search [OF ub(1) r adj] ub(2)
    by (simp add: operation_user_buffer_try_insert_def Let_def)
next
  case False
  let ?S = "ravl_elems (ub_map ub)"
  have ok: "ravl_ok operation_user_buffer_range_cmp fst (ub_map ub)" "\<forall>s \<in> ?S. buf_ok s"
      "\<forall>s \<in> ?S. \<forall>t \<in> ?S. s \<noteq> t \<longrightarrow> \<not> overlap s t"
    using ub(1) by (simp_all add: buffers_ok_def)
  have new: "fst r \<notin> fst ` ?S" using False overlap_start [OF r] ok(2) by fastforce
  show ?thesis
  proof (cases rule: userbuf_order.emplace_ok [OF ok(1), of r, case_names present added])
    case present
    then show ?thesis using new by blast
  next
    case (added t1)
    have "operation_user_buffer_try_insert True ub r = (Inr (), ub\<lparr>ub_map := t1\<rparr>)"
      using try_insert_search [OF ub(1) r adj] ub(2) False added(1)
      by (simp add: operation_user_buffer_try_insert_def Let_def)
    moreover have "buffers_ok (ub\<lparr>ub_map := t1\<rparr>)"
      unfolding buffers_ok_def using added(3,4) ok(2,3) r False overlap_sym by auto
    ultimately show ?thesis using False added(4) by auto
  qed
qed

text \<open>
  C17: Removing a registered range by its address takes exactly this range out of the
  registry and keeps the others disjoint.  With an unknown address the call does not return:
  the code asserts that the range is found and otherwise dereferences a null pointer.
\<close>

theorem buffer_remove_correct:
  assumes ub: "buffers_ok ub" "ub_verify ub"
  shows "if a \<in> fst ` ravl_elems (ub_map ub)
    then \<exists>ub'. operation_user_buffer_remove ub a = (Inr (), ub') \<and> buffers_ok ub' \<and>
      ravl_elems (ub_map ub') = {r \<in> ravl_elems (ub_map ub). fst r \<noteq> a}
    else operation_user_buffer_remove ub a = (Inl ABORT, ub)"
proof -
  let ?S = "ravl_elems (ub_map ub)"
  have ok: "ravl_ok operation_user_buffer_range_cmp fst (ub_map ub)" "\<forall>s \<in> ?S. buf_ok s"
      "\<forall>s \<in> ?S. \<forall>t \<in> ?S. s \<noteq> t \<longrightarrow> \<not> overlap s t"
    using ub(1) by (simp_all add: buffers_ok_def)
  show ?thesis
  proof (cases rule: userbuf_order.find_equal_ok [OF ok(1) equal_flags(3,2,1), of "(a, 0)", case_names none found])
    case none
    then show ?thesis using ub(2) by (simp add: operation_user_buffer_remove_def)
  next
    case (found p s)
    note rm = userbuf_order.remove_ok [OF ok(1) found(2)]
    have "r = s" if "r \<in> ?S" "fst r = a" for r
      using that found(3,4) ok(2,3) overlap_start [of r s] by auto
    then have "?S - {s} = {r \<in> ?S. fst r \<noteq> a}" using found(4) by auto
    then show ?thesis
      using ub(2) found rm ok(2,3) by (force simp: operation_user_buffer_remove_def buffers_ok_def)
  qed
qed

section \<open>An example\<close>

definition ex_buffers :: user_buffers where
  "ex_buffers = \<lparr> ub_verify = True,
     ub_map = \<lparr> rv_root = RNode RNil 1 (0x1000, 0x1000) (RNode RNil 0 (0x2000, 0x1000) RNil),
                rv_compare = operation_user_buffer_range_cmp \<rparr> \<rparr>"

lemma ex_buffers_ok: "buffers_ok ex_buffers" "ub_verify ex_buffers"
  "ravl_elems (ub_map ex_buffers) = {(0x1000, 0x1000), (0x2000, 0x1000)}"
  by (simp_all add: buffers_ok_def ex_buffers_def ravl_ok_def ravl_elems_def ascending_def rank_gap_def buf_ok_def
      overlap_def buf_start_def buf_end_def)

theorem try_insert_keeps_disjoint_witness:
  "operation_user_buffer_try_insert True ex_buffers (0x1800, 0x400) = (Inl FAIL, ex_buffers) \<and>
   (\<exists>ub'. operation_user_buffer_try_insert True ex_buffers (0x4000, 0x400) = (Inr (), ub') \<and> buffers_ok ub')"
proof
  have "buf_ok (0x1800, 0x400)" "\<exists>s \<in> ravl_elems (ub_map ex_buffers). overlap (0x1800, 0x400) s"
      "\<forall>s \<in> ravl_elems (ub_map ex_buffers). buf_start s \<noteq> buf_end (0x1800, 0x400)"
    unfolding ex_buffers_ok(3) by (simp_all add: buf_ok_def overlap_def buf_start_def buf_end_def)
  then show "operation_user_buffer_try_insert True ex_buffers (0x1800, 0x400) = (Inl FAIL, ex_buffers)"
    using try_insert_keeps_disjoint [OF ex_buffers_ok(1,2), of "(0x1800, 0x400)"] by simp
  have "buf_ok (0x4000, 0x400)" "\<not> (\<exists>s \<in> ravl_elems (ub_map ex_buffers). overlap (0x4000, 0x400) s)"
      "\<forall>s \<in> ravl_elems (ub_map ex_buffers). buf_start s \<noteq> buf_end (0x4000, 0x400)"
    unfolding ex_buffers_ok(3) by (simp_all add: buf_ok_def overlap_def buf_start_def buf_end_def)
  then show "\<exists>ub'. operation_user_buffer_try_insert True ex_buffers (0x4000, 0x400) = (Inr (), ub') \<and> buffers_ok ub'"
    using try_insert_keeps_disjoint [OF ex_buffers_ok(1,2), of "(0x4000, 0x400)"] by (auto split: if_splits)
qed

theorem buffer_remove_correct_witness:
  "\<exists>ub'. operation_user_buffer_remove ex_buffers 0x1000 = (Inr (), ub') \<and> buffers_ok ub' \<and>
     ravl_elems (ub_map ub') = {(0x2000, 0x1000)}"
proof -
  have "{r \<in> ravl_elems (ub_map ex_buffers). fst r \<noteq> 0x1000} = {(0x2000, 0x1000)}" "0x1000 \<in> fst ` ravl_elems (ub_map ex_buffers)"
    unfolding ex_buffers_ok(3) by auto
  then show ?thesis using buffer_remove_correct [OF ex_buffers_ok(1,2), of "0x1000"] by simp
qed

text \<open>
  C20: If a registered range starts exactly at the end of a new one, the search finds that
  range and looks at no other.  Then only a range with the same start address as the new
  one makes the call fail, because the tree has that key already.  In every other case the
  new range is registered, even if it overlaps other registered ranges.
\<close>

theorem try_insert_misses_overlap:
  assumes ub: "buffers_ok ub" "ub_verify ub"
    and s: "s \<in> ravl_elems (ub_map ub)" "fst s = fst r + snd r"
  shows "if fst r \<in> fst ` ravl_elems (ub_map ub)
    then operation_user_buffer_try_insert True ub r = (Inl FAIL, ub)
    else \<exists>ub'. operation_user_buffer_try_insert True ub r = (Inr (), ub') \<and>
      ravl_elems (ub_map ub') = insert r (ravl_elems (ub_map ub))"
proof -
  have ok: "ravl_ok operation_user_buffer_range_cmp fst (ub_map ub)" using ub(1) by (simp add: buffers_ok_def)
  have search: "\<not> (case Option.bind (ravl_find (ub_map ub) (fst r + snd r, 0) RAVL_LESS_EQUAL) ravl_data of
      None \<Rightarrow> False | Some t \<Rightarrow> fst t + snd t > fst r \<and> fst t < fst r + snd r)"
  proof (cases rule: userbuf_order.find_less_ok [OF ok less_equal_flags(1,2), of "(fst r + snd r, 0)", case_names none found])
    case none
    then show ?thesis by simp
  next
    case (found p t)
    then have "fst s \<le> fst t" using s by auto
    then show ?thesis using found(1) points_to_data [OF found(2)] s(2) by (simp add: not_less)
  qed
  show ?thesis
  proof (cases rule: userbuf_order.emplace_ok [OF ok, of r, case_names present added])
    case present
    then show ?thesis using search ub(2) by (simp add: operation_user_buffer_try_insert_def Let_def)
  next
    case (added t1)
    then have "operation_user_buffer_try_insert True ub r = (Inr (), ub\<lparr>ub_map := t1\<rparr>)"
      using search ub(2) by (simp add: operation_user_buffer_try_insert_def Let_def)
    then show ?thesis using added(2,4) by auto
  qed
qed

theorem try_insert_misses_overlap_witness:
  "overlap (0x1000, 0x1000) (0x1800, 0x800) \<and>
   (\<exists>ub'. operation_user_buffer_try_insert True ex_buffers (0x1800, 0x800) = (Inr (), ub') \<and>
      ravl_elems (ub_map ub') = {(0x1800, 0x800), (0x1000, 0x1000), (0x2000, 0x1000)}) \<and>
   operation_user_buffer_try_insert True ex_buffers (0x1000, 0x1000) = (Inl FAIL, ex_buffers)"
proof (intro conjI)
  show "overlap (0x1000, 0x1000) (0x1800, 0x800)" by (simp add: overlap_def buf_start_def buf_end_def)
  have s: "(0x2000, 0x1000) \<in> ravl_elems (ub_map ex_buffers)" unfolding ex_buffers_ok(3) by simp
  note t = try_insert_misses_overlap [OF ex_buffers_ok(1,2) s]
  have "fst (0x1800, 0x800) \<notin> fst ` ravl_elems (ub_map ex_buffers)" unfolding ex_buffers_ok(3) by auto
  then show "\<exists>ub'. operation_user_buffer_try_insert True ex_buffers (0x1800, 0x800) = (Inr (), ub') \<and>
      ravl_elems (ub_map ub') = {(0x1800, 0x800), (0x1000, 0x1000), (0x2000, 0x1000)}"
    using t [of "(0x1800, 0x800)"] unfolding ex_buffers_ok(3) by simp
  have "fst (0x1000, 0x1000) \<in> fst ` ravl_elems (ub_map ex_buffers)" unfolding ex_buffers_ok(3) by simp
  then show "operation_user_buffer_try_insert True ex_buffers (0x1000, 0x1000) = (Inl FAIL, ex_buffers)"
    using t [of "(0x1000, 0x1000)"] by simp
qed

end
