(* ===== verification/Container_Ravl.thy ===== *)
theory Container_Ravl
  imports Ravl_Set "HOL-Library.Product_Lexorder"
begin

text \<open>
  The block container of the allocator's buckets (libpmemobj/container_ravl.c): the free
  blocks of a heap in a tree ordered by size and then by position.  The tree holds
  pointers to copies of the blocks which live in the free memory of the blocks themselves;
  here it holds the blocks.  The difference shows only if two blocks at the same position
  are in the container at once, since the second copy overwrites the first; the free blocks
  of a heap are disjoint.
\<close>

section \<open>The container\<close>

record memory_block =
  mb_chunk_id :: u32
  mb_zone_id :: u32
  mb_size_idx :: u32
  mb_block_off :: u32

text \<open>The differences of 32-bit fields are computed on 64 bits and do not overflow.\<close>

definition container_compare_memblocks :: "memory_block \<Rightarrow> memory_block \<Rightarrow> int" where
  "container_compare_memblocks l r =
     (let diff = uint (mb_size_idx l) - uint (mb_size_idx r)
      in if diff \<noteq> 0 then (if diff > 0 then 1 else - 1)
         else let diff = uint (mb_zone_id l) - uint (mb_zone_id r)
         in if diff \<noteq> 0 then (if diff > 0 then 1 else - 1)
         else let diff = uint (mb_chunk_id l) - uint (mb_chunk_id r)
         in if diff \<noteq> 0 then (if diff > 0 then 1 else - 1)
         else let diff = uint (mb_block_off l) - uint (mb_block_off r)
         in if diff \<noteq> 0 then (if diff > 0 then 1 else - 1)
         else 0)"

type_synonym block_container = "memory_block ravl"

definition container_new_ravl :: "bool \<Rightarrow> block_container option" where
  "container_new_ravl mem_ok = (if mem_ok then Some (ravl_new container_compare_memblocks) else None)"

definition container_ravl_insert_block :: "bool \<Rightarrow> block_container \<Rightarrow> memory_block \<Rightarrow> (err + unit) \<times> block_container" where
  "container_ravl_insert_block mem_ok c m = ravl_emplace mem_ok c m"

definition RAVL_GREATER_EQUAL :: ravl_predicate where
  "RAVL_GREATER_EQUAL = \<lparr> RAVL_PREDICATE_EQUAL = True, RAVL_PREDICATE_GREATER = True, RAVL_PREDICATE_LESS = False \<rparr>"

definition RAVL_EXACT :: ravl_predicate where
  "RAVL_EXACT = \<lparr> RAVL_PREDICATE_EQUAL = True, RAVL_PREDICATE_GREATER = False, RAVL_PREDICATE_LESS = False \<rparr>"

definition container_ravl_get_rm_block_bestfit ::
  "block_container \<Rightarrow> memory_block \<Rightarrow> (err + memory_block) \<times> block_container" where
  "container_ravl_get_rm_block_bestfit c m =
     (case ravl_find c m RAVL_GREATER_EQUAL of
        None \<Rightarrow> (Inl ENOMEM, c)
      | Some n \<Rightarrow>
          (case ravl_data n of
             None \<Rightarrow> (Inl ABORT, c)
           | Some e \<Rightarrow> (Inr e, ravl_remove c n)))"

definition container_ravl_get_rm_block_exact ::
  "block_container \<Rightarrow> memory_block \<Rightarrow> (err + unit) \<times> block_container" where
  "container_ravl_get_rm_block_exact c m =
     (case ravl_find c m RAVL_EXACT of
        None \<Rightarrow> (Inl ENOMEM, c)
      | Some n \<Rightarrow> (Inr (), ravl_remove c n))"

definition container_ravl_is_empty :: "block_container \<Rightarrow> bool" where
  "container_ravl_is_empty c = ravl_empty c"

definition container_ravl_rm_all :: "block_container \<Rightarrow> block_container" where
  "container_ravl_rm_all c = ravl_clear c"

section \<open>The order of blocks\<close>

definition memblock_key :: "memory_block \<Rightarrow> u32 \<times> u32 \<times> u32 \<times> u32" where
  "memblock_key m = (mb_size_idx m, mb_zone_id m, mb_chunk_id m, mb_block_off m)"

lemma memblock_key_inj: "memblock_key x = memblock_key y \<Longrightarrow> x = y"
  by (cases x; cases y) (simp add: memblock_key_def)

lemma uint_diff: "uint a - uint b \<noteq> 0 \<longleftrightarrow> a \<noteq> b" "uint a - uint b > 0 \<longleftrightarrow> b < a" for a b :: u32
  by (simp_all add: word_uint_eq_iff word_less_def)

lemma lex_step:
  fixes a b :: "'a :: linorder" and p q :: "'b :: linorder"
  shows "(if a \<noteq> b then (if b < a then 1 else - 1) else (if p = q then 0 else if p < q then - 1 else 1)) =
    (if (a, p) = (b, q) then 0 else if (a, p) < (b, q) then - 1 else (1 :: int))"
  by (cases a b rule: linorder_cases) (auto simp: less_prod_def)

lemma compare_memblocks_key:
  "container_compare_memblocks x y =
     (if memblock_key x = memblock_key y then 0 else if memblock_key x < memblock_key y then - 1 else 1)"
proof -
  have "(if a \<noteq> b then (if b < a then 1 else - 1) else 0) = (if a = b then 0 else if a < b then - 1 else (1 :: int))" for a b :: u32
    by (cases a b rule: linorder_cases) auto
  then show ?thesis
    unfolding container_compare_memblocks_def memblock_key_def Let_def uint_diff by (simp only: lex_step)
qed

interpretation memblock_order: ravl_order container_compare_memblocks memblock_key
  by unfold_locales (simp_all add: compare_memblocks_key)

definition container_ok :: "block_container \<Rightarrow> bool" where
  "container_ok c \<longleftrightarrow> ravl_ok container_compare_memblocks memblock_key c"

lemma container_key_elem: "memblock_key m \<in> memblock_key ` ravl_elems c \<longleftrightarrow> m \<in> ravl_elems c"
  using memblock_key_inj by auto

end
