(* ===== verification/Container_Theorems.thy ===== *)
theory Container_Theorems
  imports Container_Ravl
begin

text \<open>
  The theorems about the relaxed AVL tree and the block container.
\<close>

section \<open>The container as a set of blocks\<close>

datatype container_op = Insert memory_block | Bestfit memory_block | Exact memory_block | Clear

definition container_step :: "container_op \<Rightarrow> block_container \<Rightarrow> (err + memory_block option) \<times> block_container" where
  "container_step x c =
     (case x of
        Insert m \<Rightarrow> (case container_ravl_insert_block True c m of (r, c1) \<Rightarrow> (map_sum id (\<lambda>_. None) r, c1))
      | Bestfit m \<Rightarrow> (case container_ravl_get_rm_block_bestfit c m of (r, c1) \<Rightarrow> (map_sum id Some r, c1))
      | Exact m \<Rightarrow> (case container_ravl_get_rm_block_exact c m of (r, c1) \<Rightarrow> (map_sum id (\<lambda>_. None) r, c1))
      | Clear \<Rightarrow> (Inr None, container_ravl_rm_all c))"

fun key_memblock :: "u32 \<times> u32 \<times> u32 \<times> u32 \<Rightarrow> memory_block" where
  "key_memblock (s, z, c, b) = \<lparr> mb_chunk_id = c, mb_zone_id = z, mb_size_idx = s, mb_block_off = b \<rparr>"

lemma key_memblock [simp]: "key_memblock (memblock_key m) = m"
  by (simp add: memblock_key_def)

text \<open>The smallest block that is large enough, and among those the one at the lowest address.\<close>

definition best_fit :: "memory_block \<Rightarrow> memory_block set \<Rightarrow> memory_block option" where
  "best_fit m S =
     (let T = {k \<in> memblock_key ` S. memblock_key m \<le> k} in if T = {} then None else Some (key_memblock (Min T)))"

definition set_step :: "container_op \<Rightarrow> memory_block set \<Rightarrow> (err + memory_block option) \<times> memory_block set" where
  "set_step x S =
     (case x of
        Insert m \<Rightarrow> if m \<in> S then (Inl EEXIST, S) else (Inr None, insert m S)
      | Bestfit m \<Rightarrow> (case best_fit m S of None \<Rightarrow> (Inl ENOMEM, S) | Some e \<Rightarrow> (Inr (Some e), S - {e}))
      | Exact m \<Rightarrow> if m \<in> S then (Inr None, S - {m}) else (Inl ENOMEM, S)
      | Clear \<Rightarrow> (Inr None, {}))"

primrec run_steps :: "('o \<Rightarrow> 's \<Rightarrow> 'r \<times> 's) \<Rightarrow> 'o list \<Rightarrow> 's \<Rightarrow> 'r list \<times> 's" where
  "run_steps f [] s = ([], s)"
| "run_steps f (x # xs) s = (let (r, s1) = f x s; (rs, s2) = run_steps f xs s1 in (r # rs, s2))"

lemma finite_elems: "finite (ravl_elems c)"
  by (simp add: ravl_elems_def)

lemma best_fit_found:
  assumes "e \<in> ravl_elems c" "memblock_key m \<le> memblock_key e"
    and "\<forall>y \<in> ravl_elems c. memblock_key m \<le> memblock_key y \<longrightarrow> memblock_key e \<le> memblock_key y"
  shows "best_fit m (ravl_elems c) = Some e"
proof -
  let ?T = "{k \<in> memblock_key ` ravl_elems c. memblock_key m \<le> k}"
  have "Min ?T = memblock_key e" using assms finite_elems [of c] by (intro Min_eqI) auto
  moreover have "memblock_key e \<in> ?T" using assms(1,2) by blast
  then have "?T \<noteq> {}" by blast
  ultimately show ?thesis by (simp add: best_fit_def Let_def del: Collect_empty_eq)
qed

lemma bestfit_step:
  assumes "container_ok c"
  shows "fst (container_step (Bestfit m) c) = fst (set_step (Bestfit m) (ravl_elems c)) \<and>
    ravl_elems (snd (container_step (Bestfit m) c)) = snd (set_step (Bestfit m) (ravl_elems c)) \<and>
    container_ok (snd (container_step (Bestfit m) c))"
proof -
  have ok: "ravl_ok container_compare_memblocks memblock_key c" using assms by (simp add: container_ok_def)
  have f: "RAVL_PREDICATE_GREATER RAVL_GREATER_EQUAL" "\<not> RAVL_PREDICATE_LESS RAVL_GREATER_EQUAL" "RAVL_PREDICATE_EQUAL RAVL_GREATER_EQUAL"
    by (simp_all add: RAVL_GREATER_EQUAL_def)
  show ?thesis
  proof (cases rule: memblock_order.find_greater_ok [OF ok f(1,2), of m, case_names none found])
    case none
    then have "\<forall>x \<in> ravl_elems c. \<not> memblock_key m \<le> memblock_key x" using f(3) by auto
    then have "best_fit m (ravl_elems c) = None" by (auto simp: best_fit_def Let_def)
    then show ?thesis using none assms
      by (simp add: container_step_def set_step_def container_ravl_get_rm_block_bestfit_def)
  next
    case (found p e)
    then have "best_fit m (ravl_elems c) = Some e" using f(3) by (intro best_fit_found) auto
    then show ?thesis
      using found memblock_order.remove_ok [OF ok found(2)] points_to_data [OF found(2)]
      by (simp add: container_step_def set_step_def container_ravl_get_rm_block_bestfit_def container_ok_def)
  qed
qed

lemma exact_step:
  assumes "container_ok c"
  shows "fst (container_step (Exact m) c) = fst (set_step (Exact m) (ravl_elems c)) \<and>
    ravl_elems (snd (container_step (Exact m) c)) = snd (set_step (Exact m) (ravl_elems c)) \<and>
    container_ok (snd (container_step (Exact m) c))"
proof -
  have ok: "ravl_ok container_compare_memblocks memblock_key c" using assms by (simp add: container_ok_def)
  have f: "RAVL_PREDICATE_EQUAL RAVL_EXACT" "\<not> RAVL_PREDICATE_GREATER RAVL_EXACT" "\<not> RAVL_PREDICATE_LESS RAVL_EXACT"
    by (simp_all add: RAVL_EXACT_def)
  show ?thesis
  proof (cases rule: memblock_order.find_equal_ok [OF ok f, of m, case_names none found])
    case none
    then show ?thesis using assms container_key_elem [of m c]
      by (simp add: container_step_def set_step_def container_ravl_get_rm_block_exact_def)
  next
    case (found p e)
    have "e = m" using found(4) by (rule memblock_key_inj)
    then show ?thesis
      using found memblock_order.remove_ok [OF ok found(2)]
      by (simp add: container_step_def set_step_def container_ravl_get_rm_block_exact_def container_ok_def)
  qed
qed

lemma insert_step:
  assumes "container_ok c"
  shows "fst (container_step (Insert m) c) = fst (set_step (Insert m) (ravl_elems c)) \<and>
    ravl_elems (snd (container_step (Insert m) c)) = snd (set_step (Insert m) (ravl_elems c)) \<and>
    container_ok (snd (container_step (Insert m) c))"
proof -
  have ok: "ravl_ok container_compare_memblocks memblock_key c" using assms by (simp add: container_ok_def)
  show ?thesis
  proof (cases rule: memblock_order.emplace_ok [OF ok, of m, case_names present added])
    case present
    then show ?thesis using assms container_key_elem [of m c]
      by (simp add: container_step_def set_step_def container_ravl_insert_block_def)
  next
    case (added c1)
    then show ?thesis using container_key_elem [of m c]
      by (simp add: container_step_def set_step_def container_ravl_insert_block_def container_ok_def)
  qed
qed

lemma container_step_set:
  assumes "container_ok c"
  shows "fst (container_step x c) = fst (set_step x (ravl_elems c)) \<and>
    ravl_elems (snd (container_step x c)) = snd (set_step x (ravl_elems c)) \<and> container_ok (snd (container_step x c))"
proof (cases x)
  case Clear
  then show ?thesis using assms ravl_clear_ok(1) [of container_compare_memblocks memblock_key c] ravl_clear_ok(2) [of c]
    by (simp add: container_step_def set_step_def container_ravl_rm_all_def container_ok_def)
qed (use assms insert_step bestfit_step exact_step in simp_all)

lemma container_run_set:
  "container_ok c \<Longrightarrow>
   fst (run_steps container_step xs c) = fst (run_steps set_step xs (ravl_elems c)) \<and>
   ravl_elems (snd (run_steps container_step xs c)) = snd (run_steps set_step xs (ravl_elems c)) \<and>
   container_ok (snd (run_steps container_step xs c))"
proof (induction xs arbitrary: c)
  case (Cons x xs)
  obtain r c1 where s: "container_step x c = (r, c1)" by (cases "container_step x c")
  have st: "set_step x (ravl_elems c) = (r, ravl_elems c1)" "container_ok c1"
    using container_step_set [OF Cons.prems, of x] by (simp_all add: s prod_eq_iff)
  show ?case using Cons.IH [OF st(2)] by (auto simp: s st(1) split: prod.split)
qed simp

section \<open>Theorems\<close>

text \<open>
  C14: The block container implements a set of free blocks: for every sequence of
  insertions, exact and best-fit removals, from the empty container on, the results are
  those of the same operations on a set, where best fit takes the smallest block that is
  large enough and among those the one at the lowest position.  The tree stays ordered and
  keeps the rank rule.
\<close>

theorem container_refines_set:
  "\<exists>c. container_new_ravl True = Some c \<and>
    fst (run_steps container_step xs c) = fst (run_steps set_step xs {}) \<and>
    ravl_elems (snd (run_steps container_step xs c)) = snd (run_steps set_step xs {}) \<and>
    container_ok (snd (run_steps container_step xs c))"
proof -
  let ?c = "ravl_new container_compare_memblocks"
  have "container_ok ?c" "ravl_elems ?c = {}" unfolding container_ok_def by (rule ravl_new_ok)+
  then show ?thesis using container_run_set [of ?c xs] by (simp add: container_new_ravl_def)
qed

text \<open>
  C15: The tree of a container into which blocks have only been inserted is balanced: its
  height \<open>h\<close> and the number \<open>n\<close> of its blocks satisfy \<open>2 ^ h \<le> (n + 1) ^ 2\<close>, so \<open>h\<close> is at most
  twice the binary logarithm of \<open>n + 1\<close>.
\<close>

theorem container_height_bound:
  "let t = rv_root (snd (run_steps container_step (map Insert ms) (ravl_new container_compare_memblocks)))
   in 2 ^ tree_height t \<le> (length (inorder t) + 1) ^ 2"
proof -
  have r: "rank_rule True (rv_root c) \<Longrightarrow> rank_rule True (rv_root (snd (run_steps container_step (map Insert ms) c)))" for c
  proof (induction ms arbitrary: c)
    case (Cons m ms)
    obtain e c1 where c1: "ravl_emplace True c m = (e, c1)" by (cases "ravl_emplace True c m")
    have "rank_rule True (rv_root c1)" using rank_rule_emplace [OF Cons.prems, of True m] by (simp add: c1)
    moreover have "container_step (Insert m) c = (map_sum id (\<lambda>_. None) e, c1)"
      by (simp add: container_step_def container_ravl_insert_block_def c1)
    ultimately show ?case using Cons.IH [of c1] by (auto split: prod.split)
  qed simp
  let ?t = "rv_root (snd (run_steps container_step (map Insert ms) (ravl_new container_compare_memblocks)))"
  have t: "rank_rule True ?t" by (rule r) (simp add: ravl_new_def)
  have "tree_height ?t \<le> nat (ravl_node_rank ?t + 1)" using height_le_rank [OF t] by linarith
  then have "(2 :: nat) ^ tree_height ?t \<le> 2 ^ nat (ravl_node_rank ?t + 1)" by (intro power_increasing) simp_all
  also have "\<dots> \<le> (length (inorder ?t) + 1) ^ 2" by (rule rank_le_size [OF t])
  finally show ?thesis by (simp only: Let_def)
qed

end
