(* ===== verification/Tx.thy ===== *)
theory Tx
  imports Memops
begin

text \<open>
  The snapshots of a transaction (libpmemobj/tx.c): the tree of ranges that have been added,
  the undo log entries made for them, the restoring of snapshots on abort and the flushing of
  the ranges on commit.  Addresses are 64-bit words, the pool is mapped at \<open>tx_base\<close>, and
  memories are indexed by offsets into the pool, as in memops.c.
\<close>

section \<open>Transactions\<close>

definition POBJ_FLAG_NO_FLUSH :: u64 where "POBJ_FLAG_NO_FLUSH = 2"
definition POBJ_FLAG_NO_SNAPSHOT :: u64 where "POBJ_FLAG_NO_SNAPSHOT = 4"
definition POBJ_FLAG_ASSUME_INITIALIZED :: u64 where "POBJ_FLAG_ASSUME_INITIALIZED = 8"
definition POBJ_FLAG_TX_NO_ABORT :: u64 where "POBJ_FLAG_TX_NO_ABORT = 16"

definition POBJ_XADD_VALID_FLAGS :: u64 where
  "POBJ_XADD_VALID_FLAGS =
     POBJ_FLAG_NO_FLUSH OR POBJ_FLAG_NO_SNAPSHOT OR POBJ_FLAG_ASSUME_INITIALIZED OR POBJ_FLAG_TX_NO_ABORT"

definition PMEMOBJ_MAX_ALLOC_SIZE :: u64 where "PMEMOBJ_MAX_ALLOC_SIZE = 0x3FFDFFFC0"

definition RAVL_LESS :: ravl_predicate where
  "RAVL_LESS = \<lparr> RAVL_PREDICATE_EQUAL = False, RAVL_PREDICATE_GREATER = False, RAVL_PREDICATE_LESS = True \<rparr>"

datatype pobj_tx_stage = TX_STAGE_NONE | TX_STAGE_WORK | TX_STAGE_ONCOMMIT | TX_STAGE_ONABORT | TX_STAGE_FINALLY

record tx_range_def =
  tr_offset :: u64
  tr_size :: u64
  tr_flags :: u64

definition tx_range_def_cmp :: "tx_range_def \<Rightarrow> tx_range_def \<Rightarrow> int" where
  "tx_range_def_cmp l r =
     (if tr_offset l > tr_offset r then 1 else if tr_offset l < tr_offset r then - 1 else 0)"

text \<open>An action is published on commit; a new one is not initialised yet.\<close>

datatype pobj_action = ACTION_UNSET | ACTION_HEAP u64 | ACTION_MEM u64 u64

text \<open>
  The tree is \<open>None\<close> once it has been deleted.  \<open>tx_undo\<close> and \<open>tx_external\<close> are the undo
  context and the external redo context of the lane.
\<close>

record tx =
  tx_pop :: pool_bounds
  tx_base :: u64
  tx_uuid_lo :: u64
  tx_stage :: pobj_tx_stage
  tx_undo :: operation_context
  tx_external :: operation_context
  tx_locks :: "u64 list"
  tx_ranges :: "tx_range_def ravl option"
  tx_actions :: "pobj_action list"
  tx_redo_userbufs_capacity :: u64
  tx_first_snapshot :: bool

text \<open>
  How a call fails: an error number is returned and the transaction goes on; the transaction
  is aborted with an error number; the call does not return at all.
\<close>

datatype tx_fail = TX_RETURN err | TX_ABORT err | TX_STOP err

definition obj_tx_fail_err :: "err \<Rightarrow> u64 \<Rightarrow> tx_fail" where
  "obj_tx_fail_err errnum flags =
     (if flags AND POBJ_FLAG_TX_NO_ABORT = 0 then TX_ABORT errnum else TX_RETURN errnum)"

section \<open>Actions\<close>

text \<open>The size of a value entry is 16.\<close>

definition tx_action_reserve :: "tx \<Rightarrow> u64 \<Rightarrow> pmem \<Rightarrow> ((err + unit) \<times> tx \<times> pmem) option" where
  "tx_action_reserve tx n p =
     (let entries_size = (of_nat (length (tx_actions tx)) + n) * 16;
          rest = entries_size - min (tx_redo_userbufs_capacity tx) entries_size
      in Option.bind (operation_reserve (tx_external tx) rest p) (\<lambda>(x, ctx, p1).
           Some (x, tx\<lparr>tx_external := ctx\<rparr>, p1)))"

text \<open>
  The pointer to the last action is returned, its position, also when the vector could not
  grow (\<open>vec_ok\<close> is false); without any action it points outside of the vector.
\<close>

definition tx_action_add :: "bool \<Rightarrow> tx \<Rightarrow> pmem \<Rightarrow> ((err + nat) \<times> tx \<times> pmem) option" where
  "tx_action_add vec_ok tx p =
     Option.bind (tx_action_reserve tx 1 p) (\<lambda>(x, tx1, p1).
       Some (case x of
               Inl e \<Rightarrow> (Inl e, tx1, p1)
             | Inr _ \<Rightarrow>
                 (let acts = (if vec_ok then tx_actions tx1 @ [ACTION_UNSET] else tx_actions tx1)
                  in if acts = [] then (Inl ABORT, tx1, p1)
                     else (Inr (length acts - 1), tx1\<lparr>tx_actions := acts\<rparr>, p1))))"

definition palloc_set_value :: "tx \<Rightarrow> nat \<Rightarrow> u64 \<Rightarrow> u64 \<Rightarrow> tx" where
  "palloc_set_value tx act ptr value = tx\<lparr>tx_actions := (tx_actions tx)[act := ACTION_MEM ptr value]\<rparr>"

section \<open>Restoring snapshots\<close>

text \<open>
  \<open>tx_remove_range\<close>: \<open>front\<close> are the ranges inserted at the head of the list, \<open>kept\<close> those
  that the loop has passed.
\<close>

fun remove_range_loop ::
  "bool \<Rightarrow> u64 \<Rightarrow> u64 \<Rightarrow> (u64 \<times> u64) list \<Rightarrow> (u64 \<times> u64) list \<Rightarrow> (u64 \<times> u64) list \<Rightarrow> err + (u64 \<times> u64) list" where
  "remove_range_loop mem_ok lbegin lend front kept [] = Inr (front @ kept)"
| "remove_range_loop mem_ok lbegin lend front kept ((b, e) # txr) =
     (if lbegin \<ge> e \<or> lend < b then remove_range_loop mem_ok lbegin lend front (kept @ [(b, e)]) txr
      else if (lbegin > b \<or> lend < e) \<and> \<not> mem_ok then Inl ABORT
      else (let front1 = (if lbegin > b then (b, lbegin) # front else front);
                front2 = (if lend < e then (lend, e) # front1 else front1)
            in remove_range_loop mem_ok lbegin lend front2 kept txr))"

definition tx_remove_range ::
  "bool \<Rightarrow> (u64 \<times> u64) list \<Rightarrow> u64 \<Rightarrow> u64 \<Rightarrow> err + (u64 \<times> u64) list" where
  "tx_remove_range mem_ok txr lbegin lend = remove_range_loop mem_ok lbegin lend [] [] txr"

text \<open>The loop over the locks of the transaction; a lock takes 64 bytes.\<close>

fun remove_locks :: "bool \<Rightarrow> u64 list \<Rightarrow> (u64 \<times> u64) list \<Rightarrow> err + (u64 \<times> u64) list" where
  "remove_locks mem_ok [] rs = Inr rs"
| "remove_locks mem_ok (lk # lks) rs =
     (case tx_remove_range mem_ok rs lk (lk + 64) of
        Inl e \<Rightarrow> Inl e
      | Inr rs1 \<Rightarrow> remove_locks mem_ok lks rs1)"

text \<open>The copies; \<open>e\<close> is the undo log entry and \<open>dst\<close> the address of its range.\<close>

fun restore_loop :: "u64 \<Rightarrow> u64 \<Rightarrow> u64 \<Rightarrow> (u64 \<times> u64) list \<Rightarrow> pmem \<Rightarrow> (err + unit) \<times> pmem" where
  "restore_loop base e dst [] p = (Inr (), p)"
| "restore_loop base e dst ((b, c) # rs) p =
     bind_io (ppersist (unat (b - base)) (rd (vis p) (unat (e + 24 + (b - dst))) (unat (c - b))) p)
       (\<lambda>_. restore_loop base e dst rs)"

definition tx_restore_range :: "bool \<Rightarrow> tx \<Rightarrow> u64 \<Rightarrow> pmem \<Rightarrow> (err + unit) \<times> pmem" where
  "tx_restore_range mem_ok tx e p =
     (if \<not> mem_ok then (Inl ABORT, p)
      else
        (let dst = tx_base tx + ulog_entry_offset (vis p) e;
             n = ld64 (vis p) (e + 16)
         in case remove_locks mem_ok (tx_locks tx) [(dst, dst + n)] of
              Inl err \<Rightarrow> (Inl err, p)
            | Inr rs \<Rightarrow> restore_loop (tx_base tx) e dst rs p))"

definition tx_undo_entry_apply :: "bool \<Rightarrow> tx \<Rightarrow> u64 \<Rightarrow> pmem \<Rightarrow> (err + int) \<times> pmem" where
  "tx_undo_entry_apply mem_ok tx e p =
     (if ulog_entry_type (vis p) e = ULOG_OPERATION_BUF_CPY
      then bind_io (tx_restore_range mem_ok tx e p) (\<lambda>_ p1. (Inr 0, p1))
      else (Inr 0, p))"

definition tx_abort_set :: "bool \<Rightarrow> ulog_fn \<Rightarrow> tx \<Rightarrow> pmem \<Rightarrow> ((err + tx) \<times> pmem) option" where
  "tx_abort_set mem_ok rm tx p =
     Option.bind (ulog_foreach_entry (oc_ulog (tx_undo tx)) (tx_undo_entry_apply mem_ok tx) p) (\<lambda>(x, p1).
       (case x of
          Inl e \<Rightarrow> Some (Inl e, p1)
        | Inr _ \<Rightarrow>
            Option.bind (operation_finish rm (tx_undo tx) ULOG_INC_FIRST_GEN_NUM p1) (\<lambda>(y, p2).
              Some (case y of Inl e \<Rightarrow> Inl e | Inr ctx \<Rightarrow> Inr (tx\<lparr>tx_undo := ctx\<rparr>), p2))))"

section \<open>Commit\<close>

text \<open>The flushes, \<open>(address, size)\<close>, in the order in which they are issued.\<close>

definition tx_flush_range :: "u64 \<Rightarrow> tx_range_def \<Rightarrow> (u64 \<times> u64) list \<Rightarrow> (u64 \<times> u64) list" where
  "tx_flush_range base rng flushes =
     (if tr_flags rng AND POBJ_FLAG_NO_FLUSH = 0 then flushes @ [(base + tr_offset rng, tr_size rng)]
      else flushes)"

text \<open>Without a tree, \<open>ravl_delete_cb\<close> dereferences a null pointer.\<close>

definition tx_pre_commit :: "tx \<Rightarrow> (err + (u64 \<times> u64) list) \<times> tx" where
  "tx_pre_commit tx =
     (case tx_ranges tx of
        None \<Rightarrow> (Inl ABORT, tx)
      | Some t \<Rightarrow> (Inr (ravl_delete_cb t (tx_flush_range (tx_base tx)) []), tx\<lparr>tx_ranges := None\<rparr>))"

definition tx_post_commit :: "ulog_fn \<Rightarrow> tx \<Rightarrow> pmem \<Rightarrow> ((err + tx) \<times> pmem) option" where
  "tx_post_commit rm tx p =
     Option.bind (operation_finish rm (tx_undo tx) 0 p) (\<lambda>(y, p1).
       Some (case y of Inl e \<Rightarrow> Inl e | Inr ctx \<Rightarrow> Inr (tx\<lparr>tx_undo := ctx\<rparr>), p1))"

section \<open>Adding ranges\<close>

definition tx_lane_ranges_insert_def ::
  "bool \<Rightarrow> tx_range_def ravl \<Rightarrow> tx_range_def \<Rightarrow> (err + unit) \<times> tx_range_def ravl" where
  "tx_lane_ranges_insert_def mem_ok ranges rdef =
     (case ravl_emplace mem_ok ranges rdef of
        (Inl e, t) \<Rightarrow> (Inl (if e = EEXIST then ABORT else e), t)
      | (Inr _, t) \<Rightarrow> (Inr (), t))"

text \<open>
  The first snapshot sets up an action that increments the generation number of the undo
  log, at offset 24 of its header.
\<close>

definition first_snapshot_action :: "bool \<Rightarrow> tx \<Rightarrow> pmem \<Rightarrow> ((err + unit) \<times> tx \<times> pmem) option" where
  "first_snapshot_action vec_ok tx p =
     (if tx_first_snapshot tx then
        Option.bind (tx_action_add vec_ok tx p) (\<lambda>(x, tx1, p1).
          Some (case x of
                  Inl e \<Rightarrow> (Inl e, tx1, p1)
                | Inr act \<Rightarrow>
                    (let n = oc_ulog (tx_undo tx1) + 24
                     in (Inr (), (palloc_set_value tx1 act (tx_base tx1 + n) (ld64 (vis p1) n + 1))
                               \<lparr>tx_first_snapshot := False\<rparr>, p1))))
      else Some (Inr (), tx, p))"

definition pmemobj_tx_add_snapshot ::
  "bool \<Rightarrow> tx \<Rightarrow> tx_range_def \<Rightarrow> pmem \<Rightarrow> ((err + unit) \<times> tx \<times> pmem) option" where
  "pmemobj_tx_add_snapshot vec_ok tx snapshot p =
     (if tr_flags snapshot AND POBJ_FLAG_NO_SNAPSHOT \<noteq> 0 then Some (Inr (), tx, p)
      else Option.bind (first_snapshot_action vec_ok tx p) (\<lambda>(x, tx1, p1).
             (case x of
                Inl e \<Rightarrow> Some (Inl e, tx1, p1)
              | Inr _ \<Rightarrow>
                  Option.bind (operation_add_buffer (tx_undo tx1) (tx_base tx1 + tr_offset snapshot)
                                 (rd (vis p1) (unat (tr_offset snapshot)) (unat (tr_size snapshot)))
                                 ULOG_OPERATION_BUF_CPY p1) (\<lambda>(y, ctx, p2). Some (y, tx1\<lparr>tx_undo := ctx\<rparr>, p2)))))"

definition pmemobj_tx_merge_flags :: "tx_range_def \<Rightarrow> tx_range_def \<Rightarrow> tx_range_def" where
  "pmemobj_tx_merge_flags dest merged =
     (if tr_flags dest AND POBJ_FLAG_NO_FLUSH \<noteq> 0 \<and> tr_flags merged AND POBJ_FLAG_NO_FLUSH = 0
      then dest\<lparr>tr_flags := tr_flags dest AND NOT POBJ_FLAG_NO_FLUSH\<rparr> else dest)"

text \<open>An assignment to the data of a node in the tree.\<close>

definition ravl_store :: "'a ravl \<Rightarrow> 'a node_ptr \<Rightarrow> 'a \<Rightarrow> 'a ravl" where
  "ravl_store t n d = t\<lparr>rv_root := root_of (set_data (fst n) d) (snd n)\<rparr>"

text \<open>
  A node that the loop holds while the tree changes is denoted by the offset of its range,
  which no other node has.
\<close>

definition range_node :: "tx_range_def ravl \<Rightarrow> u64 \<Rightarrow> (tx_range_def node_ptr \<times> tx_range_def) option" where
  "range_node t k =
     (case ravl_find t \<lparr> tr_offset = k, tr_size = 0, tr_flags = 0 \<rparr> RAVL_EQUAL of
        None \<Rightarrow> None
      | Some n \<Rightarrow> (case ravl_data n of None \<Rightarrow> None | Some d \<Rightarrow> Some (n, d)))"

text \<open>The range is not in touch with one on its left: extend the one on its right or insert it.\<close>

definition add_new_range ::
  "bool \<Rightarrow> tx_range_def \<Rightarrow> u64 option \<Rightarrow> tx_range_def ravl \<Rightarrow> (err + unit) \<times> tx_range_def ravl" where
  "add_new_range mem_ok r nprev t =
     (case Option.bind nprev (range_node t) of
        Some (n, fprev) \<Rightarrow>
          (Inr (), ravl_store t n (fprev\<lparr>tr_offset := tr_offset fprev - tr_size r, tr_size := tr_size fprev + tr_size r\<rparr>))
      | None \<Rightarrow> tx_lane_ranges_insert_def mem_ok t r)"

text \<open>The range on the right, if there is one, becomes part of the range at \<open>k\<close>.\<close>

definition merge_right :: "u64 \<Rightarrow> u64 option \<Rightarrow> tx_range_def ravl \<Rightarrow> tx_range_def ravl" where
  "merge_right k nprev t =
     (case (range_node t k, Option.bind nprev (range_node t)) of
        (Some (n, f), Some (_, fprev)) \<Rightarrow>
          (let t1 = ravl_store t n (pmemobj_tx_merge_flags (f\<lparr>tr_size := tr_size f + tr_size fprev\<rparr>) fprev)
           in case range_node t1 (tr_offset fprev) of
                None \<Rightarrow> t1
              | Some (np, _) \<Rightarrow> ravl_remove t1 np)
      | _ \<Rightarrow> t)"

text \<open>The loop of \<open>pmemobj_tx_add_common\<close>.\<close>

partial_function (option) tx_add_loop ::
  "bool \<Rightarrow> bool \<Rightarrow> tx_range_def \<Rightarrow> tx_range_def \<Rightarrow> ravl_predicate \<Rightarrow> u64 option \<Rightarrow> tx_range_def ravl \<Rightarrow> tx \<Rightarrow> pmem \<Rightarrow>
     ((err + unit) \<times> tx_range_def ravl \<times> tx \<times> pmem) option" where
  "tx_add_loop mem_ok vec_ok args r pr nprev t tx p =
     (if tr_size r = 0 then Some (Inr (), t, tx, p)
      else
        (let rend = tr_offset r + tr_size r;
             new = (\<lambda>_ :: unit.
                (case add_new_range mem_ok r nprev t of
                   (Inl e, t1) \<Rightarrow> Some (Inl e, t1, tx, p)
                 | (Inr _, t1) \<Rightarrow>
                     Option.bind (pmemobj_tx_add_snapshot vec_ok tx r p) (\<lambda>(x, tx1, p1). Some (x, t1, tx1, p1))))
         in case ravl_find t \<lparr> tr_offset = rend, tr_size = 0, tr_flags = 0 \<rparr> pr of
              None \<Rightarrow> new ()
            | Some n \<Rightarrow>
                (case ravl_data n of
                   None \<Rightarrow> new ()
                 | Some f \<Rightarrow>
                     (let fend = tr_offset f + tr_size f;
                          first = max (tr_offset f) (tr_offset r)
                      in if fend = 0 \<or> fend < tr_offset r then new ()
                         else if fend \<le> rend then
                           (let snapshot = args\<lparr>tr_offset := fend, tr_size := rend - fend\<rparr>;
                                r1 = r\<lparr>tr_size := tr_size r - ((fend - first) + tr_size snapshot)\<rparr>;
                                t1 = ravl_store t n
                                  (pmemobj_tx_merge_flags (f\<lparr>tr_size := tr_size f + tr_size snapshot\<rparr>) args)
                            in Option.bind
                                 (if tr_size snapshot \<noteq> 0 then pmemobj_tx_add_snapshot vec_ok tx snapshot p
                                  else Some (Inr (), tx, p))
                                 (\<lambda>(x, tx1, p1).
                                   (case x of
                                      Inl e \<Rightarrow> Some (Inl e, t1, tx1, p1)
                                    | Inr _ \<Rightarrow>
                                        tx_add_loop mem_ok vec_ok args r1 RAVL_LESS (Some (tr_offset f))
                                          (merge_right (tr_offset f) nprev t1) tx1 p1)))
                         else
                           tx_add_loop mem_ok vec_ok args (r\<lparr>tr_size := tr_size r - (rend - first)\<rparr>) RAVL_LESS
                             (Some (tr_offset f)) (ravl_store t n (pmemobj_tx_merge_flags f args)) tx p))))"

text \<open>What does not return to the caller passes through; every other failure is out of memory.\<close>

definition tx_add_failed :: "err \<Rightarrow> u64 \<Rightarrow> tx_fail" where
  "tx_add_failed e flags =
     (if e = ABORT \<or> e = HANG \<or> e = POWERLOSS then TX_STOP e else obj_tx_fail_err ENOMEM flags)"

definition pmemobj_tx_add_common ::
  "bool \<Rightarrow> bool \<Rightarrow> tx \<Rightarrow> tx_range_def \<Rightarrow> pmem \<Rightarrow> ((tx_fail + unit) \<times> tx \<times> pmem) option" where
  "pmemobj_tx_add_common mem_ok vec_ok tx args p =
     (let pop = tx_pop tx
      in if tr_size args > PMEMOBJ_MAX_ALLOC_SIZE then Some (Inl (obj_tx_fail_err EINVAL (tr_flags args)), tx, p)
         else if tr_offset args < pop_heap_offset pop \<or>
              tr_offset args + tr_size args > pop_heap_offset pop + pop_heap_size pop
         then Some (Inl (obj_tx_fail_err EINVAL (tr_flags args)), tx, p)
         else
           (case tx_ranges tx of
              None \<Rightarrow> (if tr_size args = 0 then Some (Inr (), tx, p) else Some (Inl (TX_STOP ABORT), tx, p))
            | Some t \<Rightarrow>
                Option.bind (tx_add_loop mem_ok vec_ok args args RAVL_LESS_EQUAL None t tx p) (\<lambda>(x, t1, tx1, p1).
                  Some (case x of Inl e \<Rightarrow> Inl (tx_add_failed e (tr_flags args)) | Inr _ \<Rightarrow> Inr (),
                        tx1\<lparr>tx_ranges := Some t1\<rparr>, p1))))"

definition OBJ_PTR_FROM_POOL :: "tx \<Rightarrow> u64 \<Rightarrow> bool" where
  "OBJ_PTR_FROM_POOL tx ptr \<longleftrightarrow>
     ptr \<ge> tx_base tx \<and> ptr < tx_base tx + pop_heap_offset (tx_pop tx) + pop_heap_size (tx_pop tx)"

definition pmemobj_tx_add_range_direct ::
  "bool \<Rightarrow> bool \<Rightarrow> tx \<Rightarrow> u64 \<Rightarrow> u64 \<Rightarrow> pmem \<Rightarrow> ((tx_fail + unit) \<times> tx \<times> pmem) option" where
  "pmemobj_tx_add_range_direct mem_ok vec_ok tx ptr n p =
     (if tx_stage tx \<noteq> TX_STAGE_WORK then Some (Inl (TX_STOP ABORT), tx, p)
      else if \<not> OBJ_PTR_FROM_POOL tx ptr then Some (Inl (obj_tx_fail_err EINVAL 0), tx, p)
      else pmemobj_tx_add_common mem_ok vec_ok tx \<lparr> tr_offset = ptr - tx_base tx, tr_size = n, tr_flags = 0 \<rparr> p)"

definition pmemobj_tx_xadd_range_direct ::
  "bool \<Rightarrow> bool \<Rightarrow> tx \<Rightarrow> u64 \<Rightarrow> u64 \<Rightarrow> u64 \<Rightarrow> pmem \<Rightarrow> ((tx_fail + unit) \<times> tx \<times> pmem) option" where
  "pmemobj_tx_xadd_range_direct mem_ok vec_ok tx ptr n flags p =
     (if tx_stage tx \<noteq> TX_STAGE_WORK then Some (Inl (TX_STOP ABORT), tx, p)
      else if flags AND NOT POBJ_XADD_VALID_FLAGS \<noteq> 0 then Some (Inl (obj_tx_fail_err EINVAL flags), tx, p)
      else if \<not> OBJ_PTR_FROM_POOL tx ptr then Some (Inl (obj_tx_fail_err EINVAL flags), tx, p)
      else pmemobj_tx_add_common mem_ok vec_ok tx \<lparr> tr_offset = ptr - tx_base tx, tr_size = n, tr_flags = flags \<rparr> p)"

text \<open>An object identifier is the pair of the pool's identifier and an offset.\<close>

definition pmemobj_tx_add_range ::
  "bool \<Rightarrow> bool \<Rightarrow> tx \<Rightarrow> u64 \<times> u64 \<Rightarrow> u64 \<Rightarrow> u64 \<Rightarrow> pmem \<Rightarrow> ((tx_fail + unit) \<times> tx \<times> pmem) option" where
  "pmemobj_tx_add_range mem_ok vec_ok tx oid hoff n p =
     (if tx_stage tx \<noteq> TX_STAGE_WORK then Some (Inl (TX_STOP ABORT), tx, p)
      else if fst oid \<noteq> tx_uuid_lo tx then Some (Inl (obj_tx_fail_err EINVAL 0), tx, p)
      else pmemobj_tx_add_common mem_ok vec_ok tx \<lparr> tr_offset = snd oid + hoff, tr_size = n, tr_flags = 0 \<rparr> p)"

definition pmemobj_tx_xadd_range ::
  "bool \<Rightarrow> bool \<Rightarrow> tx \<Rightarrow> u64 \<times> u64 \<Rightarrow> u64 \<Rightarrow> u64 \<Rightarrow> u64 \<Rightarrow> pmem \<Rightarrow> ((tx_fail + unit) \<times> tx \<times> pmem) option" where
  "pmemobj_tx_xadd_range mem_ok vec_ok tx oid hoff n flags p =
     (if tx_stage tx \<noteq> TX_STAGE_WORK then Some (Inl (TX_STOP ABORT), tx, p)
      else if flags AND NOT POBJ_XADD_VALID_FLAGS \<noteq> 0 then Some (Inl (obj_tx_fail_err EINVAL flags), tx, p)
      else if fst oid \<noteq> tx_uuid_lo tx then Some (Inl (obj_tx_fail_err EINVAL flags), tx, p)
      else pmemobj_tx_add_common mem_ok vec_ok tx \<lparr> tr_offset = snd oid + hoff, tr_size = n, tr_flags = flags \<rparr> p)"

end
