(* ===== verification/Tx_Ranges.thy ===== *)
theory Tx_Ranges
  imports Tx Ravl_Set
begin

text \<open>
  The tree of the ranges of a transaction as a set of disjoint byte ranges, and what each
  case of the loop of \<open>pmemobj_tx_add_common\<close> does to the bytes that are covered and to the
  bytes that have to be flushed.
\<close>

section \<open>Sets of ranges\<close>

definition r_start :: "tx_range_def \<Rightarrow> nat" where "r_start r = unat (tr_offset r)"
definition r_end :: "tx_range_def \<Rightarrow> nat" where "r_end r = unat (tr_offset r) + unat (tr_size r)"
definition range_bytes :: "tx_range_def \<Rightarrow> nat set" where "range_bytes r = {r_start r..<r_end r}"

definition range_wf :: "tx_range_def \<Rightarrow> bool" where
  "range_wf r \<longleftrightarrow> r_start r < r_end r \<and> r_end r < 2 ^ 64"

definition apart :: "tx_range_def \<Rightarrow> tx_range_def \<Rightarrow> bool" where
  "apart x y \<longleftrightarrow> r_end x \<le> r_start y \<or> r_end y \<le> r_start x"

definition range_set :: "tx_range_def set \<Rightarrow> bool" where
  "range_set S \<longleftrightarrow> (\<forall>x \<in> S. range_wf x) \<and> (\<forall>x \<in> S. \<forall>y \<in> S. x \<noteq> y \<longrightarrow> apart x y)"

definition ranges_ok :: "tx_range_def ravl \<Rightarrow> bool" where
  "ranges_ok t \<longleftrightarrow> ravl_ok tx_range_def_cmp tr_offset t \<and> range_set (ravl_elems t)"

definition covered :: "tx_range_def ravl \<Rightarrow> nat set" where
  "covered t = (\<Union>x \<in> ravl_elems t. range_bytes x)"

definition needs_flush :: "tx_range_def \<Rightarrow> bool" where
  "needs_flush r \<longleftrightarrow> tr_flags r AND POBJ_FLAG_NO_FLUSH = 0"

definition to_flush :: "tx_range_def ravl \<Rightarrow> nat set" where
  "to_flush t = (\<Union>x \<in> {x \<in> ravl_elems t. needs_flush x}. range_bytes x)"

interpretation range_order: ravl_order tx_range_def_cmp tr_offset
  by unfold_locales (auto simp: tx_range_def_cmp_def)

lemma apart_sym: "apart x y \<longleftrightarrow> apart y x"
  by (auto simp: apart_def)

lemma range_set_insert: "range_set S \<Longrightarrow> range_wf d \<Longrightarrow> (\<forall>y \<in> S. apart y d) \<Longrightarrow> range_set (insert d S)"
  using apart_sym by (auto simp: range_set_def)

lemma range_set_subset: "range_set S \<Longrightarrow> T \<subseteq> S \<Longrightarrow> range_set T"
  by (auto simp: range_set_def)

lemma apart_disjoint: "range_wf x \<Longrightarrow> range_wf y \<Longrightarrow> apart x y \<longleftrightarrow> range_bytes x \<inter> range_bytes y = {}"
  by (auto simp: apart_def range_wf_def range_bytes_def)

lemma range_set_offset:
  "range_set S \<Longrightarrow> x \<in> S \<Longrightarrow> y \<in> S \<Longrightarrow> tr_offset x = tr_offset y \<Longrightarrow> x = y"
  by (auto simp: range_set_def apart_def range_wf_def r_start_def) fastforce

lemma range_end_word: "range_wf r \<Longrightarrow> unat (tr_offset r + tr_size r) = r_end r"
  by (subst unat_add_small) (simp_all add: range_wf_def r_end_def)

lemma range_wfD: "range_wf r \<Longrightarrow> r_start r < r_end r" "range_wf r \<Longrightarrow> r_end r < 2 ^ 64"
  by (simp_all add: range_wf_def)

section \<open>Flags\<close>

lemma and_not_and: "((w :: u64) AND NOT x) AND x = 0"
  by (rule bit_word_eqI) (auto simp: bit_simps)

lemma merge_flags_offset [simp]:
  "tr_offset (pmemobj_tx_merge_flags d m) = tr_offset d" "tr_size (pmemobj_tx_merge_flags d m) = tr_size d"
  by (simp_all add: pmemobj_tx_merge_flags_def)

lemma merge_flags_range [simp]:
  "r_start (pmemobj_tx_merge_flags d m) = r_start d" "r_end (pmemobj_tx_merge_flags d m) = r_end d"
  "range_bytes (pmemobj_tx_merge_flags d m) = range_bytes d" "range_wf (pmemobj_tx_merge_flags d m) = range_wf d"
  "apart x (pmemobj_tx_merge_flags d m) = apart x d" "apart (pmemobj_tx_merge_flags d m) x = apart d x"
  by (simp_all add: r_start_def r_end_def range_bytes_def range_wf_def apart_def)

lemma merge_flags_flush: "needs_flush (pmemobj_tx_merge_flags d m) \<longleftrightarrow> needs_flush d \<or> needs_flush m"
  by (auto simp: needs_flush_def pmemobj_tx_merge_flags_def and_not_and)

section \<open>Search and assignment\<close>

lemma range_predicates [simp]:
  "RAVL_PREDICATE_LESS RAVL_LESS" "\<not> RAVL_PREDICATE_GREATER RAVL_LESS" "\<not> RAVL_PREDICATE_EQUAL RAVL_LESS"
  "RAVL_PREDICATE_LESS RAVL_LESS_EQUAL" "\<not> RAVL_PREDICATE_GREATER RAVL_LESS_EQUAL" "RAVL_PREDICATE_EQUAL RAVL_LESS_EQUAL"
  "\<not> RAVL_PREDICATE_LESS RAVL_EQUAL" "\<not> RAVL_PREDICATE_GREATER RAVL_EQUAL" "RAVL_PREDICATE_EQUAL RAVL_EQUAL"
  by (simp_all add: RAVL_LESS_def RAVL_LESS_EQUAL_def RAVL_EQUAL_def)

lemma ranges_okD:
  assumes "ranges_ok t"
  shows "ravl_ok tx_range_def_cmp tr_offset t" "range_set (ravl_elems t)"
    "x \<in> ravl_elems t \<Longrightarrow> range_wf x"
    "x \<in> ravl_elems t \<Longrightarrow> y \<in> ravl_elems t \<Longrightarrow> x \<noteq> y \<Longrightarrow> apart x y"
  using assms by (auto simp: ranges_ok_def range_set_def)

text \<open>The last range that starts before \<open>k\<close>, or at \<open>k\<close> too.\<close>

definition starts_before :: "ravl_predicate \<Rightarrow> nat \<Rightarrow> tx_range_def \<Rightarrow> bool" where
  "starts_before pr k x \<longleftrightarrow> r_start x < k \<or> RAVL_PREDICATE_EQUAL pr \<and> r_start x = k"

lemma find_range:
  assumes t: "ravl_ok tx_range_def_cmp tr_offset t" and pr: "pr = RAVL_LESS \<or> pr = RAVL_LESS_EQUAL"
  obtains (none) "ravl_find t \<lparr> tr_offset = k, tr_size = 0, tr_flags = 0 \<rparr> pr = None"
      "\<forall>x \<in> ravl_elems t. \<not> starts_before pr (unat k) x"
    | (found) n f where "ravl_find t \<lparr> tr_offset = k, tr_size = 0, tr_flags = 0 \<rparr> pr = Some n" "ravl_data n = Some f"
      "points_to (rv_root t) n f" "f \<in> ravl_elems t" "starts_before pr (unat k) f"
      "\<forall>x \<in> ravl_elems t. starts_before pr (unat k) x \<longrightarrow> r_start x \<le> r_start f"
proof -
  let ?d = "\<lparr> tr_offset = k, tr_size = 0, tr_flags = 0 \<rparr> :: tx_range_def"
  have f: "RAVL_PREDICATE_LESS pr" "\<not> RAVL_PREDICATE_GREATER pr" using pr by auto
  have P: "tr_offset x < tr_offset ?d \<or> RAVL_PREDICATE_EQUAL pr \<and> tr_offset x = tr_offset ?d \<longleftrightarrow>
      starts_before pr (unat k) x" for x
    by (auto simp: starts_before_def r_start_def word_less_nat_alt word_unat_eq_iff)
  show ?thesis
  proof (cases rule: range_order.find_less_ok [OF t f, of ?d, case_names none found])
    case none
    then show ?thesis using that(1) unfolding P by blast
  next
    case (found n f)
    then show ?thesis using that(2) [of n f] unfolding P by (simp add: points_to_data r_start_def word_le_nat_alt)
  qed
qed

lemma range_node_found:
  assumes t: "ravl_ok tx_range_def_cmp tr_offset t" and x: "x \<in> ravl_elems t"
    and u: "\<forall>y \<in> ravl_elems t. tr_offset y = tr_offset x \<longrightarrow> y = x"
  obtains n where "range_node t (tr_offset x) = Some (n, x)" "points_to (rv_root t) n x"
proof (cases rule: range_order.find_equal_ok [OF t range_predicates(9,8,7),
    of "\<lparr> tr_offset = tr_offset x, tr_size = 0, tr_flags = 0 \<rparr>", case_names none found])
  case none
  then show ?thesis using x by simp
next
  case (found n y)
  then have "y = x" using u by simp
  then show ?thesis using found that by (simp add: range_node_def points_to_data)
qed

lemma ravl_store_ok:
  assumes t: "ravl_ok tx_range_def_cmp tr_offset t" and n: "points_to (rv_root t) n f"
    and lo: "\<forall>y \<in> ravl_elems t. r_start y < r_start f \<longrightarrow> r_start y < r_start d"
    and hi: "\<forall>y \<in> ravl_elems t. r_start f < r_start y \<longrightarrow> r_start d < r_start y"
  shows "ravl_ok tx_range_def_cmp tr_offset (ravl_store t n d)"
    "ravl_elems (ravl_store t n d) = insert d (ravl_elems t - {f})"
  using range_order.set_data_ok [OF t n, of d] lo hi
  by (simp_all add: ravl_store_def r_start_def word_less_nat_alt)

text \<open>A range grows into bytes that no other range has.\<close>

lemma grow_range:
  assumes t: "ranges_ok t" and n: "points_to (rv_root t) n f"
    and d: "range_wf d" "r_start d \<le> r_start f" "r_end f \<le> r_end d"
    and y: "\<forall>y \<in> ravl_elems t - {f}. apart y d"
  shows "ranges_ok (ravl_store t n d)" "ravl_elems (ravl_store t n d) = insert d (ravl_elems t - {f})"
proof -
  have f: "f \<in> ravl_elems t" using n by (rule points_to_elem)
  have o: "(r_start y < r_start f \<longrightarrow> r_start y < r_start d) \<and> (r_start f < r_start y \<longrightarrow> r_start d < r_start y)"
    if e: "y \<in> ravl_elems t" for y
  proof (cases "y = f")
    case False
    then have "apart y d" using y e by blast
    then show ?thesis using d ranges_okD(3) [OF t e] ranges_okD(3) [OF t f] by (auto simp: apart_def range_wf_def)
  qed simp
  then have s: "ravl_ok tx_range_def_cmp tr_offset (ravl_store t n d)"
      "ravl_elems (ravl_store t n d) = insert d (ravl_elems t - {f})"
    using ravl_store_ok [OF ranges_okD(1) [OF t] n] by blast+
  show "ravl_elems (ravl_store t n d) = insert d (ravl_elems t - {f})" by (rule s(2))
  have "range_set (ravl_elems t - {f})" using ranges_okD(2) [OF t] by (rule range_set_subset) simp
  then show "ranges_ok (ravl_store t n d)"
    unfolding ranges_ok_def using s range_set_insert [OF _ d(1) y] by simp
qed

section \<open>The cases of the loop\<close>

text \<open>
  The state of the loop for the range \<open>r\<close>: before the first search nothing is known; then
  the range found last starts where \<open>r\<close> ends and does not need to be merged with the flags
  of the arguments any more.
\<close>

definition loop_phase :: "tx_range_def \<Rightarrow> ravl_predicate \<Rightarrow> u64 option \<Rightarrow> tx_range_def ravl \<Rightarrow> bool" where
  "loop_phase r pr nprev t \<longleftrightarrow>
     (case nprev of
        None \<Rightarrow> pr = RAVL_LESS_EQUAL
      | Some k \<Rightarrow> pr = RAVL_LESS \<and>
          (\<exists>q \<in> ravl_elems t. tr_offset q = k \<and> (tr_size r \<noteq> 0 \<longrightarrow> r_start q = r_end r) \<and> (needs_flush r \<longrightarrow> needs_flush q)))"

text \<open>What a step may do to the tree: cover the bytes \<open>B\<close> in addition, and keep what has to be flushed.\<close>

definition extends_by :: "nat set \<Rightarrow> bool \<Rightarrow> tx_range_def ravl \<Rightarrow> tx_range_def ravl \<Rightarrow> bool" where
  "extends_by B flush t t' \<longleftrightarrow> ranges_ok t' \<and> covered t' = covered t \<union> B \<and> to_flush t \<subseteq> to_flush t' \<and>
     (flush \<longrightarrow> B \<subseteq> to_flush t')"

lemma extends_by_trans:
  "extends_by A flush t t1 \<Longrightarrow> extends_by B flush t1 t2 \<Longrightarrow> extends_by (A \<union> B) flush t t2"
  by (auto simp: extends_by_def)

lemma extends_by_replace:
  assumes t': "ranges_ok t'" "ravl_elems t' = insert d (ravl_elems t - {f})" and f: "f \<in> ravl_elems t"
    and b: "range_bytes d = range_bytes f \<union> B" and n: "needs_flush d \<longleftrightarrow> needs_flush f \<or> flush"
  shows "extends_by B flush t t'"
  unfolding extends_by_def
proof (intro conjI impI)
  have "covered t = range_bytes f \<union> (\<Union>x \<in> ravl_elems t - {f}. range_bytes x)" using f by (auto simp: covered_def)
  then show "covered t' = covered t \<union> B" unfolding covered_def [of t'] t'(2) by (simp add: b Un_ac)
  have d: "d \<in> ravl_elems t'" using t'(2) by blast
  show "to_flush t \<subseteq> to_flush t'"
  proof
    fix a
    assume "a \<in> to_flush t"
    then obtain x where x: "x \<in> ravl_elems t" "needs_flush x" "a \<in> range_bytes x" by (auto simp: to_flush_def)
    show "a \<in> to_flush t'"
    proof (cases "x = f")
      case True
      then have "needs_flush d" "a \<in> range_bytes d" using x b n by simp_all
      then show ?thesis using d unfolding to_flush_def by blast
    next
      case False
      then have "x \<in> ravl_elems t'" using x(1) t'(2) by blast
      then show ?thesis using x(2,3) unfolding to_flush_def by blast
    qed
  qed
  show "B \<subseteq> to_flush t'" if flush
  proof -
    have "needs_flush d" "B \<subseteq> range_bytes d" using that n b by simp_all
    then show ?thesis using d unfolding to_flush_def by blast
  qed
qed (rule t'(1))

lemma not_starts_before:
  "loop_phase r pr nprev t \<Longrightarrow> \<not> starts_before pr k x \<Longrightarrow> k \<le> r_start x"
  by (auto simp: starts_before_def)

lemma new_range_apart:
  assumes "range_wf r" "range_wf y" "starts_before pr (r_end r) y \<longrightarrow> r_end y < r_start r"
  shows "apart y r" "range_bytes r \<inter> range_bytes y = {}" "r_end y = r_start r \<longrightarrow> False" "r_start y \<noteq> r_start r"
  using assms by (auto simp: starts_before_def apart_def range_bytes_def range_wf_def)

lemma bytes_apart:
  assumes t: "ranges_ok t" and r: "range_wf r"
    and left: "\<forall>y \<in> ravl_elems t. starts_before pr (r_end r) y \<longrightarrow> r_end y < r_start r"
  shows "range_bytes r \<inter> covered t = {}"
proof -
  have "range_bytes r \<inter> range_bytes y = {}" if "y \<in> ravl_elems t" for y
    using new_range_apart(2) [OF r ranges_okD(3) [OF t that]] left that by blast
  then show ?thesis by (auto simp: covered_def)
qed

text \<open>No range touches \<open>r\<close> on the left: it is inserted or the range on the right grows.\<close>

lemma add_new_range_ok:
  assumes t: "ranges_ok t" and r: "range_wf r" and ph: "loop_phase r pr nprev t"
    and left: "\<forall>y \<in> ravl_elems t. starts_before pr (r_end r) y \<longrightarrow> r_end y < r_start r"
  obtains t1 where "add_new_range True r nprev t = (Inr (), t1)" "extends_by (range_bytes r) (needs_flush r) t t1"
proof (cases nprev)
  case None
  then have pr: "pr = RAVL_LESS_EQUAL" using ph by (simp add: loop_phase_def)
  have ap: "\<forall>y \<in> ravl_elems t. apart y r" using new_range_apart(1) [OF r ranges_okD(3) [OF t]] left by blast
  show ?thesis
  proof (cases rule: range_order.emplace_ok [OF ranges_okD(1) [OF t], of r, case_names present added])
    case present
    then obtain y where "y \<in> ravl_elems t" "tr_offset r = tr_offset y" by auto
    then show ?thesis using new_range_apart(4) [OF r ranges_okD(3) [OF t]] left by (force simp: r_start_def)
  next
    case (added t1)
    have "ranges_ok t1" unfolding ranges_ok_def
      using added(3,4) range_set_insert [OF ranges_okD(2) [OF t] r ap] by simp
    then have "extends_by (range_bytes r) (needs_flush r) t t1"
      by (auto simp: extends_by_def covered_def to_flush_def added(4))
    then show ?thesis using that [of t1] added(1) by (simp add: add_new_range_def None tx_lane_ranges_insert_def_def)
  qed
next
  case (Some k)
  then obtain q where q: "q \<in> ravl_elems t" "tr_offset q = k" "r_start q = r_end r" "needs_flush r \<longrightarrow> needs_flush q"
      and pr: "pr = RAVL_LESS"
    using ph range_wfD(1) [OF r] by (auto simp: loop_phase_def r_start_def r_end_def)
  obtain n where n: "range_node t k = Some (n, q)" "points_to (rv_root t) n q"
    using range_node_found [OF ranges_okD(1) [OF t] q(1)] range_set_offset [OF ranges_okD(2) [OF t] _ q(1)] q(2) by metis
  let ?d = "q\<lparr>tr_offset := tr_offset q - tr_size r, tr_size := tr_size q + tr_size r\<rparr>"
  have wq: "range_wf q" by (rule ranges_okD(3) [OF t q(1)])
  have "tr_offset q = tr_offset r + tr_size r"
    using q(3) range_end_word [OF r] by (simp add: word_unat_eq_iff r_start_def)
  then have o: "tr_offset ?d = tr_offset r" by simp
  have "unat (tr_size q + tr_size r) = unat (tr_size q) + unat (tr_size r)"
    using wq q(3) by (intro unat_add_small) (simp add: range_wf_def r_end_def r_start_def)
  then have d: "r_start ?d = r_start r" "r_end ?d = r_end q"
    using o q(3) by (simp_all add: r_start_def r_end_def)
  have b: "range_bytes ?d = range_bytes q \<union> range_bytes r"
    using d q(3) range_wfD(1) [OF r] range_wfD(1) [OF wq] by (auto simp: range_bytes_def)
  have wd: "range_wf ?d" using d q(3) wq range_wfD(1) [OF r] by (simp add: range_wf_def)
  have "apart y ?d" if "y \<in> ravl_elems t - {q}" for y
    using that new_range_apart(1) [OF r, of y pr] left ranges_okD(3) [OF t, of y] ranges_okD(4) [OF t _ q(1), of y]
    by (auto simp: apart_def d q(3) range_wf_def)
  then have s: "ranges_ok (ravl_store t n ?d)" "ravl_elems (ravl_store t n ?d) = insert ?d (ravl_elems t - {q})"
    using grow_range [OF t n(2) wd] d q(3) range_wfD(1) [OF r] by simp_all
  have "extends_by (range_bytes r) (needs_flush r) t (ravl_store t n ?d)"
    using q(4) by (intro extends_by_replace [OF s q(1) b]) (auto simp: needs_flush_def)
  then show ?thesis using that [of "ravl_store t n ?d"] by (simp add: add_new_range_def Some n(1))
qed

lemma needs_flush_size [simp]: "needs_flush (f\<lparr>tr_size := n\<rparr>) = needs_flush f"
  by (simp add: needs_flush_def)

lemma merge_flags_size [simp]: "pmemobj_tx_merge_flags d (m\<lparr>tr_size := n\<rparr>) = pmemobj_tx_merge_flags d m"
  by (simp add: pmemobj_tx_merge_flags_def)

lemma extends_by_cong:
  "extends_by B flush t t' \<Longrightarrow> C \<subseteq> B \<Longrightarrow> covered t \<union> B = covered t \<union> C \<Longrightarrow> extends_by C flush t t'"
  by (auto simp: extends_by_def)

lemma elem_bytes: "x \<in> ravl_elems t \<Longrightarrow> range_bytes x \<subseteq> covered t"
  by (auto simp: covered_def)

text \<open>The range found reaches over the end of \<open>r\<close>: only its flags change.\<close>

lemma touch_range_ok:
  assumes t: "ranges_ok t" and n: "points_to (rv_root t) n f"
  shows "extends_by (range_bytes f) (needs_flush r) t (ravl_store t n (pmemobj_tx_merge_flags f r))"
    "pmemobj_tx_merge_flags f r \<in> ravl_elems (ravl_store t n (pmemobj_tx_merge_flags f r))"
proof -
  have f: "f \<in> ravl_elems t" using n by (rule points_to_elem)
  have "ranges_ok (ravl_store t n (pmemobj_tx_merge_flags f r))"
      "ravl_elems (ravl_store t n (pmemobj_tx_merge_flags f r)) = insert (pmemobj_tx_merge_flags f r) (ravl_elems t - {f})"
    using grow_range [OF t n, of "pmemobj_tx_merge_flags f r"] ranges_okD(3,4) [OF t] f by auto
  then show "extends_by (range_bytes f) (needs_flush r) t (ravl_store t n (pmemobj_tx_merge_flags f r))"
      "pmemobj_tx_merge_flags f r \<in> ravl_elems (ravl_store t n (pmemobj_tx_merge_flags f r))"
    using f by (auto intro!: extends_by_replace [of _ "pmemobj_tx_merge_flags f r" _ f] simp: merge_flags_flush)
qed

text \<open>The range found ends within \<open>r\<close>: it grows up to the end of \<open>r\<close>.\<close>

lemma grow_right_ok:
  assumes t: "ranges_ok t" and n: "points_to (rv_root t) n f" and r: "range_wf r" and ph: "loop_phase r pr nprev t"
    and top: "\<forall>x \<in> ravl_elems t. starts_before pr (r_end r) x \<longrightarrow> r_start x \<le> r_start f"
    and e: "r_end f \<le> r_end r"
  defines "d \<equiv> pmemobj_tx_merge_flags (f\<lparr>tr_size := tr_size f + (tr_offset r + tr_size r - (tr_offset f + tr_size f))\<rparr>) r"
  shows "extends_by (range_bytes f \<union> {r_end f..<r_end r}) (needs_flush r) t (ravl_store t n d)"
    "ravl_elems (ravl_store t n d) = insert d (ravl_elems t - {f})"
    "{r_end f..<r_end r} \<inter> covered t = {}" "r_start d = r_start f" "r_end d = r_end r"
proof -
  have f: "f \<in> ravl_elems t" using n by (rule points_to_elem)
  have wf: "range_wf f" by (rule ranges_okD(3) [OF t f])
  have "unat (tr_offset r + tr_size r - (tr_offset f + tr_size f)) = r_end r - r_end f"
    using e range_end_word [OF r] range_end_word [OF wf] by (simp add: unat_sub_if')
  then have "unat (tr_size f + (tr_offset r + tr_size r - (tr_offset f + tr_size f))) = unat (tr_size f) + (r_end r - r_end f)"
    using e range_wfD(2) [OF r] by (subst unat_add_small) (simp_all add: r_end_def)
  then show d: "r_start d = r_start f" "r_end d = r_end r"
    using e unfolding d_def by (simp_all add: r_start_def r_end_def del: unat_add_lem)
  have other: "r_end y \<le> r_start f \<or> r_end r \<le> r_start y" if y: "y \<in> ravl_elems t" "y \<noteq> f" for y
  proof (cases "starts_before pr (r_end r) y")
    case True
    then have "r_start y \<le> r_start f" using top y(1) by blast
    then show ?thesis using ranges_okD(4) [OF t y(1) f y(2)] ranges_okD(3) [OF t y(1)] wf by (auto simp: apart_def range_wf_def)
  qed (use not_starts_before [OF ph] in blast)
  have wd: "range_wf d" using d e wf range_wfD(2) [OF r] by (auto simp: range_wf_def)
  have s: "ranges_ok (ravl_store t n d)" "ravl_elems (ravl_store t n d) = insert d (ravl_elems t - {f})"
    using grow_range [OF t n wd] d e other by (auto simp: apart_def)
  then show "ravl_elems (ravl_store t n d) = insert d (ravl_elems t - {f})" by blast
  have b: "range_bytes d = range_bytes f \<union> (range_bytes f \<union> {r_end f..<r_end r})"
    using d e range_wfD(1) [OF wf] by (auto simp: range_bytes_def)
  show "extends_by (range_bytes f \<union> {r_end f..<r_end r}) (needs_flush r) t (ravl_store t n d)"
    by (rule extends_by_replace [OF s f b]) (simp add: d_def merge_flags_flush)
  have "{r_end f..<r_end r} \<inter> range_bytes y = {}" if y: "y \<in> ravl_elems t" for y
    using other [OF y] range_wfD(1) [OF wf] by (cases "y = f") (auto simp: range_bytes_def)
  then show "{r_end f..<r_end r} \<inter> covered t = {}" by (auto simp: covered_def)
qed

lemma merge_right_ok:
  assumes t: "ranges_ok t" and d: "d \<in> ravl_elems t"
    and q: "\<And>k. nprev = Some k \<Longrightarrow> \<exists>q \<in> ravl_elems t. tr_offset q = k \<and> r_start q = r_end d"
  obtains d' where "d' \<in> ravl_elems (merge_right (tr_offset d) nprev t)" "tr_offset d' = tr_offset d"
    "needs_flush d \<longrightarrow> needs_flush d'" "extends_by {} flush t (merge_right (tr_offset d) nprev t)"
proof (cases nprev)
  case None
  then have "merge_right (tr_offset d) nprev t = t" by (simp add: merge_right_def split: option.split)
  then show ?thesis using that [of d] d t by (simp add: extends_by_def)
next
  case (Some k)
  then obtain q where q: "q \<in> ravl_elems t" "tr_offset q = k" "r_start q = r_end d" using q by blast
  have uniq: "y = x" if "y \<in> ravl_elems t" "x \<in> ravl_elems t" "tr_offset y = tr_offset x" for x y
    using range_set_offset [OF ranges_okD(2) [OF t]] that by blast
  have w: "range_wf d" "range_wf q" using ranges_okD(3) [OF t] d q(1) by blast+
  have kd: "k \<noteq> tr_offset d" "q \<noteq> d" using q(2,3) range_wfD(1) [OF w(1)] by (auto simp: r_start_def)
  obtain n where n: "range_node t (tr_offset d) = Some (n, d)" "points_to (rv_root t) n d"
    using range_node_found [OF ranges_okD(1) [OF t] d] uniq d by metis
  obtain n2 where n2: "range_node t k = Some (n2, q)"
    using range_node_found [OF ranges_okD(1) [OF t] q(1)] uniq q(1,2) by metis
  let ?d = "pmemobj_tx_merge_flags (d\<lparr>tr_size := tr_size d + tr_size q\<rparr>) q"
  let ?t = "ravl_store t n ?d"
  have s: "ravl_ok tx_range_def_cmp tr_offset ?t" "ravl_elems ?t = insert ?d (ravl_elems t - {d})"
    using ravl_store_ok [OF ranges_okD(1) [OF t] n(2), of ?d] by (simp_all add: r_start_def)
  have q': "q \<in> ravl_elems ?t" "\<forall>y \<in> ravl_elems ?t. tr_offset y = tr_offset q \<longrightarrow> y = q"
    using s(2) q(1,2) kd uniq by auto
  obtain np where np: "range_node ?t (tr_offset q) = Some (np, q)" "points_to (rv_root ?t) np q"
    using range_node_found [OF s(1) q'] by metis
  have m: "merge_right (tr_offset d) nprev t = ravl_remove ?t np"
    by (simp add: merge_right_def Some n(1) n2 np(1))
  note rm = range_order.remove_ok [OF s(1) np(2)]
  have dq: "?d \<noteq> q"
  proof
    assume "?d = q"
    then have "tr_offset ?d = tr_offset q" by (rule arg_cong)
    then show False using kd(1) q(2) by simp
  qed
  have el: "ravl_elems (ravl_remove ?t np) = insert ?d (ravl_elems t - {d, q})"
    unfolding rm(2) s(2) using dq by auto
  have "unat (tr_size d + tr_size q) = unat (tr_size d) + unat (tr_size q)"
    using w q(3) by (intro unat_add_small) (simp add: range_wf_def r_end_def r_start_def)
  then have e: "r_start ?d = r_start d" "r_end ?d = r_end q"
    using q(3) by (simp_all add: r_start_def r_end_def)
  have wd: "range_wf ?d" using e w q(3) by (simp only: range_wf_def) simp
  have "apart y ?d" if "y \<in> ravl_elems t - {d, q}" for y
    using that ranges_okD(3) [OF t, of y] ranges_okD(4) [OF t _ q(1), of y] ranges_okD(4) [OF t _ d, of y] q(3)
    unfolding apart_def e by (auto simp: range_wf_def)
  then have ok: "ranges_ok (ravl_remove ?t np)" unfolding ranges_ok_def el
    using rm(1) range_set_insert [OF range_set_subset [OF ranges_okD(2) [OF t]] wd, of "ravl_elems t - {d, q}"] by blast
  have b: "range_bytes ?d = range_bytes d \<union> range_bytes q"
    using e q(3) w unfolding range_bytes_def range_wf_def by auto
  have nf: "needs_flush ?d \<longleftrightarrow> needs_flush d \<or> needs_flush q" by (simp add: merge_flags_flush)
  have "covered t = range_bytes d \<union> range_bytes q \<union> (\<Union>x \<in> ravl_elems t - {d, q}. range_bytes x)"
    using d q(1) by (auto simp: covered_def)
  then have c: "covered (ravl_remove ?t np) = covered t" unfolding covered_def [of "ravl_remove ?t np"] el by (simp add: b del: merge_flags_range)
  have "a \<in> to_flush (ravl_remove ?t np)" if "a \<in> to_flush t" for a
  proof -
    obtain x where x: "x \<in> ravl_elems t" "needs_flush x" "a \<in> range_bytes x" using \<open>a \<in> to_flush t\<close> by (auto simp: to_flush_def)
    then have "\<exists>y \<in> ravl_elems (ravl_remove ?t np). needs_flush y \<and> a \<in> range_bytes y"
      unfolding el using b nf by (cases "x = d \<or> x = q") auto
    then show ?thesis by (auto simp: to_flush_def)
  qed
  then have "extends_by {} flush t (ravl_remove ?t np)" using ok c by (auto simp: extends_by_def)
  then show ?thesis using that [of ?d] el nf unfolding m by simp
qed

section \<open>The loop\<close>

text \<open>
  The snapshots that a call makes, in order, each with the tree as it is when the snapshot is
  taken, up to the first one that fails; \<open>t'\<close> is the tree in the end.
\<close>

fun snapshots ::
  "bool \<Rightarrow> (tx_range_def \<times> tx_range_def ravl) list \<Rightarrow> tx_range_def ravl \<Rightarrow> tx \<Rightarrow> pmem \<Rightarrow>
     ((err + unit) \<times> tx_range_def ravl \<times> tx \<times> pmem) option" where
  "snapshots vec_ok [] t' tx p = Some (Inr (), t', tx, p)"
| "snapshots vec_ok ((s, t) # ss) t' tx p =
     Option.bind (pmemobj_tx_add_snapshot vec_ok tx s p) (\<lambda>(x, tx1, p1).
       (case x of
          Inl e \<Rightarrow> Some (Inl e, t, tx1, p1)
        | Inr _ \<Rightarrow> snapshots vec_ok ss t' tx1 p1))"

text \<open>Ranges with the flags \<open>fl\<close>, none of them empty, that have no byte in common and cover exactly \<open>B\<close>.\<close>

definition partitions :: "u64 \<Rightarrow> nat set \<Rightarrow> tx_range_def list \<Rightarrow> bool" where
  "partitions fl B rs \<longleftrightarrow> (\<Union>s \<in> set rs. range_bytes s) = B \<and>
     sorted_wrt (\<lambda>x y. range_bytes x \<inter> range_bytes y = {}) rs \<and> (\<forall>s \<in> set rs. range_wf s \<and> tr_flags s = fl)"

lemma partitions_Nil: "partitions fl B [] \<longleftrightarrow> B = {}"
  by (auto simp: partitions_def)

lemma partitions_empty: "partitions fl {} rs \<longleftrightarrow> rs = []"
  by (cases rs) (auto simp: partitions_def range_bytes_def range_wf_def)

lemma partitions_Cons:
  "partitions fl C rs \<Longrightarrow> range_wf s \<Longrightarrow> tr_flags s = fl \<Longrightarrow> range_bytes s \<inter> C = {} \<Longrightarrow> B = range_bytes s \<union> C \<Longrightarrow> partitions fl B (s # rs)"
  by (auto simp: partitions_def)

text \<open>The trees in between are ranges of the same bytes, and hold the range being logged already.\<close>

definition between :: "nat set \<Rightarrow> tx_range_def ravl \<Rightarrow> tx_range_def \<times> tx_range_def ravl \<Rightarrow> bool" where
  "between B t s \<longleftrightarrow> ranges_ok (snd s) \<and> covered t \<union> range_bytes (fst s) \<subseteq> covered (snd s) \<and> covered (snd s) \<subseteq> covered t \<union> B"

definition adds_range :: "bool \<Rightarrow> tx_range_def \<Rightarrow> tx_range_def ravl \<Rightarrow>
    (tx \<Rightarrow> pmem \<Rightarrow> ((err + unit) \<times> tx_range_def ravl \<times> tx \<times> pmem) option) \<Rightarrow> bool" where
  "adds_range vec_ok r t call \<longleftrightarrow>
     (\<exists>ss t'. call = snapshots vec_ok ss t' \<and> extends_by (range_bytes r) (needs_flush r) t t' \<and>
        partitions (tr_flags r) (range_bytes r - covered t) (map fst ss) \<and> list_all (between (range_bytes r) t) ss)"

lemma snapshots_one:
  "snapshots vec_ok [(r, t1)] t1 =
     (\<lambda>tx p. Option.bind (pmemobj_tx_add_snapshot vec_ok tx r p) (\<lambda>(x, tx1, p1). Some (x, t1, tx1, p1)))"
  by (intro ext) (auto intro!: bind_option_cong [OF refl] split: sum.split)

lemma adds_range_new:
  assumes "extends_by (range_bytes r) (needs_flush r) t t1" "range_bytes r \<inter> covered t = {}" "range_wf r"
  shows "adds_range vec_ok r t (\<lambda>tx p. Option.bind (pmemobj_tx_add_snapshot vec_ok tx r p) (\<lambda>(x, tx1, p1). Some (x, t1, tx1, p1)))"
  unfolding adds_range_def snapshots_one [symmetric]
  by (rule exI [of _ "[(r, t1)]"], rule exI [of _ t1])
    (use assms in \<open>auto simp: partitions_def between_def extends_by_def\<close>)

text \<open>One round of the loop, which changes the tree to \<open>t1\<close>, and then the rest \<open>r1\<close> of the range.\<close>

lemma adds_range_then:
  assumes e: "extends_by A (needs_flush r) t t1" and rest: "adds_range vec_ok r1 t1 call"
    and fl: "tr_flags r1 = tr_flags r"
    and b: "range_bytes r1 \<subseteq> range_bytes r" "range_bytes r \<subseteq> A \<union> range_bytes r1" "A \<subseteq> covered t"
  shows "adds_range vec_ok r t call"
proof -
  obtain ss t' where s: "call = snapshots vec_ok ss t'" "extends_by (range_bytes r1) (needs_flush r1) t1 t'"
      "partitions (tr_flags r1) (range_bytes r1 - covered t1) (map fst ss)" "list_all (between (range_bytes r1) t1) ss"
    using rest by (auto simp: adds_range_def)
  have c: "covered t1 = covered t" using e b(3) by (auto simp: extends_by_def)
  have nf: "needs_flush r1 = needs_flush r" using fl by (simp add: needs_flush_def)
  have "extends_by (A \<union> range_bytes r1) (needs_flush r) t t'"
    using extends_by_trans [OF e] s(2) nf by simp
  then have "extends_by (range_bytes r) (needs_flush r) t t'"
    by (rule extends_by_cong) (use b in auto)
  moreover have "range_bytes r1 - covered t1 = range_bytes r - covered t" using b c by auto
  moreover have "list_all (between (range_bytes r) t) ss"
    using s(4) by (rule list.pred_mono_strong) (use b c in \<open>auto simp: between_def\<close>)
  ultimately show ?thesis using s(1,3) fl unfolding adds_range_def by metis
qed

lemma adds_range_snapshot:
  assumes e: "extends_by (A \<union> range_bytes s) (needs_flush r) t t1" and e2: "extends_by {} (needs_flush r) t1 t2"
    and rest: "adds_range vec_ok r1 t2 call"
    and fl: "tr_flags r1 = tr_flags r" "tr_flags s = tr_flags r" "range_wf s"
    and b: "range_bytes r1 \<subseteq> range_bytes r" "range_bytes r \<subseteq> A \<union> range_bytes s \<union> range_bytes r1"
      "A \<subseteq> covered t" "range_bytes s \<subseteq> range_bytes r" "range_bytes s \<inter> range_bytes r1 = {}"
      "range_bytes s \<inter> covered t = {}"
  shows "adds_range vec_ok r t (\<lambda>tx p. Option.bind (pmemobj_tx_add_snapshot vec_ok tx s p) (\<lambda>(x, tx1, p1).
      (case x of Inl e \<Rightarrow> Some (Inl e, t1, tx1, p1) | Inr _ \<Rightarrow> call tx1 p1)))"
proof -
  obtain ss t' where s: "call = snapshots vec_ok ss t'" "extends_by (range_bytes r1) (needs_flush r1) t2 t'"
      "partitions (tr_flags r1) (range_bytes r1 - covered t2) (map fst ss)" "list_all (between (range_bytes r1) t2) ss"
    using rest by (auto simp: adds_range_def)
  have c: "covered t1 = covered t \<union> range_bytes s" "covered t2 = covered t1"
    using e e2 b(3) by (auto simp: extends_by_def)
  have nf: "needs_flush r1 = needs_flush r" using fl by (simp add: needs_flush_def)
  have "extends_by (A \<union> range_bytes s \<union> {} \<union> range_bytes r1) (needs_flush r) t t'"
    using extends_by_trans [OF extends_by_trans [OF e e2]] s(2) nf by simp
  then have x: "extends_by (range_bytes r) (needs_flush r) t t'"
    by (rule extends_by_cong) (use b in auto)
  have y: "partitions (tr_flags r) (range_bytes r - covered t) (map fst ((s, t1) # ss))"
    using s(3) fl b c by (auto intro!: partitions_Cons [of _ "range_bytes r1 - covered t2"])
  have "between (range_bytes r) t (s, t1)" using e b(4) c(1) by (auto simp: between_def extends_by_def)
  moreover have "list_all (between (range_bytes r) t) ss"
    using s(4) by (rule list.pred_mono_strong) (use b c in \<open>auto simp: between_def\<close>)
  ultimately have "list_all (between (range_bytes r) t) ((s, t1) # ss)" by simp
  moreover have "snapshots vec_ok ((s, t1) # ss) t' = (\<lambda>tx p. Option.bind (pmemobj_tx_add_snapshot vec_ok tx s p)
      (\<lambda>(x, tx1, p1). (case x of Inl e \<Rightarrow> Some (Inl e, t1, tx1, p1) | Inr _ \<Rightarrow> call tx1 p1)))"
    unfolding s(1) by (intro ext) simp
  ultimately show ?thesis unfolding adds_range_def using x y by metis
qed

lemma range_bytes_rest:
  assumes r: "range_wf r" and f: "range_wf f" "r_start f \<le> r_end r" "r_start r \<le> r_end f"
  defines "r1 \<equiv> r\<lparr>tr_size := max (tr_offset f) (tr_offset r) - tr_offset r\<rparr>"
  shows "r_end r1 = max (r_start f) (r_start r)" "r_end r1 < 2 ^ 64" "range_bytes r1 = {r_start r..<r_start f}"
    "r_start r1 = r_start r"
proof -
  have "unat (max (tr_offset f) (tr_offset r) - tr_offset r) = max (r_start f) (r_start r) - r_start r"
    by (auto simp: max_def r_start_def word_le_nat_alt unat_sub_if')
  then show e: "r_end r1 = max (r_start f) (r_start r)" and s: "r_start r1 = r_start r"
    by (simp_all add: r1_def r_end_def r_start_def)
  show "range_bytes r1 = {r_start r..<r_start f}" using e s by (auto simp: range_bytes_def)
  show "r_end r1 < 2 ^ 64" using e r f(1) by (auto simp: range_wf_def)
qed

text \<open>The two cases in which the loop goes on; \<open>loop r1 t1\<close> is the rest of the loop.\<close>

lemma rest_phase:
  assumes "range_wf r" "range_wf f" "r_start f \<le> r_end r" "r_start r \<le> r_end f"
    and d: "d \<in> ravl_elems t" "tr_offset d = tr_offset f" "needs_flush r \<longrightarrow> needs_flush d"
  shows "loop_phase (r\<lparr>tr_size := max (tr_offset f) (tr_offset r) - tr_offset r\<rparr>) RAVL_LESS (Some (tr_offset f)) t"
proof -
  let ?r1 = "r\<lparr>tr_size := max (tr_offset f) (tr_offset r) - tr_offset r\<rparr>"
  have "r_start d = r_end ?r1" if "tr_size ?r1 \<noteq> 0"
    using that range_bytes_rest(1) [OF assms(1-4)] d(2) by (auto simp: max_def r_start_def word_le_nat_alt split: if_splits)
  then show ?thesis using d by (auto simp: loop_phase_def needs_flush_def)
qed

lemma loop_touch:
  assumes t: "ranges_ok t" and n: "points_to (rv_root t) n f" and r: "range_wf r"
    and f: "r_start f \<le> r_end r" "r_start r \<le> r_end f" "r_end r \<le> r_end f"
  defines "r1 \<equiv> r\<lparr>tr_size := max (tr_offset f) (tr_offset r) - tr_offset r\<rparr>"
  assumes IH: "\<forall>t1. ranges_ok t1 \<longrightarrow> loop_phase r1 RAVL_LESS (Some (tr_offset f)) t1 \<longrightarrow> adds_range vec_ok r1 t1 (loop t1)"
  shows "adds_range vec_ok r t (loop (ravl_store t n (pmemobj_tx_merge_flags f r)))"
proof -
  let ?t1 = "ravl_store t n (pmemobj_tx_merge_flags f r)"
  have fe: "f \<in> ravl_elems t" using n by (rule points_to_elem)
  have wf: "range_wf f" by (rule ranges_okD(3) [OF t fe])
  note rest = range_bytes_rest [OF r wf f(1,2), folded r1_def]
  note touch = touch_range_ok [OF t n, of r]
  have "loop_phase r1 RAVL_LESS (Some (tr_offset f)) ?t1"
    unfolding r1_def by (rule rest_phase [OF r wf f(1,2) touch(2)]) (simp_all add: merge_flags_flush)
  moreover have "ranges_ok ?t1" using touch(1) by (simp add: extends_by_def)
  ultimately have "adds_range vec_ok r1 ?t1 (loop ?t1)" using IH by blast
  moreover have "tr_flags r1 = tr_flags r" by (simp add: r1_def)
  moreover have "range_bytes r1 \<subseteq> range_bytes r" "range_bytes r \<subseteq> range_bytes f \<union> range_bytes r1"
    unfolding rest(3) using f by (auto simp: range_bytes_def)
  ultimately show ?thesis using adds_range_then [OF touch(1)] elem_bytes [OF fe] by blast
qed

lemma loop_grow:
  assumes t: "ranges_ok t" and n: "points_to (rv_root t) n f" and r: "range_wf r" and ph: "loop_phase r pr nprev t"
    and top: "\<forall>x \<in> ravl_elems t. starts_before pr (r_end r) x \<longrightarrow> r_start x \<le> r_start f"
    and f: "r_start f \<le> r_end r" "r_start r \<le> r_end f" "r_end f \<le> r_end r"
  defines "r1 \<equiv> r\<lparr>tr_size := max (tr_offset f) (tr_offset r) - tr_offset r\<rparr>"
    and "gap \<equiv> tr_offset r + tr_size r - (tr_offset f + tr_size f)"
  defines "t1 \<equiv> ravl_store t n (pmemobj_tx_merge_flags (f\<lparr>tr_size := tr_size f + gap\<rparr>) r)"
  assumes IH: "\<forall>t2. ranges_ok t2 \<longrightarrow> loop_phase r1 RAVL_LESS (Some (tr_offset f)) t2 \<longrightarrow> adds_range vec_ok r1 t2 (loop t2)"
  shows "adds_range vec_ok r t (\<lambda>tx p.
      Option.bind (if gap \<noteq> 0
                   then pmemobj_tx_add_snapshot vec_ok tx (r\<lparr>tr_offset := tr_offset f + tr_size f, tr_size := gap\<rparr>) p
                   else Some (Inr (), tx, p))
        (\<lambda>(x, tx1, p1). (case x of Inl e \<Rightarrow> Some (Inl e, t1, tx1, p1)
           | Inr _ \<Rightarrow> loop (merge_right (tr_offset f) nprev t1) tx1 p1)))"
proof -
  let ?s = "r\<lparr>tr_offset := tr_offset f + tr_size f, tr_size := gap\<rparr>" and ?t2 = "merge_right (tr_offset f) nprev t1"
  let ?d = "pmemobj_tx_merge_flags (f\<lparr>tr_size := tr_size f + gap\<rparr>) r"
  have fe: "f \<in> ravl_elems t" using n by (rule points_to_elem)
  have wf: "range_wf f" by (rule ranges_okD(3) [OF t fe])
  note rest = range_bytes_rest [OF r wf f(1,2), folded r1_def]
  note grow = grow_right_ok [OF t n r ph top f(3), folded gap_def, folded t1_def]
  have g: "unat gap = r_end r - r_end f"
    using f(3) range_end_word [OF r] range_end_word [OF wf] unfolding gap_def by (simp add: unat_sub_if')
  have s: "range_bytes ?s = {r_end f..<r_end r}"
    using g f(3) range_end_word [OF wf] by (simp add: range_bytes_def r_start_def [of ?s] r_end_def [of ?s])
  have de: "?d \<in> ravl_elems t1" using grow(2) by simp
  have t1: "ranges_ok t1" using grow(1) by (simp add: extends_by_def)
  have q: "\<exists>q \<in> ravl_elems t1. tr_offset q = k \<and> r_start q = r_end ?d" if np: "nprev = Some k" for k
  proof -
    obtain q where q: "q \<in> ravl_elems t" "tr_offset q = k" "r_start q = r_end r"
      using ph r by (auto simp: np loop_phase_def range_wf_def r_start_def r_end_def)
    then have "q \<in> ravl_elems t1 \<or> q = f" using grow(2) by blast
    moreover have "q \<noteq> f" using q(3) f(3) range_wfD(1) [OF wf] by auto
    ultimately show ?thesis using q grow(5) by auto
  qed
  obtain d' where d': "d' \<in> ravl_elems ?t2" "tr_offset d' = tr_offset f" "needs_flush ?d \<longrightarrow> needs_flush d'"
      "extends_by {} (needs_flush r) t1 ?t2"
    using merge_right_ok [OF t1 de q, where flush = "needs_flush r"] by auto
  have "loop_phase r1 RAVL_LESS (Some (tr_offset f)) ?t2"
    unfolding r1_def by (rule rest_phase [OF r wf f(1,2) d'(1,2)]) (use d'(3) in \<open>simp add: merge_flags_flush\<close>)
  moreover have "ranges_ok ?t2" using d'(4) by (simp add: extends_by_def)
  ultimately have ih: "adds_range vec_ok r1 ?t2 (loop ?t2)" using IH by blast
  have fl: "tr_flags r1 = tr_flags r" "tr_flags ?s = tr_flags r" by (simp_all add: r1_def)
  have ws: "range_wf ?s" if "gap \<noteq> 0"
    using that g f(3) range_end_word [OF wf] range_wfD(2) [OF r]
    by (simp add: range_wf_def r_start_def [of ?s] r_end_def [of ?s] unat_gt_0 [symmetric] del: unat_gt_0)
  have b: "range_bytes r1 \<subseteq> range_bytes r" "range_bytes r \<subseteq> range_bytes f \<union> range_bytes ?s \<union> range_bytes r1"
      "range_bytes ?s \<subseteq> range_bytes r" "range_bytes ?s \<inter> range_bytes r1 = {}" "range_bytes ?s \<inter> covered t = {}"
    unfolding rest(3) s using f range_wfD(1) [OF wf] grow(3) by (auto simp: range_bytes_def)
  show ?thesis
  proof (cases "gap = 0")
    case True
    then have "range_bytes ?s = {}" using g f(3) unfolding s by simp
    then have "extends_by (range_bytes f) (needs_flush r) t ?t2"
      using extends_by_trans [OF grow(1) d'(4)] unfolding s by simp
    then have "adds_range vec_ok r t (loop ?t2)"
      by (rule adds_range_then [OF _ ih fl(1) b(1)]) (use b(2) elem_bytes [OF fe] \<open>range_bytes ?s = {}\<close> in auto)
    then show ?thesis using True by simp
  next
    case False
    then show ?thesis
      using adds_range_snapshot [OF grow(1) [folded s] d'(4) ih fl ws [OF False] b(1,2) elem_bytes [OF fe] b(3-5)] by simp
  qed
qed

lemma loop_new:
  assumes t: "ranges_ok t" and r: "range_wf r" and ph: "loop_phase r pr nprev t"
    and left: "\<forall>y \<in> ravl_elems t. starts_before pr (r_end r) y \<longrightarrow> r_end y < r_start r"
    and run: "\<And>tx p. call tx p =
      (case add_new_range True r nprev t of
         (Inl e, t1) \<Rightarrow> Some (Inl e, t1, tx, p)
       | (Inr _, t1) \<Rightarrow> Option.bind (pmemobj_tx_add_snapshot vec_ok tx r p) (\<lambda>(x, tx1, p1). Some (x, t1, tx1, p1)))"
  shows "adds_range vec_ok r t call"
proof -
  obtain t1 where t1: "add_new_range True r nprev t = (Inr (), t1)" "extends_by (range_bytes r) (needs_flush r) t t1"
    using add_new_range_ok [OF t r ph left] by metis
  have "call = (\<lambda>tx p. Option.bind (pmemobj_tx_add_snapshot vec_ok tx r p) (\<lambda>(x, tx1, p1). Some (x, t1, tx1, p1)))"
    by (intro ext) (simp add: run t1(1))
  then show ?thesis using adds_range_new [OF t1(2) bytes_apart [OF t r left] r] by simp
qed

lemma left_of_found:
  assumes t: "ranges_ok t" and f: "f \<in> ravl_elems t" "r_end f < r_start r"
    and top: "\<forall>x \<in> ravl_elems t. starts_before pr (r_end r) x \<longrightarrow> r_start x \<le> r_start f"
    and y: "y \<in> ravl_elems t" "starts_before pr (r_end r) y"
  shows "r_end y < r_start r"
proof (cases "y = f")
  case False
  then show ?thesis
    using top y ranges_okD(4) [OF t y(1) f(1)] f(2) range_wfD(1) [OF ranges_okD(3) [OF t y(1)]]
      range_wfD(1) [OF ranges_okD(3) [OF t f(1)]] by (fastforce simp: apart_def)
qed (use f in simp)

lemma tx_add_loop_ok:
  "ranges_ok t \<Longrightarrow> r_end r < 2 ^ 64 \<Longrightarrow> loop_phase r pr nprev t \<Longrightarrow> r = args\<lparr>tr_size := tr_size r\<rparr> \<Longrightarrow>
   adds_range vec_ok r t (tx_add_loop True vec_ok args r pr nprev t)"
proof (induction "2 * unat (tr_size r) + (if nprev = None then 1 else 0)" arbitrary: r pr nprev t rule: less_induct)
  case less
  note t = less.prems(1) and ph = less.prems(3)
  show ?case
  proof (cases "tr_size r = 0")
    case True
    then have "tx_add_loop True vec_ok args r pr nprev t = snapshots vec_ok [] t"
      by (intro ext) (simp add: tx_add_loop.simps)
    moreover have "range_bytes r = {}" using True by (simp add: range_bytes_def r_start_def r_end_def)
    ultimately show ?thesis unfolding adds_range_def using t
      by (intro exI [of _ "[]"] exI [of _ t]) (simp add: extends_by_def partitions_Nil)
  next
    case False
    then have r: "range_wf r" using less.prems(2) by (simp add: range_wf_def r_start_def r_end_def unat_gt_0)
    have pr: "pr = RAVL_LESS \<or> pr = RAVL_LESS_EQUAL" using ph by (auto simp: loop_phase_def split: option.splits)
    let ?k = "tr_offset r + tr_size r"
    have k: "unat ?k = r_end r" by (rule range_end_word [OF r])
    note new = loop_new [OF t r ph]
    show ?thesis
    proof (cases rule: find_range [OF ranges_okD(1) [OF t] pr, of ?k, case_names none found])
      case none
      show ?thesis by (rule new) (use none False in \<open>auto simp: k tx_add_loop.simps Let_def\<close>)
    next
      case (found n f)
      note top = found(6) [unfolded k] and sb = found(5) [unfolded k]
      have wf: "range_wf f" by (rule ranges_okD(3) [OF t found(4)])
      let ?e = "tr_offset f + tr_size f" and ?m = "max (tr_offset f) (tr_offset r)"
      let ?r1 = "r\<lparr>tr_size := ?m - tr_offset r\<rparr>"
      have e: "unat ?e = r_end f" by (rule range_end_word [OF wf])
      have e0: "?e \<noteq> 0" using e range_wfD(1) [OF wf] by (metis less_nat_zero_code unat_0)
      have le: "?e < tr_offset r \<longleftrightarrow> r_end f < r_start r" "?e \<le> ?k \<longleftrightarrow> r_end f \<le> r_end r"
        by (simp_all add: word_less_nat_alt word_le_nat_alt e k r_start_def)
      note run = tx_add_loop.simps [of True vec_ok args r pr nprev t] found(1,2) False Let_def
      have fs: "r_start f \<le> r_end r" using sb by (auto simp: starts_before_def)
      show ?thesis
      proof (cases "r_end f < r_start r")
        case True
        show ?thesis by (rule new) (use True left_of_found [OF t found(4) True top] in \<open>auto simp: run e0 le\<close>)
      next
        case touch: False
        then have se: "r_start r \<le> r_end f" by simp
        note rest = range_bytes_rest [OF r wf fs se]
        have args1: "?r1 = args\<lparr>tr_size := tr_size ?r1\<rparr>" using less.prems(4) by (metis tx_range_def.update_convs(2) tx_range_def.surjective tx_range_def.select_convs(2))
        have sz: "tr_size r - (?k - ?m) = ?m - tr_offset r" "tr_size r - ((?e - ?m) + (?k - ?e)) = ?m - tr_offset r"
          by (simp_all add: algebra_simps)
        have m: "pmemobj_tx_merge_flags x args = pmemobj_tx_merge_flags x r" for x
          by (subst less.prems(4)) simp
        have sn: "args\<lparr>tr_offset := ?e, tr_size := ?k - ?e\<rparr> = r\<lparr>tr_offset := ?e, tr_size := ?k - ?e\<rparr>"
          by (subst less.prems(4)) simp
        have tz: "tr_size (r\<lparr>tr_offset := x, tr_size := y\<rparr>) = y" for x y by simp
        have dec: "2 * unat (tr_size ?r1) + (if Some (tr_offset f) = None then 1 else 0)
            < 2 * unat (tr_size r) + (if nprev = None then 1 else 0)"
          using rest(1) r sb ph by (auto simp: r_end_def r_start_def range_wf_def starts_before_def loop_phase_def max_def
            split: if_splits option.splits)
        have IH: "\<forall>t1. ranges_ok t1 \<longrightarrow> loop_phase ?r1 RAVL_LESS (Some (tr_offset f)) t1 \<longrightarrow>
            adds_range vec_ok ?r1 t1 (tx_add_loop True vec_ok args ?r1 RAVL_LESS (Some (tr_offset f)) t1)"
          using less.hyps [OF dec _ rest(2) _ args1] by blast
        show ?thesis
        proof (cases "r_end f \<le> r_end r")
          case True
          from loop_grow [OF t found(3) r ph top fs se True IH] show ?thesis
            by (rule back_subst [of "adds_range vec_ok r t"]) (intro ext,
              simp only: run e0 le touch True sz m sn simp_thms if_True if_False option.case tz)
        next
          case False
          then have "r_end r \<le> r_end f" by simp
          from loop_touch [OF t found(3) r fs se this IH] show ?thesis
            by (rule back_subst [of "adds_range vec_ok r t"]) (intro ext, simp add: run e0 le touch False sz m)
        qed
      qed
    qed
  qed
qed

end
