(* ===== verification/Tx_Theorems.thy ===== *)
theory Tx_Theorems
  imports Tx_Ranges Memops_Theorems
begin

text \<open>
  Properties of the snapshot ranges of transactions: which bytes a call logs, which bytes
  are flushed on commit, which bytes an abort restores, and a range that is recorded although
  its snapshot has failed.
\<close>

section \<open>Restoring a snapshot\<close>

definition lbytes :: "(u64 \<times> u64) list \<Rightarrow> nat set" where
  "lbytes rs = (\<Union>(b, e) \<in> set rs. {unat b..<unat e})"

definition within :: "u64 \<Rightarrow> u64 \<Rightarrow> (u64 \<times> u64) list \<Rightarrow> bool" where
  "within lo hi rs \<longleftrightarrow> list_all (\<lambda>(b, e). lo \<le> b \<and> b \<le> e \<and> e \<le> hi) rs"

lemma lbytes_simps [simp]:
  "lbytes [] = {}" "lbytes ((b, e) # rs) = {unat b..<unat e} \<union> lbytes rs" "lbytes (rs @ qs) = lbytes rs \<union> lbytes qs"
  by (auto simp: lbytes_def)

lemma within_simps [simp]:
  "within lo hi []" "within lo hi ((b, e) # rs) \<longleftrightarrow> lo \<le> b \<and> b \<le> e \<and> e \<le> hi \<and> within lo hi rs"
  "within lo hi (rs @ qs) \<longleftrightarrow> within lo hi rs \<and> within lo hi qs"
  by (auto simp: within_def)

lemma remove_range_loop_ok:
  assumes "lb \<le> le" "within lo hi front" "within lo hi kept" "within lo hi txr"
  shows "\<exists>rs. remove_range_loop True lb le front kept txr = Inr rs \<and> within lo hi rs \<and>
    lbytes rs = lbytes front \<union> lbytes kept \<union> (lbytes txr - {unat lb..<unat le})"
  using assms
proof (induction True lb le front kept txr rule: remove_range_loop.induct)
  case (2 lb le front kept b e txr)
  show ?case
  proof (cases "lb \<ge> e \<or> le < b")
    case True
    then have "{unat b..<unat e} - {unat lb..<unat le} = {unat b..<unat e}"
      using 2(3) by (auto simp: word_le_nat_alt word_less_nat_alt)
    then show ?thesis using True 2(1) [OF True 2(3)] 2(4-6) by (auto simp: Un_Diff)
  next
    case False
    let ?f1 = "if lb > b then (b, lb) # front else front"
    let ?f2 = "if le < e then (le, e) # ?f1 else ?f1"
    have "{unat b..<unat e} - {unat lb..<unat le} =
        (if lb > b then {unat b..<unat lb} else {}) \<union> (if le < e then {unat le..<unat e} else {})"
      using False 2(3) by (auto simp: word_le_nat_alt word_less_nat_alt)
    then have "lbytes ?f2 = lbytes front \<union> ({unat b..<unat e} - {unat lb..<unat le})" by auto
    moreover have "within lo hi ?f2" using 2(3,4,6) False by auto
    ultimately show ?thesis
      using False 2(2) [OF False _ refl refl 2(3) _ 2(5)] 2(6) by (auto simp: Let_def Un_Diff)
  qed
qed simp

lemma remove_locks_ok:
  assumes "\<forall>lk \<in> set lks. unat lk + 64 < 2 ^ 64" "within lo hi rs"
  shows "\<exists>rs'. remove_locks True lks rs = Inr rs' \<and> within lo hi rs' \<and>
    lbytes rs' = lbytes rs - (\<Union>lk \<in> set lks. {unat lk..<unat lk + 64})"
  using assms
proof (induction lks arbitrary: rs)
  case (Cons lk lks)
  have lk: "unat (lk + 64) = unat lk + 64" using Cons.prems(1) by (subst unat_add_small) simp_all
  then have "lk \<le> lk + 64" by (simp add: word_le_nat_alt)
  then obtain rs1 where r: "tx_remove_range True rs lk (lk + 64) = Inr rs1" "within lo hi rs1"
      "lbytes rs1 = lbytes rs - {unat lk..<unat lk + 64}"
    using remove_range_loop_ok [of lk "lk + 64" lo hi "[]" "[]" rs] Cons.prems(2)
    by (auto simp: tx_remove_range_def lk)
  then show ?case using Cons.IH [of rs1] Cons.prems(1) by (auto simp: Diff_eq Int_assoc)
qed simp

text \<open>A copy that is persisted: the bytes are visible and durable.\<close>

definition durable_at :: "pmem \<Rightarrow> nat set" where
  "durable_at p = {a. md_img (pm_s p) a = vis p a}"

lemma ppersist_durable:
  assumes "md_power (pm_s p) = None"
  obtains p' where "ppersist off bs p = (Inr (), p')" "md_power (pm_s p') = None" "vis p' = wr (vis p) off bs"
    "durable_at p \<union> {off..<off + length bs} \<subseteq> durable_at p'"
proof -
  let ?q = "p\<lparr>pm_ps := pm_ps p @ [(off, bs, True)]\<rparr>"
  let ?p = "\<lparr> pm_s = (pm_s p)\<lparr>md_img := drained_img (md_img (pm_s p)) (pm_ps ?q)\<rparr>, pm_ps = undrained (vis ?q) (pm_ps ?q) \<rparr>"
  have r: "ppersist off bs p = (Inr (), ?p)"
    using assms by (simp add: ppersist_def pstore_steady pdrain_steady bind_io_def)
  have v: "vis ?p = vis ?q"
    using vis_drained [of "md_img (pm_s p)" "pm_ps ?q"] by (simp add: vis_def)
  have c: "a \<in> durable_at ?p" if "covers (flushed_only (pm_ps ?q)) a \<or> md_img (pm_s p) a = vis ?q a" for a
    using that unfolding durable_at_def v by (auto simp: drained_img_def vis_def)
  have "a \<in> durable_at ?p" if "a \<in> durable_at p \<union> {off..<off + length bs}" for a
  proof (cases "a \<in> {off..<off + length bs}")
    case True
    then show ?thesis by (intro c disjI1) (auto simp: flushed_only_def covers_def plain_def)
  next
    case False
    then show ?thesis using that by (intro c disjI2) (auto simp: durable_at_def vis_pstore wr_outside)
  qed
  then show ?thesis
    using that [OF r] assms vis_pstore [of p off bs True] v by (simp add: subset_iff)
qed

text \<open>The bytes of an undo entry at \<open>e\<close> are those of the range at offset \<open>off\<close>.\<close>

definition entry_byte :: "mem \<Rightarrow> u64 \<Rightarrow> nat \<Rightarrow> nat \<Rightarrow> byte" where
  "entry_byte m e off a = m (unat e + 24 + (a - off))"

lemma restore_loop_ok:
  fixes base dst hi e :: u64
  defines "off \<equiv> unat dst - unat base" and "len \<equiv> unat hi - unat dst"
  assumes pw: "md_power (pm_s p) = None" and w: "within dst hi rs" "base \<le> dst"
    and log: "unat e + 24 + len < 2 ^ 64" "{unat e + 24..<unat e + 24 + len} \<inter> {off..<off + len} = {}"
  shows "\<exists>p'. restore_loop base e dst rs p = (Inr (), p') \<and> md_power (pm_s p') = None \<and>
    vis p' = (\<lambda>a. if a + unat base \<in> lbytes rs then entry_byte (vis p) e off a else vis p a) \<and>
    durable_at p \<union> {a. a + unat base \<in> lbytes rs} \<subseteq> durable_at p'"
  using pw w(1)
proof (induction rs arbitrary: p)
  case (Cons x rs)
  obtain b c where x: "x = (b, c)" by (cases x)
  have bc: "unat dst \<le> unat b" "unat b \<le> unat c" "unat c \<le> unat hi" "within dst hi rs"
    using Cons.prems(2) by (simp_all add: x word_le_nat_alt)
  have bd: "unat base \<le> unat dst" using w(2) by (simp add: word_le_nat_alt)
  let ?n = "unat c - unat b" and ?o = "unat b - unat base"
  have n: "unat (c - b) = ?n" "unat (b - base) = ?o" "unat (b - dst) = unat b - unat dst"
    using bc bd by (simp_all add: unat_sub_if')
  have "unat (e + 24 + (b - dst)) = unat e + 24 + (unat b - unat dst)"
  proof -
    have "unat (e + 24) = unat e + 24" using log(1) by (subst unat_add_small) simp_all
    then show ?thesis using log(1) bc n(3) unfolding len_def by (subst unat_add_small) simp_all
  qed
  then obtain p1 where p1: "ppersist (unat (b - base)) (rd (vis p) (unat (e + 24 + (b - dst))) (unat (c - b))) p = (Inr (), p1)"
      "md_power (pm_s p1) = None" "vis p1 = wr (vis p) ?o (rd (vis p) (unat e + 24 + (unat b - unat dst)) ?n)"
      "durable_at p \<union> {?o..<?o + ?n} \<subseteq> durable_at p1"
    using ppersist_durable [OF Cons.prems(1), of ?o "rd (vis p) (unat e + 24 + (unat b - unat dst)) ?n"]
    unfolding n by (auto simp: length_rd)
  have o: "?o = off + (unat b - unat dst)" "?o + ?n = off + (unat c - unat dst)" using bc bd by (simp_all add: off_def)
  have v1: "vis p1 a = (if a + unat base \<in> {unat b..<unat c} then entry_byte (vis p) e off a else vis p a)" for a
    using bc bd unfolding p1(3) by (auto simp: wr_def entry_byte_def off_def add.assoc)
  have eb: "entry_byte (vis p1) e off a = entry_byte (vis p) e off a" if "a \<in> {off..<off + len}" for a
    using log(2) that bc bd unfolding entry_byte_def v1 off_def len_def by fastforce
  have dr: "{?o..<?o + ?n} = {a. a + unat base \<in> {unat b..<unat c}}" using bc bd by auto
  have lb: "a \<in> {off..<off + len}" if "a + unat base \<in> lbytes rs" for a
    using that bc(4) bd by (auto simp: lbytes_def within_def list_all_iff off_def len_def word_le_nat_alt dest!: bspec)
  obtain p' where p': "restore_loop base e dst rs p1 = (Inr (), p')" "md_power (pm_s p') = None"
      "vis p' = (\<lambda>a. if a + unat base \<in> lbytes rs then entry_byte (vis p1) e off a else vis p1 a)"
      "durable_at p1 \<union> {a. a + unat base \<in> lbytes rs} \<subseteq> durable_at p'"
    using Cons.IH [OF p1(2) bc(4)] by blast
  have "vis p' = (\<lambda>a. if a + unat base \<in> lbytes (x # rs) then entry_byte (vis p) e off a else vis p a)"
    unfolding p'(3) x by (rule ext) (auto simp: v1 eb [OF lb])
  moreover have "durable_at p \<union> {a. a + unat base \<in> lbytes (x # rs)} \<subseteq> durable_at p'"
    using p1(4) p'(4) unfolding dr x by auto
  ultimately show ?case using p1(1) p'(1,2) by (auto simp: x bind_io_def)
qed simp

lemma tx_restore_range_ok:
  fixes tx e p
  defines "off \<equiv> unat (ulog_entry_offset (vis p) e)" and "n \<equiv> unat (ld64 (vis p) (e + 16))"
  assumes pw: "md_power (pm_s p) = None" and fits: "unat (tx_base tx) + off + n < 2 ^ 64"
    and lks: "\<forall>lk \<in> set (tx_locks tx). unat lk + 64 < 2 ^ 64"
    and log: "unat e + 24 + n < 2 ^ 64" "{unat e + 24..<unat e + 24 + n} \<inter> {off..<off + n} = {}"
  defines "B \<equiv> {a \<in> {off..<off + n}. \<forall>lk \<in> set (tx_locks tx). a + unat (tx_base tx) \<notin> {unat lk..<unat lk + 64}}"
  shows "\<exists>p'. tx_restore_range True tx e p = (Inr (), p') \<and> md_power (pm_s p') = None \<and>
    vis p' = (\<lambda>a. if a \<in> B then vis p (unat e + 24 + (a - off)) else vis p a) \<and> durable_at p \<union> B \<subseteq> durable_at p'"
proof -
  let ?b = "tx_base tx"
  let ?dst = "?b + ulog_entry_offset (vis p) e" and ?n = "ld64 (vis p) (e + 16)"
  have d: "unat ?dst = unat ?b + off" using fits by (subst unat_add_small) (simp_all add: off_def)
  have h: "unat (?dst + ?n) = unat ?b + off + n" using fits d by (subst unat_add_small) (simp_all add: n_def)
  have w: "within ?dst (?dst + ?n) [(?dst, ?dst + ?n)]" unfolding within_simps by (simp add: word_le_nat_alt d h)
  then obtain rs where rs: "remove_locks True (tx_locks tx) [(?dst, ?dst + ?n)] = Inr rs" "within ?dst (?dst + ?n) rs"
      "lbytes rs = {unat ?dst..<unat (?dst + ?n)} - (\<Union>lk \<in> set (tx_locks tx). {unat lk..<unat lk + 64})"
    using remove_locks_ok [OF lks w] by (auto simp del: word_le_nat_alt)
  have bd: "?b \<le> ?dst" by (simp add: word_le_nat_alt d)
  have o: "unat ?dst - unat ?b = off" "unat (?dst + ?n) - unat ?dst = n" using d h by simp_all
  obtain p' where p': "restore_loop ?b e ?dst rs p = (Inr (), p')" "md_power (pm_s p') = None"
      "vis p' = (\<lambda>a. if a + unat ?b \<in> lbytes rs then entry_byte (vis p) e off a else vis p a)"
      "durable_at p \<union> {a. a + unat ?b \<in> lbytes rs} \<subseteq> durable_at p'"
    using restore_loop_ok [OF pw rs(2) bd, of e, unfolded o, OF log] by blast
  have "a + unat ?b \<in> lbytes rs \<longleftrightarrow> a \<in> B" for a unfolding rs(3) d h B_def by auto
  then show ?thesis using p' rs(1) by (auto simp: tx_restore_range_def Let_def entry_byte_def)
qed

section \<open>Flushes on commit\<close>

lemma foreach_inorder:
  "ravl_foreach_node n cb s = fold cb (inorder n) s"
  by (induction n arbitrary: s) simp_all

lemma fold_flush_range:
  "fold (tx_flush_range base) xs fs = fs @ map (\<lambda>x. (base + tr_offset x, tr_size x)) (filter needs_flush xs)"
  by (induction xs arbitrary: fs) (simp_all add: tx_flush_range_def needs_flush_def)

section \<open>Properties\<close>

text \<open>
  C11: On abort an undo log entry brings back exactly the bytes of its range as they were
  logged, except for those that belong to a lock that the transaction holds; every other
  byte keeps its value, and the restored bytes are durable when the entry has been applied.
\<close>

theorem tx_undo_entry_apply_restores:
  assumes "ulog_entry_type (vis p) e = ULOG_OPERATION_BUF_CPY"
    and "off = unat (ulog_entry_offset (vis p) e)" "n = unat (ld64 (vis p) (e + 16))"
    and "md_power (pm_s p) = None" "unat (tx_base tx) + off + n < 2 ^ 64"
    and "\<forall>lk \<in> set (tx_locks tx). unat lk + 64 < 2 ^ 64"
    and "unat e + 24 + n < 2 ^ 64" "{unat e + 24..<unat e + 24 + n} \<inter> {off..<off + n} = {}"
    and "locked = {a. \<exists>lk \<in> set (tx_locks tx). a + unat (tx_base tx) \<in> {unat lk..<unat lk + 64}}"
  shows "\<exists>p'. tx_undo_entry_apply True tx e p = (Inr 0, p') \<and>
    (\<forall>a. vis p' a = (if a \<in> {off..<off + n} - locked then vis p (unat e + 24 + (a - off)) else vis p a)) \<and>
    (\<forall>a. a \<in> {off..<off + n} - locked \<longrightarrow> md_img (pm_s p') a = vis p' a)"
proof -
  have B: "{a \<in> {off..<off + n}. \<forall>lk \<in> set (tx_locks tx). a + unat (tx_base tx) \<notin> {unat lk..<unat lk + 64}} =
      {off..<off + n} - locked" using assms(9) by blast
  obtain p' where p': "tx_restore_range True tx e p = (Inr (), p')"
      "vis p' = (\<lambda>a. if a \<in> {off..<off + n} - locked then vis p (unat e + 24 + (a - off)) else vis p a)"
      "{off..<off + n} - locked \<subseteq> durable_at p'"
    using tx_restore_range_ok [of p tx e] assms(4-8) unfolding assms(2,3) [symmetric] B by blast
  have "tx_undo_entry_apply True tx e p = (Inr 0, p')" using assms(1) p'(1) by (simp add: tx_undo_entry_apply_def bind_io_def)
  moreover have "md_img (pm_s p') a = vis p' a" if "a \<in> {off..<off + n} - locked" for a
    using p'(3) that by (auto simp: durable_at_def)
  ultimately show ?thesis using p'(2) by (intro exI [of _ p']) simp
qed

text \<open>
  C12: Commit flushes, in ascending order, exactly the recorded ranges that are not marked
  as not to be flushed, and deletes the tree.
\<close>

theorem tx_pre_commit_flushes:
  assumes t: "tx_ranges tx = Some t" "ranges_ok t"
  shows "\<exists>rs. tx_pre_commit tx = (Inr (map (\<lambda>r. (tx_base tx + tr_offset r, tr_size r)) rs), tx\<lparr>tx_ranges := None\<rparr>) \<and>
    (\<Union>r \<in> set rs. range_bytes r) = to_flush t \<and> sorted_wrt (\<lambda>x y. r_end x \<le> r_start y) rs"
proof -
  let ?rs = "filter needs_flush (inorder (rv_root t))"
  have "tx_pre_commit tx = (Inr (map (\<lambda>r. (tx_base tx + tr_offset r, tr_size r)) ?rs), tx\<lparr>tx_ranges := None\<rparr>)"
    by (simp add: tx_pre_commit_def t(1) ravl_delete_cb_def foreach_inorder fold_flush_range)
  moreover have "(\<Union>r \<in> set ?rs. range_bytes r) = to_flush t" by (auto simp: to_flush_def ravl_elems_def)
  moreover have "sorted_wrt (\<lambda>x y. r_end x \<le> r_start y) ?rs"
  proof (rule sorted_wrt_mono_rel)
    show "sorted_wrt (\<lambda>x y. tr_offset x < tr_offset y) ?rs"
      using t(2) by (auto simp: ranges_ok_def ravl_ok_def ascending_def intro: sorted_wrt_filter)
    fix x y
    assume "x \<in> set ?rs" "y \<in> set ?rs" "tr_offset x < tr_offset y"
    then show "r_end x \<le> r_start y"
      using ranges_okD(4) [OF t(2), of x y] ranges_okD(3) [OF t(2), of x] ranges_okD(3) [OF t(2), of y]
      by (auto simp: ravl_elems_def apart_def range_wf_def r_start_def word_less_nat_alt)
  qed
  ultimately show ?thesis by blast
qed

section \<open>Calls\<close>

text \<open>A range in the heap that is not too large, with offsets that do not wrap around.\<close>

definition in_heap :: "tx \<Rightarrow> tx_range_def \<Rightarrow> bool" where
  "in_heap tx r \<longleftrightarrow> tr_size r \<le> PMEMOBJ_MAX_ALLOC_SIZE \<and> pop_heap_offset (tx_pop tx) \<le> tr_offset r \<and>
     r_end r \<le> unat (pop_heap_offset (tx_pop tx)) + unat (pop_heap_size (tx_pop tx)) \<and>
     unat (pop_heap_offset (tx_pop tx)) + unat (pop_heap_size (tx_pop tx)) < 2 ^ 64"

text \<open>What a call returns, from the way the loop ends.\<close>

definition tx_add_result ::
  "u64 \<Rightarrow> (err + unit) \<times> tx_range_def ravl \<times> tx \<times> pmem \<Rightarrow> (tx_fail + unit) \<times> tx \<times> pmem" where
  "tx_add_result flags = (\<lambda>(x, t1, tx1, p1).
     (case x of Inl e \<Rightarrow> Inl (tx_add_failed e flags) | Inr _ \<Rightarrow> Inr (), tx1\<lparr>tx_ranges := Some t1\<rparr>, p1))"

lemma add_common_loop:
  assumes h: "in_heap tx args" and t: "tx_ranges tx = Some t"
  shows "pmemobj_tx_add_common mem_ok vec_ok tx args p =
    map_option (tx_add_result (tr_flags args)) (tx_add_loop mem_ok vec_ok args args RAVL_LESS_EQUAL None t tx p)"
proof -
  let ?o = "pop_heap_offset (tx_pop tx)" and ?s = "pop_heap_size (tx_pop tx)"
  have "unat (?o + ?s) = unat ?o + unat ?s" using h by (intro unat_add_small) (simp add: in_heap_def)
  moreover have "unat (tr_offset args + tr_size args) = r_end args"
    using h unfolding r_end_def by (intro unat_add_small) (simp add: in_heap_def r_end_def)
  ultimately have "\<not> tr_offset args + tr_size args > ?o + ?s" "\<not> tr_offset args < ?o" "\<not> tr_size args > PMEMOBJ_MAX_ALLOC_SIZE"
    using h by (simp_all add: in_heap_def word_less_nat_alt word_le_nat_alt)
  then show ?thesis
    unfolding pmemobj_tx_add_common_def Let_def t tx_add_result_def
    by (cases "tx_add_loop mem_ok vec_ok args args RAVL_LESS_EQUAL None t tx p") (simp_all add: case_prod_beta)
qed

lemma add_common_adds:
  assumes h: "in_heap tx args" and t: "tx_ranges tx = Some t" "ranges_ok t"
  obtains ss t' where
    "\<And>p. pmemobj_tx_add_common True vec_ok tx args p = map_option (tx_add_result (tr_flags args)) (snapshots vec_ok ss t' tx p)"
    "extends_by (range_bytes args) (needs_flush args) t t'"
    "partitions (tr_flags args) (range_bytes args - covered t) (map fst ss)" "list_all (between (range_bytes args) t) ss"
proof -
  have "adds_range vec_ok args t (tx_add_loop True vec_ok args args RAVL_LESS_EQUAL None t)"
    using h t(2) by (intro tx_add_loop_ok) (simp_all add: in_heap_def loop_phase_def)
  then show ?thesis using that add_common_loop [OF h t(1)] unfolding adds_range_def by metis
qed

lemma in_heap_part:
  assumes h: "in_heap tx args" and s: "range_wf s" "range_bytes s \<subseteq> range_bytes args" and pop: "tx_pop tx' = tx_pop tx"
  shows "in_heap tx' s"
proof -
  have "r_start s \<in> range_bytes s" "r_end s - 1 \<in> range_bytes s" using s(1) by (auto simp: range_wf_def range_bytes_def)
  then have "r_start args \<le> r_start s" "r_end s \<le> r_end args" using s(2) by (auto simp: range_bytes_def)
  then show ?thesis using h by (auto simp: in_heap_def pop r_start_def r_end_def word_le_nat_alt)
qed

lemma action_add_pop:
  assumes "tx_action_add vec_ok tx p = Some (x, tx1, p1)"
  shows "tx_pop tx1 = tx_pop tx"
proof -
  obtain y tx2 p2 where y: "tx_action_reserve tx 1 p = Some (y, tx2, p2)"
    using assms by (auto simp: tx_action_add_def bind_eq_Some_conv)
  then have "tx_pop tx2 = tx_pop tx" by (auto simp: tx_action_reserve_def Let_def bind_eq_Some_conv)
  then show ?thesis using assms y by (cases y) (auto simp: tx_action_add_def Let_def split: if_splits)
qed

lemma snapshot_pop:
  assumes "pmemobj_tx_add_snapshot vec_ok tx s p = Some (x, tx1, p1)"
  shows "tx_pop tx1 = tx_pop tx"
proof (cases "tr_flags s AND POBJ_FLAG_NO_SNAPSHOT = 0")
  case True
  then obtain y tx2 p2 where y: "first_snapshot_action vec_ok tx p = Some (y, tx2, p2)"
    using assms by (auto simp: pmemobj_tx_add_snapshot_def bind_eq_Some_conv)
  have "tx_pop tx2 = tx_pop tx"
  proof (cases "tx_first_snapshot tx")
    case f: True
    then obtain z tx3 p3 where z: "tx_action_add vec_ok tx p = Some (z, tx3, p3)"
      using y by (auto simp: first_snapshot_action_def bind_eq_Some_conv)
    then show ?thesis using y f action_add_pop [OF z]
      by (cases z) (auto simp: first_snapshot_action_def palloc_set_value_def Let_def)
  qed (use y in \<open>simp add: first_snapshot_action_def\<close>)
  then show ?thesis using assms True y by (cases y) (auto simp: pmemobj_tx_add_snapshot_def bind_eq_Some_conv)
qed (use assms in \<open>simp add: pmemobj_tx_add_snapshot_def\<close>)

lemma snapshots_fail:
  "snapshots vec_ok ss t' tx p = Some (Inl e, tk, tx1, p1) \<Longrightarrow>
   \<exists>s tx0 p0. (s, tk) \<in> set ss \<and> pmemobj_tx_add_snapshot vec_ok tx0 s p0 = Some (Inl e, tx1, p1) \<and> tx_pop tx1 = tx_pop tx"
proof (induction vec_ok ss t' tx p rule: snapshots.induct)
  case (2 vec_ok s t ss t' tx p)
  then obtain x tx2 p2 where x: "pmemobj_tx_add_snapshot vec_ok tx s p = Some (x, tx2, p2)"
    by (auto simp: bind_eq_Some_conv)
  show ?case
  proof (cases x)
    case (Inl e1)
    then show ?thesis using 2(2) x snapshot_pop [OF x] by auto
  next
    case (Inr u)
    then have "snapshots vec_ok ss t' tx2 p2 = Some (Inl e, tk, tx1, p1)" using 2(2) x by simp
    then show ?thesis using 2(1) [OF _ refl refl Inr] snapshot_pop [OF x] x by fastforce
  qed
qed simp

text \<open>
  C10: Adding a range of the heap to a transaction keeps the recorded ranges disjoint and makes
  them cover the bytes of the range in addition.  The call amounts to a sequence of snapshots
  that have no byte in common and together are exactly the bytes that were not covered before,
  so that no byte is logged twice; it succeeds if all of them do, and fails with the first that
  fails.  A byte that has to be flushed on commit stays so, and the bytes added have to be
  flushed unless the flags of the call say otherwise.
\<close>

theorem pmemobj_tx_xadd_range_logs_once:
  assumes work: "tx_stage tx = TX_STAGE_WORK" "fst oid = tx_uuid_lo tx" "flags AND NOT POBJ_XADD_VALID_FLAGS = 0"
    and args: "args = \<lparr> tr_offset = snd oid + hoff, tr_size = n, tr_flags = flags \<rparr>" "in_heap tx args"
    and t: "tx_ranges tx = Some t" "ranges_ok t"
  shows "\<exists>ss t'.
    (\<forall>p. pmemobj_tx_xadd_range True vec_ok tx oid hoff n flags p =
       map_option (tx_add_result flags) (snapshots vec_ok ss t' tx p)) \<and>
    partitions flags (range_bytes args - covered t) (map fst ss) \<and>
    ranges_ok t' \<and> covered t' = covered t \<union> range_bytes args \<and>
    to_flush t \<subseteq> to_flush t' \<and> (needs_flush args \<longrightarrow> range_bytes args \<subseteq> to_flush t')"
proof -
  obtain ss t' where s:
      "\<And>p. pmemobj_tx_add_common True vec_ok tx args p = map_option (tx_add_result (tr_flags args)) (snapshots vec_ok ss t' tx p)"
      "extends_by (range_bytes args) (needs_flush args) t t'"
      "partitions (tr_flags args) (range_bytes args - covered t) (map fst ss)"
    using add_common_adds [OF args(2) t] by metis
  have "pmemobj_tx_xadd_range True vec_ok tx oid hoff n flags p = map_option (tx_add_result flags) (snapshots vec_ok ss t' tx p)" for p
    using s(1) [of p] work by (simp add: pmemobj_tx_xadd_range_def args(1) [symmetric]) (simp add: args(1))
  moreover have "partitions flags (range_bytes args - covered t) (map fst ss)" using s(3) by (simp add: args(1))
  ultimately show ?thesis using s(2) unfolding extends_by_def by metis
qed

text \<open>
  C13: The tree is changed before the snapshot is taken.  When a call fails for want of memory
  and, by its flags, does not abort the transaction, some bytes of its range were not covered
  before, their snapshot has failed, and yet they count as logged: adding them again succeeds
  without a snapshot, the undo log and the memory stay as they are.
\<close>

theorem failed_snapshot_stays_recorded:
  assumes h: "in_heap tx args" and t: "tx_ranges tx = Some t" "ranges_ok t"
    and fail: "pmemobj_tx_add_common True vec_ok tx args p = Some (Inl (TX_RETURN ENOMEM), tx', p')"
  shows "\<exists>s. range_wf s \<and> range_bytes s \<subseteq> range_bytes args - covered t \<and>
    (\<exists>tx0 p0 e tx1. pmemobj_tx_add_snapshot vec_ok tx0 s p0 = Some (Inl e, tx1, p')) \<and>
    (\<forall>vec_ok p2. \<exists>t'. pmemobj_tx_add_common True vec_ok tx' s p2 = Some (Inr (), tx'\<lparr>tx_ranges := Some t'\<rparr>, p2))"
proof -
  obtain ss t' where s:
      "\<And>p. pmemobj_tx_add_common True vec_ok tx args p = map_option (tx_add_result (tr_flags args)) (snapshots vec_ok ss t' tx p)"
      "partitions (tr_flags args) (range_bytes args - covered t) (map fst ss)" "list_all (between (range_bytes args) t) ss"
    using add_common_adds [OF h t] by metis
  obtain y tk tx1 where y: "snapshots vec_ok ss t' tx p = Some (y, tk, tx1, p')" "tx' = tx1\<lparr>tx_ranges := Some tk\<rparr>"
      "tx_add_result (tr_flags args) (y, tk, tx1, p') = (Inl (TX_RETURN ENOMEM), tx', p')"
    using fail s(1) [of p] by (auto simp: tx_add_result_def)
  then obtain e where f: "snapshots vec_ok ss t' tx p = Some (Inl e, tk, tx1, p')" "tx' = tx1\<lparr>tx_ranges := Some tk\<rparr>"
    by (cases y) (simp_all add: tx_add_result_def)
  obtain s tx0 p0 where g: "(s, tk) \<in> set ss" "pmemobj_tx_add_snapshot vec_ok tx0 s p0 = Some (Inl e, tx1, p')"
      "tx_pop tx1 = tx_pop tx"
    using snapshots_fail [OF f(1)] by blast
  have w: "range_wf s" "range_bytes s \<subseteq> range_bytes args - covered t"
    using s(2) g(1) by (force simp: partitions_def)+
  have "between (range_bytes args) t (s, tk)" using s(3) g(1) by (simp add: list_all_iff)
  then have b: "ranges_ok tk" "range_bytes s - covered tk = {}" by (auto simp: between_def)
  have h': "in_heap tx' s" using in_heap_part [OF h w(1), of tx'] w(2) f(2) g(3) by auto
  have tr: "tx_ranges tx' = Some tk" using f(2) by simp
  have "\<exists>t'. pmemobj_tx_add_common True v tx' s p2 = Some (Inr (), tx'\<lparr>tx_ranges := Some t'\<rparr>, p2)" for v p2
  proof -
    obtain ss2 t2 where s2:
        "\<And>p. pmemobj_tx_add_common True v tx' s p = map_option (tx_add_result (tr_flags s)) (snapshots v ss2 t2 tx' p)"
        "partitions (tr_flags s) (range_bytes s - covered tk) (map fst ss2)"
      using add_common_adds [OF h' tr b(1), of v] by metis
    then have "ss2 = []" using b(2) by (simp add: partitions_empty)
    then show ?thesis using s2(1) [of p2] by (intro exI [of _ t2]) (simp add: tx_add_result_def)
  qed
  then show ?thesis using w g(2) by blast
qed

section \<open>Examples\<close>

text \<open>A transaction with one range, a held lock, and an undo log without room.\<close>

definition ex_range :: tx_range_def where
  "ex_range = \<lparr> tr_offset = 0x10020, tr_size = 0x20, tr_flags = 0 \<rparr>"

definition ex_ranges :: "tx_range_def ravl" where
  "ex_ranges = \<lparr> rv_root = RNode RNil 0 ex_range RNil, rv_compare = tx_range_def_cmp \<rparr>"

definition ex_tx :: tx where
  "ex_tx = \<lparr> tx_pop = ex_pool, tx_base = 0, tx_uuid_lo = 7, tx_stage = TX_STAGE_WORK,
     tx_undo = ex_ctx\<lparr>oc_type := LOG_TYPE_UNDO, oc_capacity := 0\<rparr>, tx_external = ex_ctx, tx_locks = [0x10008],
     tx_ranges = Some ex_ranges, tx_actions = [], tx_redo_userbufs_capacity = 0, tx_first_snapshot = False \<rparr>"

lemma ex_ranges_ok: "ranges_ok ex_ranges"
  by (simp add: ranges_ok_def ex_ranges_def ravl_ok_def ascending_def ravl_elems_def range_set_def range_wf_def
      r_start_def r_end_def ex_range_def rank_gap_def)

lemma ex_ranges_bytes: "covered ex_ranges = {0x10020..<0x10040}" "to_flush ex_ranges = {0x10020..<0x10040}"
  by (simp_all add: covered_def to_flush_def ex_ranges_def ravl_elems_def ex_range_def range_bytes_def r_start_def r_end_def
      needs_flush_def)

lemma ex_tx_fields:
  "tx_stage ex_tx = TX_STAGE_WORK" "tx_uuid_lo ex_tx = 7" "tx_ranges ex_tx = Some ex_ranges" "tx_base ex_tx = 0"
  "tx_locks ex_tx = [0x10008]" "tx_pop ex_tx = ex_pool"
  by (simp_all add: ex_tx_def)

definition ex_entry :: mem where
  "ex_entry = wr (\<lambda>_. 0) 0x3000 (le64 (0x10000 OR ULOG_OPERATION_BUF_CPY) @ le64 0 @ le64 16 @ replicate 16 5)"

lemma ex_entry_fields:
  "ld64 ex_entry 0x3000 = 0x10000 OR ULOG_OPERATION_BUF_CPY" "ld64 ex_entry 0x3010 = 16" "ex_entry 0x3018 = 5"
proof -
  show "ld64 ex_entry 0x3000 = 0x10000 OR ULOG_OPERATION_BUF_CPY" "ld64 ex_entry 0x3010 = 16"
    by (simp_all add: ex_entry_def ld64_def wr_append mem_simps disjoint_ranges_def)
  show "ex_entry 0x3018 = 5" by (simp add: ex_entry_def wr_append) (simp add: wr_def)
qed

theorem tx_pre_commit_flushes_witness:
  "\<exists>rs. tx_pre_commit ex_tx = (Inr (map (\<lambda>r. (tx_base ex_tx + tr_offset r, tr_size r)) rs), ex_tx\<lparr>tx_ranges := None\<rparr>) \<and>
    (\<Union>r \<in> set rs. range_bytes r) = {0x10020..<0x10040}"
  using tx_pre_commit_flushes [OF ex_tx_fields(3) ex_ranges_ok] unfolding ex_ranges_bytes by blast

theorem pmemobj_tx_xadd_range_logs_once_witness:
  "\<exists>ss t'.
    (\<forall>p. pmemobj_tx_xadd_range True True ex_tx (7, 0x10000) 0 0x80 0 p =
       map_option (tx_add_result 0) (snapshots True ss t' ex_tx p)) \<and>
    partitions 0 ({0x10000..<0x10020} \<union> {0x10040..<0x10080}) (map fst ss) \<and> covered t' = {0x10000..<0x10080}"
proof -
  let ?a = "\<lparr> tr_offset = snd (7 :: u64, 0x10000) + 0, tr_size = 0x80, tr_flags = 0 \<rparr> :: tx_range_def"
  have h: "in_heap ex_tx ?a"
    by (simp add: in_heap_def ex_tx_fields ex_pool_def r_end_def PMEMOBJ_MAX_ALLOC_SIZE_def)
  have b: "range_bytes ?a = {0x10000..<0x10080}" by (simp add: range_bytes_def r_start_def r_end_def)
  have "range_bytes ?a - covered ex_ranges = {0x10000..<0x10020} \<union> {0x10040..<0x10080}"
      "covered ex_ranges \<union> range_bytes ?a = {0x10000..<0x10080}"
    unfolding b ex_ranges_bytes by auto
  then show ?thesis
    using pmemobj_tx_xadd_range_logs_once [OF ex_tx_fields(1) _ _ refl h ex_tx_fields(3) ex_ranges_ok, of True]
    by (simp add: ex_tx_fields) metis
qed

lemma ex_add_fails:
  "\<exists>tx' p'. pmemobj_tx_add_common True True ex_tx \<lparr> tr_offset = 0x10000, tr_size = 0x10, tr_flags = 16 \<rparr>
     (ex_pmem None (\<lambda>_ _. False) (\<lambda>_. 0)) = Some (Inl (TX_RETURN ENOMEM), tx', p')"
  by (simp add: pmemobj_tx_add_common_def PMEMOBJ_MAX_ALLOC_SIZE_def ex_tx_def ex_pool_def ex_ranges_def ex_range_def
      tx_add_loop.simps ravl_find_def RAVL_LESS_EQUAL_def tx_range_def_cmp_def ravl_predicate_holds_def
      add_new_range_def tx_lane_ranges_insert_def_def ravl_emplace_def ravl_new_node_def pmemobj_tx_add_snapshot_def
      POBJ_FLAG_NO_SNAPSHOT_def first_snapshot_action_def operation_add_buffer.simps buffer_room_def operation_reserve_def
      ex_ctx_def tx_add_failed_def obj_tx_fail_err_def POBJ_FLAG_TX_NO_ABORT_def Let_def split: prod.split)

theorem failed_snapshot_stays_recorded_witness:
  "\<exists>tx' p' s t'. pmemobj_tx_add_common True True ex_tx \<lparr> tr_offset = 0x10000, tr_size = 0x10, tr_flags = 16 \<rparr>
       (ex_pmem None (\<lambda>_ _. False) (\<lambda>_. 0)) = Some (Inl (TX_RETURN ENOMEM), tx', p') \<and>
     range_wf s \<and> range_bytes s \<subseteq> {0x10000..<0x10010} \<and>
     pmemobj_tx_add_common True True tx' s p' = Some (Inr (), tx'\<lparr>tx_ranges := Some t'\<rparr>, p')"
proof -
  let ?a = "\<lparr> tr_offset = 0x10000, tr_size = 0x10, tr_flags = 16 \<rparr> :: tx_range_def"
  have h: "in_heap ex_tx ?a"
    by (simp add: in_heap_def ex_tx_fields ex_pool_def r_end_def PMEMOBJ_MAX_ALLOC_SIZE_def)
  have b: "range_bytes ?a = {0x10000..<0x10010}" by (simp add: range_bytes_def r_start_def r_end_def)
  obtain tx' p' where f: "pmemobj_tx_add_common True True ex_tx ?a (ex_pmem None (\<lambda>_ _. False) (\<lambda>_. 0)) =
      Some (Inl (TX_RETURN ENOMEM), tx', p')" using ex_add_fails by blast
  show ?thesis
    using failed_snapshot_stays_recorded [OF h ex_tx_fields(3) ex_ranges_ok f] f unfolding b by blast
qed

theorem tx_undo_entry_apply_restores_witness:
  "\<exists>p'. tx_undo_entry_apply True ex_tx 0x3000 (ex_pmem None (\<lambda>_ _. False) ex_entry) = (Inr 0, p') \<and>
     vis p' 0x10000 = 5 \<and> md_img (pm_s p') 0x10000 = 5 \<and> vis p' 0x10008 = 0"
proof -
  let ?p = "ex_pmem None (\<lambda>_ _. False) ex_entry"
  have v: "vis ?p = ex_entry" by (simp add: vis_def)
  have o: "ulog_entry_type (vis ?p) 0x3000 = ULOG_OPERATION_BUF_CPY" "0x10000 = unat (ulog_entry_offset (vis ?p) 0x3000)"
      "16 = unat (ld64 (vis ?p) (0x3000 + 16))"
    unfolding v ulog_entry_type_def ulog_entry_offset_def ex_entry_fields by (simp_all add: ex_entry_fields ulog_op_defs)
  have z: "ex_entry 0x10008 = 0" by (simp add: ex_entry_def wr_outside)
  show ?thesis
    using tx_undo_entry_apply_restores [OF o, of ex_tx, OF _ _ _ _ _ refl]
    by (auto simp: ex_tx_fields v ex_entry_fields z)
qed

end
