(* ===== verification/Spec2Isabelle.thy ===== *)
theory Spec2Isabelle
  imports Blk_Theorems Btt_Theorems Log_Theorems Ulog_Theorems Memops_Theorems User_Buffers Container_Theorems Tx_Theorems
begin

text \<open>
  \<^bold>\<open>Persistent memory libraries: block pools, log pools and object logs\<close>

  The repository holds Witcher, a crash-consistency tester, and the programs it tests.
  The C code base with the crash-consistency logic is PMDK 1.8 (src/pmdk-1.8/src).  This
  development models the parts whose correctness is a matter of what survives a power
  failure, and the volatile structures they rest on:

  \<^item> libpmemblk: block memory pools (blk.c) on a block translation table (btt.c,
    btt_layout.h), which makes block writes atomic;
  \<^item> libpmemlog: append-only log pools (log.c);
  \<^item> libpmemobj/ulog.c: the redo and undo log on which allocations and transactions rest;
  \<^item> libpmemobj/memops.c: operation contexts, which collect updates in a log and process
    them, with the queue of common/vecq.h and the registry of user buffers;
  \<^item> libpmemobj/ravl.c and container_ravl.c: the relaxed AVL tree and the container of
    free memory blocks of the heap;
  \<^item> libpmemobj/tx.c: the snapshot ranges of a transaction;
  \<^item> common/util.c: the Fletcher64 checksum that guards info blocks and logs.

  \<^bold>\<open>How the parts interact.\<close>  blk.c opens a pool, maps a lane to each call and hands
  the data area to btt.c through the callbacks nsread, nswrite, nsmap, nszero and nssync;
  btt.c never sees the pool otherwise.  log.c and ulog.c store directly into the pool.
  memops.c fills shadow logs in DRAM, writes them with ulog_store and applies them with
  ulog_process; it takes undo logs entry by entry through ulog_entry_buf_create.  tx.c
  keeps the ranges it has logged in a tree of ravl.c and logs each byte once through
  operation_add_buffer.  All of them rest on the persistence primitives of libpmem, which
  are modelled by what they guarantee, not by their assembly.

  \<^bold>\<open>State.\<close>  A medium is a byte memory with a power budget: after that many durable
  steps the power is lost, and an oracle chooses which 8-byte words of the stores in
  flight have reached the medium (theory Medium).  For libpmemobj the stores in flight are
  also visible to loads, and a drain completes only those that were flushed (theory
  Pmem).  Handles (btt, arena, pmemblk, pmemlog, operation_context, ravl, tx) are records
  with the fields of the C structures.  A tree node in hand is the node with the chain of
  its parents.  Every call returns a value of a sum type, an error number on the left, and
  the new state; C integers keep their width as words, so products and sums wrap where
  the code wraps.  ABORT, HANG, FAIL and POWERLOSS are the additional outcomes: a failed
  run-time check or an access that is undefined, a busy wait that nothing in the model ends,
  a plain -1, the loss of power.

  \<^bold>\<open>Theories.\<close>
  \<^item> Prelude: words, memories, little-endian encodings, error results.
  \<^item> Checksum: util_checksum_compute, util_checksum, util_checksum_seq.
  \<^item> Btt_Layout, Btt: btt_layout.h and btt.c, one definition per function and one per
    loop.  Btt_Media, Btt_Steps, Btt_Ops, Btt_Recovery, Btt_Handle, Btt_Reload, Btt_Open,
    Btt_Format, Btt_Frame: the arena invariant, the effect of each store of a block write
    on it, recovery from the flogs (itself interruptible), the loading and formatting of
    a namespace, and the frame property of the callbacks.  Btt_Ops states the namespace
    contract as a locale that Blk_Props interprets on the callbacks of blk.c.
  \<^item> Medium, Blk, Log: the medium, blk.c, log.c.  Blk_Props, Blk_Fresh: pools with and
    without a layout.
  \<^item> Durable: the contract of a pool with atomic operations, as the locales durable and
    recoverable; Blk_Spec and Log_Spec interpret recoverable on blk.c and log.c.
  \<^item> Pmem, Ulog: stores with flush and drain, ulog.c.  Redo, Redo_Recovery: redo logs as
    lists of updates, and that a recovery that is cut off can be repeated.  Val_Log,
    Buf_Log: the bytes of logs of value entries and of buffer entries.
  \<^item> Vecq, Memops: vecq.h, memops.c.  Memops_Entries: a shadow log holds a list of
    updates, and merging keeps its effect.  Memops_Redo, Memops_Process: storing and
    applying it with the power lost at any step.
  \<^item> Ravl: ravl.c.  Ravl_Props: rotations keep the in-order list, rank rule, search; the
    locale ravl_order is the contract between the tree and a comparison function.
    Ravl_Set: the tree as an ordered set.  The locale is interpreted on
    container_compare_memblocks (Container_Ravl), operation_user_buffer_range_cmp
    (User_Buffers) and tx_range_def_cmp (Tx_Ranges).
  \<^item> Container_Ravl: container_ravl.c.  Tx: the range functions of tx.c; Tx_Ranges: sets of
    disjoint ranges.
  \<^item> Blk_Theorems, Btt_Theorems, Log_Theorems, Checksum, Ulog_Theorems, Memops_Theorems,
    User_Buffers, Container_Theorems, Tx_Theorems: the properties, each with a witness on
    a concrete pool, log or tree.

  \<^bold>\<open>What is shown.\<close>
  \<^item> Crash atomicity of block pools and log pools as refinement of list specifications,
    for every schedule of power failures and any number of failed attempts to reopen, and
    refinement of the same specifications with power; creation, reads, checks and walks;
    the layout arithmetic of arenas; round trips of info blocks and checksums; detection
    of damaged words; error returns.
  \<^item> Redo logs: recovery restarted after any number of power failures ends in the image
    that an uninterrupted one gives, as long as the header of the log stays on the medium; a
    stored log recovers its updates; buffer entries read back.
  \<^item> Operations of memops.c: with power, a context performs its entries in order, operation
    after operation, and is idle again after each.  A power failure leaves the old contents,
    the new ones, a recoverable log, or a mixture without a log; the last case is a defect
    of the code (the missing drain below), and operations with one entry do not have it.
  \<^item> The tree: containers of free blocks refine sets with best fit; the height without
    removals is at most logarithmic; user buffers stay disjoint unless one starts where
    another ends.
  \<^item> Transactions: adding a range keeps the recorded ranges disjoint and logs exactly the
    bytes that were not logged before, each once.
  \<^item> Places where the code falls short: a read tracking slot left set, the map of a second
    arena not zeroed, a log clobbered without a drain of the applied updates, an unknown
    entry type that makes recovery loop, the reverse iteration of a wrapped queue and the
    order of updates lost by it, a user buffer accepted over an existing one, the range
    recorded by a snapshot that fails, and a wrap-around.

  \<^bold>\<open>Scope of the theorems.\<close>  Those on block pools are about pools with a layout, except
  that creation and the first write are about pools of one arena without one.  Redo contexts
  have a log without extensions and at most 64 entries per operation, the size of the merge
  queue.  One thread runs at a time; a call that would wait for another thread is HANG.

  \<^bold>\<open>Bounds and fuel.\<close>  Loops over sizes and lists are structural or have a
  measure.  Loops that follow on-media data (pmemlog_walk, the iterations of ulog.c,
  operation_add_buffer) and the loop of pmemobj_tx_add_common are partial functions with
  None for not returning.  A read that retries against concurrent writers takes the list
  of namespace states it observes; the list bounds the retries.

  \<^bold>\<open>Not modelled.\<close>  Pool sets, file mapping and headers (common/set.c: system
  calls; their results are inputs), libpmem's CPU dispatch, pmempool and rpmem
  (interactive tools, network), the vendored jemalloc, valgrind macros, debug assertions,
  and the C++ and Python parts of Witcher.  Of libpmemobj: the heap and the allocator
  (heap.c, palloc.c, memblock.c, recycler.c, bucket.c, alloc_class.c), of which only the
  container is modelled, lanes and locks (lane.c, sync.c: thread primitives), objects and
  lists (obj.c, list.c), and of tx.c the nesting of transactions with longjmp, commit,
  abort and the allocation calls.
\<close>

end
